(* ===== verification/Prelude.thy ===== *)
theory Prelude
  imports Main "HOL-Library.Word" "HOL-Library.Monad_Syntax"
begin

text \<open>
  The vocabulary shared by every component of the stackvm development: the machine integers of
  the Go code (\<open>uint8\<close>, \<open>uint32\<close>, \<open>uint\<close>) as words, the layout of a 32-bit word in
  memory, and the convention for Go functions that may panic.

  A Go function that can panic is a HOL function into \<open>option\<close>: \<^const>\<open>None\<close> is the
  panic (integer division by zero, slice index out of range, or a pointer access that leaves the
  page object it points into, which Go gives no meaning).  Everything that the code reports through
  its \<open>error\<close> results is a value: a result is \<open>((x, err), s)\<close>, a Go result list followed
  by the state after the call, also when the call fails.
\<close>

unbundle bit_operations_syntax

type_synonym u8 = "8 word"
type_synonym u32 = "32 word"
type_synonym u64 = "64 word"

named_theorems go_defs \<open>definitions of the translated Go functions\<close>
named_theorems inv_intros \<open>preservation lemmas of the machine invariants\<close>

subsection \<open>Signed readings\<close>

text \<open>Go's truncated remainder \<open>a % b\<close> on \<open>int32\<close>; it panics on a zero divisor.\<close>

definition go_rem :: "int \<Rightarrow> int \<Rightarrow> int" where
  "go_rem a b = sgn a * (\<bar>a\<bar> mod \<bar>b\<bar>)"

lemma go_rem_bound: "b \<noteq> 0 \<Longrightarrow> \<bar>go_rem a b\<bar> < \<bar>b\<bar>"
  by (auto simp: go_rem_def abs_mult sgn_if)

lemma go_rem_nonneg: "0 \<le> a \<Longrightarrow> 0 \<le> b \<Longrightarrow> go_rem a b = a mod b"
  by (cases "a = 0") (auto simp: go_rem_def)

subsection \<open>Words in memory\<close>

text \<open>
  \<open>ByteOrder\<close> is set at start-up to the byte order of the host, the order in which the unsafe
  pointer accesses read a word; the development fixes the little-endian order of amd64 and arm64.
\<close>

definition put_u32 :: "u32 \<Rightarrow> u8 list" where
  "put_u32 w = [ucast w, ucast (drop_bit 8 w), ucast (drop_bit 16 w), ucast (drop_bit 24 w)]"

definition get_u32 :: "u8 \<Rightarrow> u8 \<Rightarrow> u8 \<Rightarrow> u8 \<Rightarrow> u32" where
  "get_u32 a b c d =
     ucast a OR push_bit 8 (ucast b) OR push_bit 16 (ucast c) OR push_bit 24 (ucast d)"

lemma length_put_u32 [simp]: "length (put_u32 w) = 4"
  by (simp add: put_u32_def)

lemma get_put_u32:
  "get_u32 (put_u32 w ! 0) (put_u32 w ! 1) (put_u32 w ! 2) (put_u32 w ! 3) = w" (is "?l = w")
proof (rule bit_word_eqI)
  fix n :: nat
  assume "n < LENGTH(32)"
  then consider "n < 8" | "8 \<le> n" "n < 16" | "16 \<le> n" "n < 24" | "24 \<le> n" "n < 32"
    by fastforce
  then show "bit ?l n = bit w n"
    by cases (auto simp add: get_u32_def put_u32_def bit_simps)
qed

lemma get_u32_zero [simp]: "get_u32 0 0 0 0 = 0"
  by (simp add: get_u32_def)

subsection \<open>Results of Go functions that may panic\<close>

text \<open>\<open>keeps P r\<close>: if the call returns, the state it returns satisfies \<open>P\<close>.\<close>

definition keeps :: "('s \<Rightarrow> bool) \<Rightarrow> ('a \<times> 's) option \<Rightarrow> bool" where
  "keeps P r \<longleftrightarrow> (\<forall>x s. r = Some (x, s) \<longrightarrow> P s)"

lemma keeps_None [simp]: "keeps P None"
  by (simp add: keeps_def)

lemma keeps_Some [simp]: "keeps P (Some (x, s)) \<longleftrightarrow> P s"
  by (auto simp: keeps_def)

lemma keepsD: "keeps P r \<Longrightarrow> r = Some (x, s) \<Longrightarrow> P s"
  by (auto simp: keeps_def)

lemma keeps_bind:
  assumes "keeps P r" and "\<And>x s. P s \<Longrightarrow> keeps Q (f (x, s))"
  shows "keeps Q (Option.bind r f)"
  using assms by (cases r) (auto simp: keeps_def)

lemma keeps_bind_pure: "(\<And>x. r = Some x \<Longrightarrow> keeps Q (f x)) \<Longrightarrow> keeps Q (Option.bind r f)"
  by (cases r) auto

lemma keeps_if: "(b \<Longrightarrow> keeps P r) \<Longrightarrow> (\<not> b \<Longrightarrow> keeps P r') \<Longrightarrow> keeps P (if b then r else r')"
  by simp

lemma keeps_mono: "keeps P r \<Longrightarrow> (\<And>s. P s \<Longrightarrow> Q s) \<Longrightarrow> keeps Q r"
  by (auto simp: keeps_def)

subsection \<open>Lists\<close>

lemma list_update_eq_map:
  "i < length xs \<Longrightarrow> f x = f (xs ! i) \<Longrightarrow> map f (xs[i := x]) = map f xs"
  by (metis list_update_id map_update)

end
