(* ===== verification/Varcode.thy ===== *)
theory Varcode
  imports Prelude
begin

text \<open>
  \<open>encoding.go\<close>: the variable-length code in which options and operations are written.  A code
  word is a 7-bit code, optionally preceded by a 32-bit argument in base-128 digits, most significant
  digit first, each with its high bit set.
\<close>

subsection \<open>Decoding\<close>

text \<open>
  The loop of \<open>readVarCode\<close>: \<open>i\<close> is the index of the byte (equal to the count \<open>n\<close> before
  it is read).  The result is Go's \<open>(n, arg, code, ok)\<close>.
\<close>

fun read_loop :: "nat \<Rightarrow> u32 \<Rightarrow> u8 list \<Rightarrow> nat \<times> u32 \<times> u8 \<times> bool" where
  "read_loop i arg [] = (i, arg, 0, False)"
| "read_loop i arg (v # bs) =
     (if v AND 0x80 = 0 then (Suc i, arg, (if i > 0 then v OR 0x80 else v), True)
      else if i = 5 then (Suc i, arg, 0, False)
      else read_loop (Suc i) (push_bit 7 arg OR ucast (v AND 0x7f)) bs)"

definition readVarCode :: "u8 list \<Rightarrow> nat \<times> u32 \<times> u8 \<times> bool" where
  "readVarCode buf = read_loop 0 0 buf"

subsection \<open>Encoding\<close>

text \<open>
  The inner loop of \<open>putVarCode\<close> fills \<open>tmp[i..]\<close> with the digits of \<open>arg\<close>, least significant
  first; \<open>k\<close> is the number of slots left (\<open>len(tmp) - i\<close>).
\<close>

fun put_digits :: "nat \<Rightarrow> u32 \<Rightarrow> u8 list" where
  "put_digits 0 arg = []"
| "put_digits (Suc k) arg =
     (ucast arg OR 0x80) #
     (if drop_bit 7 arg = 0 then [] else put_digits k (drop_bit 7 arg))"

definition var_tmp :: "u32 \<Rightarrow> u8 \<Rightarrow> u8 list" where
  "var_tmp arg code =
     (code AND 0x7f) # (if code AND 0x80 \<noteq> 0 then put_digits 5 arg else [])"

text \<open>
  The digits are copied from the last filled slot down to slot 0, as far as \<open>buf\<close> has room; the
  result is the buffer and the count, negated when it did not fit.
\<close>

definition putVarCode :: "u8 list \<Rightarrow> u32 \<Rightarrow> u8 \<Rightarrow> u8 list \<times> int" where
  "putVarCode buf arg code =
     (let out = rev (var_tmp arg code);
          n = min (length out) (length buf)
      in (take n out @ drop n buf,
          if length out > length buf then - int n else int n))"

text \<open>The loop of \<open>varCodeLength\<close>, which has no bound of its own.\<close>

lemma drop_bit_7_less:
  fixes arg :: u32
  assumes "drop_bit 7 arg \<noteq> 0"
  shows "unat (drop_bit 7 arg) < unat arg"
proof -
  have "unat (drop_bit 7 arg) = unat arg div 128"
    by (simp only: unat_drop_bit_eq) (simp add: drop_bit_eq_div)
  moreover have "unat (drop_bit 7 arg) \<noteq> 0"
    using assms by (metis unsigned_eq_0_iff)
  ultimately show ?thesis by linarith
qed

function arg_digits :: "u32 \<Rightarrow> nat" where
  "arg_digits arg = (if drop_bit 7 arg = 0 then 1 else Suc (arg_digits (drop_bit 7 arg)))"
  by pat_completeness auto
termination
  by (relation "measure unat") (auto intro: drop_bit_7_less)

declare arg_digits.simps [simp del]

definition varCodeLength :: "u32 \<Rightarrow> u8 \<Rightarrow> nat" where
  "varCodeLength arg code = (if code AND 0x80 = 0 then 1 else 1 + arg_digits arg)"

definition MaxVarCodeLen :: nat where
  "MaxVarCodeLen = 1 + 5"

subsection \<open>Bit lemmas on digits and codes\<close>
lemma mask_literals: "(0x7f :: u8) = mask 7" "(0x7f::u32) = mask 7" 
  by (simp_all add: mask_eq_exp_minus_1)
lemma bit_0x80: "bit (0x80 :: u8) n \<longleftrightarrow> n = 7"
proof -
  have "(0x80::u8) = push_bit 7 1" by simp
  then have "bit (0x80 :: u8) n = bit (push_bit 7 1 :: u8) n" by (simp only:)
  then show ?thesis unfolding bit_push_bit_iff bit_1_iff by auto
qed
lemma digit_high: "(ucast (a::u32) OR 0x80 :: u8) AND 0x80 = 0x80"
  by (rule bit_word_eqI) (auto simp: bit_and_iff bit_or_iff bit_0x80)
lemma digit_low: "ucast ((ucast (a::u32) OR 0x80 :: u8) AND 0x7f) = a AND 0x7f"
  unfolding mask_literals
  by (rule bit_word_eqI)
    (auto simp only: bit_and_iff bit_or_iff bit_0x80 bit_mask_iff bit_ucast_iff possible_bit_word
       len_num0 len_num1 len_bit0 len_bit1)
lemma digit_join: "push_bit 7 (drop_bit 7 a) OR (a AND 0x7f) = (a::u32)"
  unfolding mask_literals by (rule bit_word_eqI) (auto simp: bit_and_iff bit_or_iff bit_mask_iff bit_push_bit_iff bit_drop_bit_eq)
lemma and_0x80_eq_0: "((c :: u8) AND 0x80 = 0) = (\<not> bit c 7)"
  proof
  assume "c AND 0x80 = 0"
  then have "\<not> bit (c AND 0x80) 7" by simp
  then show "\<not> bit c 7" by (simp only: bit_and_iff bit_0x80) simp
next
  assume "\<not> bit c 7"
  then show "c AND 0x80 = 0"
    by (intro bit_word_eqI) (simp only: bit_and_iff bit_0x80 bit_0_eq, auto)
qed
lemma code_low: "((c :: u8) AND 0x7f) AND 0x80 = 0"
  unfolding and_0x80_eq_0 unfolding mask_literals by (auto simp: bit_and_iff  bit_mask_iff )
lemma less_8_not_less_7: "n < 8 \<Longrightarrow> \<not> n < 7 \<Longrightarrow> n = (7::nat)" by auto
lemma code_or: "(c :: u8) AND 0x80 \<noteq> 0 \<Longrightarrow> (c AND 0x7f) OR 0x80 = c"
  unfolding and_0x80_eq_0 unfolding mask_literals
  by (rule bit_word_eqI) (simp only: bit_and_iff bit_or_iff bit_0x80 bit_mask_iff possible_bit_word, auto dest: less_8_not_less_7)
lemma code_id: "(c :: u8) AND 0x80 = 0 \<Longrightarrow> (c AND 0x7f) = c"
  unfolding and_0x80_eq_0 unfolding mask_literals
  by (rule bit_word_eqI) (simp only: bit_and_iff bit_or_iff bit_0x80 bit_mask_iff possible_bit_word, auto dest: less_8_not_less_7)

subsection \<open>Decoding what was encoded\<close>

lemma drop_bit_35: "drop_bit 35 (a::u32) = 0"
  by (rule bit_word_eqI) (simp add: bit_simps)

lemma read_digits:
  assumes "drop_bit (7 * k) arg = 0" and "i + length (put_digits k arg) \<le> 5"
  shows "read_loop i acc (rev (put_digits k arg) @ rest) =
    read_loop (i + length (put_digits k arg)) (push_bit (7 * length (put_digits k arg)) acc OR arg) rest"
  using assms
proof (induction k arbitrary: arg rest)
  case 0
  then show ?case by simp
next
  case (Suc k)
  let ?hi = "drop_bit 7 arg"
  show ?case
  proof (cases "?hi = 0")
    case True
    then have "arg AND 0x7f = arg" using digit_join [of arg] by simp
    with True Suc.prems show ?thesis by (simp add: digit_high digit_low)
  next
    case False
    let ?n = "length (put_digits k ?hi)"
    have "drop_bit (7 * k) ?hi = 0" using Suc.prems(1) by (simp add: drop_bit_drop_bit add.commute)
    moreover have "i + ?n \<le> 4" using Suc.prems(2) False by simp
    ultimately have "read_loop i acc (rev (put_digits (Suc k) arg) @ rest) =
       read_loop (i + ?n) (push_bit (7 * ?n) acc OR ?hi) ((ucast arg OR 0x80) # rest)"
      using False by (simp add: Suc.IH)
    also have "\<dots> = read_loop (Suc (i + ?n)) (push_bit 7 (push_bit (7 * ?n) acc OR ?hi) OR (arg AND 0x7f)) rest"
      using \<open>i + ?n \<le> 4\<close> by (simp add: digit_high digit_low)
    also have "push_bit 7 (push_bit (7 * ?n) acc OR ?hi) OR (arg AND 0x7f) =
       push_bit (7 * Suc ?n) acc OR arg"
      using digit_join [of arg] by (simp add: push_bit_or or.assoc)
    finally show ?thesis using False by simp
  qed
qed

lemma length_put_digits:
  "drop_bit (7 * Suc k) arg = 0 \<Longrightarrow> length (put_digits (Suc k) arg) = arg_digits arg"
proof (induction k arbitrary: arg)
  case 0
  then show ?case by (simp add: arg_digits.simps [of arg])
next
  case (Suc k)
  have "drop_bit (7 * Suc k) (drop_bit 7 arg) = 0" using Suc.prems by (simp add: drop_bit_drop_bit add.commute)
  from Suc.IH [OF this] show ?case
    by (simp only: put_digits.simps(2) [of "Suc k"] arg_digits.simps [of arg] list.size if_distrib [of length] split: if_split) simp
qed
lemma put_digits_le: "length (put_digits k arg) \<le> k"
  by (induction k arbitrary: arg) auto
lemma put_digits_5: "length (put_digits 5 arg) = arg_digits arg"
  using length_put_digits [of 4 arg] by (simp add: drop_bit_35)

lemma arg_digits_le: "drop_bit (7 * Suc k) arg = 0 \<Longrightarrow> arg_digits arg \<le> Suc k"
  using length_put_digits [of k arg] put_digits_le [of "Suc k" arg] by linarith

lemma arg_digits_le_5: "arg_digits arg \<le> 5"
  using arg_digits_le [of 4 arg] by (simp add: drop_bit_35)

lemma length_var_tmp: "length (var_tmp arg code) = varCodeLength arg code"
  by (simp add: var_tmp_def varCodeLength_def put_digits_5)

lemma read_var_tmp:
  "read_loop 0 0 (rev (var_tmp arg code) @ rest) =
     (varCodeLength arg code, if code AND 0x80 = 0 then 0 else arg, code, True)"
proof (cases "code AND 0x80 = 0")
  case True
  then show ?thesis by (simp add: var_tmp_def varCodeLength_def code_low code_id)
next
  case False
  have "arg_digits arg > 0"
    by (subst arg_digits.simps) simp
  then show ?thesis
    using False arg_digits_le_5 [of arg] read_digits [of 5 arg 0 0 "(code AND 0x7f) # rest"]
    by (simp add: var_tmp_def varCodeLength_def put_digits_5 drop_bit_35 code_low code_or)
qed

lemma putVarCode_fits:
  "varCodeLength arg code \<le> length buf \<Longrightarrow>
   putVarCode buf arg code =
     (rev (var_tmp arg code) @ drop (varCodeLength arg code) buf, int (varCodeLength arg code))"
  by (simp add: putVarCode_def length_var_tmp Let_def)

text \<open>
  C29: encoding and decoding round-trip: what \<open>putVarCode\<close> writes into a buffer that is long enough,
  \<open>readVarCode\<close> reads back, with the same length, code and argument, whatever follows it.
\<close>
theorem varcode_roundtrip:
  assumes "varCodeLength arg code \<le> length buf"
  shows "readVarCode (fst (putVarCode buf arg code)) =
           (varCodeLength arg code, if code AND 0x80 = 0 then 0 else arg, code, True)
       \<and> snd (putVarCode buf arg code) = int (varCodeLength arg code)
       \<and> length (fst (putVarCode buf arg code)) = length buf"
  using assms
  by (simp add: putVarCode_fits readVarCode_def read_var_tmp length_var_tmp)

theorem varcode_roundtrip_witness:
  "readVarCode (fst (putVarCode (replicate 6 0) 300 0x82)) = (3, 300, 0x82, True)"
proof -
  have "varCodeLength 300 0x82 = 3" by (simp add: varCodeLength_def arg_digits.simps)
  with varcode_roundtrip [of 300 "0x82" "replicate 6 0"] show ?thesis by simp
qed


text \<open>
  Into a buffer that is too short \<open>putVarCode\<close> writes the prefix that fits and returns its
  length negated.
\<close>
theorem putVarCode_truncated:
  assumes "length buf < varCodeLength arg code"
  shows "putVarCode buf arg code = (take (length buf) (rev (var_tmp arg code)), - int (length buf))"
  using assms by (simp add: putVarCode_def length_var_tmp Let_def)

lemma put_digits_numeral:
  "put_digits (numeral k) arg =
     (ucast arg OR 0x80) # (if drop_bit 7 arg = 0 then [] else put_digits (pred_numeral k) (drop_bit 7 arg))"
  by (simp add: numeral_eq_Suc)

theorem putVarCode_truncated_witness:
  "putVarCode [0, 0] 300 0x82 = ([0x82, 0xac], - 2)"
proof -
  have "varCodeLength 300 0x82 = 3" by (simp add: varCodeLength_def arg_digits.simps)
  with putVarCode_truncated [of "[0, 0]" 300 "0x82"] show ?thesis
    by (simp add: var_tmp_def put_digits_numeral)
qed


lemma read_loop_ok:
  assumes "read_loop i arg bs = (n, arg', c, True)" and "i \<le> 5"
  shows "i < n \<and> n \<le> 6 \<and> n - i \<le> length bs \<and> (c AND 0x80 \<noteq> 0 \<longleftrightarrow> n > 1)
    \<and> read_loop i arg (take (n - i) bs @ rest) = (n, arg', c, True)"
  using assms
proof (induction bs arbitrary: i arg)
  case Nil
  then show ?case by simp
next
  case (Cons v bs)
  consider (last) "v AND 0x80 = 0" | (long) "v AND 0x80 \<noteq> 0" "i = 5" | (more) "v AND 0x80 \<noteq> 0" "i \<noteq> 5"
    by blast
  then show ?case
  proof cases
    case last
    have "(v OR 0x80) AND 0x80 \<noteq> 0" by (simp add: word_bw_comms word_ao_dist)
    with last Cons.prems show ?thesis by (auto split: if_splits)
  next
    case long
    with Cons.prems show ?thesis by simp
  next
    case more
    with Cons.prems have "Suc i < n \<and> n \<le> 6 \<and> n - Suc i \<le> length bs \<and> (c AND 0x80 \<noteq> 0 \<longleftrightarrow> n > 1)
      \<and> read_loop (Suc i) (push_bit 7 arg OR ucast (v AND 0x7f)) (take (n - Suc i) bs @ rest)
          = (n, arg', c, True)"
      by (intro Cons.IH) simp_all
    moreover from this have "n - i = Suc (n - Suc i)" by auto
    ultimately show ?thesis using more by simp
  qed
qed

lemma readVarCode_okD:
  assumes "readVarCode buf = (n, arg, code, True)"
  shows "1 \<le> n \<and> n \<le> MaxVarCodeLen \<and> n \<le> length buf \<and> (code AND 0x80 \<noteq> 0 \<longleftrightarrow> n > 1)
    \<and> readVarCode (take n buf @ rest) = (n, arg, code, True)"
  using read_loop_ok [of 0 0 buf n arg code rest] assms
  by (simp add: readVarCode_def MaxVarCodeLen_def)

lemma next_digit_bits:
  fixes arg :: u32 and v :: u8
  assumes "drop_bit (7 * i) arg = 0"
  shows "drop_bit (7 * Suc i) (push_bit 7 arg OR ucast (v AND 0x7f)) = 0"
proof (rule bit_word_eqI)
  fix n
  have "\<not> bit arg (7 * i + n)"
    using arg_cong [OF assms, of "\<lambda>x. bit x n"] by (simp add: bit_simps)
  then show "bit (drop_bit (7 * Suc i) (push_bit 7 arg OR ucast (v AND 0x7f))) n = bit (0 :: u32) n"
    unfolding mask_literals by (simp add: bit_simps)
qed

lemma read_loop_bits:
  assumes "read_loop i arg bs = (n, arg', c, True)" and "drop_bit (7 * i) arg = 0"
  shows "drop_bit (7 * (n - 1)) arg' = 0"
  using assms
proof (induction bs arbitrary: i arg)
  case Nil
  then show ?case by simp
next
  case (Cons v bs)
  have "drop_bit (7 * Suc i) (push_bit 7 arg OR ucast (v AND 0x7f)) = 0"
    by (rule next_digit_bits) (rule Cons.prems(2))
  with Cons show ?case by (auto split: if_splits)
qed

text \<open>
  \<open>readVarCode\<close> never reads fewer bytes than \<open>putVarCode\<close> would write for the code and argument
  that it returns: the encoder is the shortest.
\<close>
theorem readVarCode_shortest:
  assumes "readVarCode buf = (n, arg, code, True)"
  shows "varCodeLength arg code \<le> n"
proof (cases "code AND 0x80 = 0")
  case True
  with readVarCode_okD [OF assms, of "[]"] show ?thesis by (simp add: varCodeLength_def)
next
  case False
  with readVarCode_okD [OF assms, of "[]"] have n: "n - 1 = Suc (n - 2)" "n > 1" by auto
  have "drop_bit (7 * (n - 1)) arg = 0"
    using assms read_loop_bits [of 0 0 buf n arg code] by (simp add: readVarCode_def)
  then have "arg_digits arg \<le> n - 1" using arg_digits_le [of "n - 2" arg] n by simp
  with False n show ?thesis by (simp add: varCodeLength_def)
qed

theorem readVarCode_shortest_witness: "varCodeLength 1 0x82 \<le> 3"
proof -
  have "readVarCode [0x80, 0x81, 0x02] = (3, 1, 0x82, True)" by (simp add: readVarCode_def)
  then show ?thesis by (rule readVarCode_shortest)
qed


lemma read_loop_fail:
  assumes "i \<le> 5"
  shows "(\<exists>n a c. read_loop i arg bs = (n, a, c, False)) \<longleftrightarrow> (\<forall>v \<in> set (take (6 - i) bs). v AND 0x80 \<noteq> 0)"
  using assms
proof (induction bs arbitrary: i arg)
  case (Cons v bs)
  then show ?case by (cases "i = 5") (auto simp: Suc_diff_le numeral_eq_Suc)
qed simp

text \<open>
  \<open>readVarCode\<close> fails exactly when none of the first six bytes ends a code word, also on a
  buffer shorter than that, and it never looks further.
\<close>
theorem readVarCode_fails_iff:
  "(\<exists>n a c. readVarCode buf = (n, a, c, False)) \<longleftrightarrow>
   (\<forall>v \<in> set (take MaxVarCodeLen buf). v AND 0x80 \<noteq> 0)"
  using read_loop_fail [of 0 0 buf] by (simp add: readVarCode_def MaxVarCodeLen_def)

theorem readVarCode_fails_iff_witness:
  "(\<exists>n a c. readVarCode [0x81, 0xff] = (n, a, c, False))"
  unfolding readVarCode_fails_iff by (simp add: MaxVarCodeLen_def)

end
