(* ===== verification/Ops.thy ===== *)
theory Ops
  imports Varcode
begin

text \<open>
  \<open>ops.go\<close>, \<open>op_codes.go\<close> and the \<open>Op\<close> type of \<open>api.go\<close>: the operation codes, the table that
  names them and says which take an immediate argument, and the functions by which the assembler
  sizes, encodes and links operations and options.
\<close>

subsection \<open>Operation codes\<close>

text \<open>The constants of \<open>op_codes.go\<close>: an enumeration, and the byte of each.\<close>

datatype (plugins only:) opcode =
  OpCrash | OpNop | OpPush | OpPop | OpDup | OpSwap | OpFetch | OpStore | OpStoreto |
  OpAdd | OpSub | OpMul | OpDiv | OpMod | OpDivmod | OpNeg | OpLt | OpLte | OpGt | OpGte |
  OpEq | OpNeq | OpNot | OpAnd | OpOr | OpCpush | OpCpop | OpP2C | OpC2P | OpMark |
  OpJump | OpJnz | OpJz | OpCall | OpRet | OpFork | OpFnz | OpFz | OpBranch | OpBnz |
  OpBz | OpBitnot | OpBitand | OpBitor | OpBitxor | OpShiftl | OpShiftr | OpBitest |
  OpBitset | OpBitost | OpBitseta | OpBitosta | OpHnz | OpHz | OpHalt

fun op_code :: "opcode \<Rightarrow> u8" where
"op_code OpCrash = 0x00"
| "op_code OpNop = 0x01"
| "op_code OpPush = 0x02"
| "op_code OpPop = 0x03"
| "op_code OpDup = 0x04"
| "op_code OpSwap = 0x05"
| "op_code OpFetch = 0x08"
| "op_code OpStore = 0x09"
| "op_code OpStoreto = 0x0a"
| "op_code OpAdd = 0x10"
| "op_code OpSub = 0x11"
| "op_code OpMul = 0x12"
| "op_code OpDiv = 0x13"
| "op_code OpMod = 0x14"
| "op_code OpDivmod = 0x15"
| "op_code OpNeg = 0x16"
| "op_code OpLt = 0x18"
| "op_code OpLte = 0x19"
| "op_code OpGt = 0x1a"
| "op_code OpGte = 0x1b"
| "op_code OpEq = 0x1c"
| "op_code OpNeq = 0x1d"
| "op_code OpNot = 0x20"
| "op_code OpAnd = 0x21"
| "op_code OpOr = 0x22"
| "op_code OpCpush = 0x28"
| "op_code OpCpop = 0x29"
| "op_code OpP2C = 0x2a"
| "op_code OpC2P = 0x2b"
| "op_code OpMark = 0x2c"
| "op_code OpJump = 0x30"
| "op_code OpJnz = 0x31"
| "op_code OpJz = 0x32"
| "op_code OpCall = 0x33"
| "op_code OpRet = 0x34"
| "op_code OpFork = 0x40"
| "op_code OpFnz = 0x41"
| "op_code OpFz = 0x42"
| "op_code OpBranch = 0x50"
| "op_code OpBnz = 0x51"
| "op_code OpBz = 0x52"
| "op_code OpBitnot = 0x58"
| "op_code OpBitand = 0x59"
| "op_code OpBitor = 0x5a"
| "op_code OpBitxor = 0x5b"
| "op_code OpShiftl = 0x5c"
| "op_code OpShiftr = 0x5d"
| "op_code OpBitest = 0x60"
| "op_code OpBitset = 0x61"
| "op_code OpBitost = 0x62"
| "op_code OpBitseta = 0x63"
| "op_code OpBitosta = 0x64"
| "op_code OpHnz = 0x7d"
| "op_code OpHz = 0x7e"
| "op_code OpHalt = 0x7f"

definition all_ops :: "opcode list" where
  "all_ops =
    [OpCrash, OpNop, OpPush, OpPop, OpDup, OpSwap, OpFetch, OpStore, OpStoreto, OpAdd,
     OpSub, OpMul, OpDiv, OpMod, OpDivmod, OpNeg, OpLt, OpLte, OpGt, OpGte, OpEq, OpNeq,
     OpNot, OpAnd, OpOr, OpCpush, OpCpop, OpP2C, OpC2P, OpMark, OpJump, OpJnz, OpJz,
     OpCall, OpRet, OpFork, OpFnz, OpFz, OpBranch, OpBnz, OpBz, OpBitnot, OpBitand,
     OpBitor, OpBitxor, OpShiftl, OpShiftr, OpBitest, OpBitset, OpBitost, OpBitseta,
     OpBitosta, OpHnz, OpHz, OpHalt]"

text \<open>
  The \<open>switch oc.code\<close> of \<open>step\<close> selects a case by the byte: \<open>op_of\<close> is the case selected
  (without the immediate bit), \<^const>\<open>None\<close> the default.
\<close>

definition op_of :: "u8 \<Rightarrow> opcode option" where
  "op_of c = map_of (map (\<lambda>x. (op_code x, x)) all_ops) c"

definition opCodeWithImm :: u8 where
  "opCodeWithImm = 0x80"

definition hasImm :: "u8 \<Rightarrow> bool" where
  "hasImm c \<longleftrightarrow> c AND opCodeWithImm \<noteq> 0"

definition opcode_code :: "u8 \<Rightarrow> u8" where
  "opcode_code c = c AND NOT opCodeWithImm"

subsection \<open>Immediate kinds and the table of operations\<close>

type_synonym opImmKind = int

definition opImmNone :: opImmKind where "opImmNone = 0"
definition opImmVal :: opImmKind where "opImmVal = 1"
definition opImmAddr :: opImmKind where "opImmAddr = 2"
definition opImmOffset :: opImmKind where "opImmOffset = 3"
definition opImmType :: opImmKind where "opImmType = 0x0f"
definition opImmReq :: opImmKind where "opImmReq = 0x010"

lemmas imm_kind_defs =
  opImmNone_def opImmVal_def opImmAddr_def opImmOffset_def opImmType_def opImmReq_def

definition imm_kind :: "opImmKind \<Rightarrow> opImmKind" where
  "imm_kind k = k AND opImmType"

definition imm_required :: "opImmKind \<Rightarrow> bool" where
  "imm_required k \<longleftrightarrow> k AND opImmReq \<noteq> 0"

record opDef =
  od_name :: string
  od_imm :: opImmKind

definition noop :: opDef where "noop = \<lparr>od_name = '''', od_imm = 0\<rparr>"
definition valop :: "string \<Rightarrow> opDef" where "valop n = \<lparr>od_name = n, od_imm = opImmVal\<rparr>"
definition addrop :: "string \<Rightarrow> opDef" where "addrop n = \<lparr>od_name = n, od_imm = opImmAddr\<rparr>"
definition offop :: "string \<Rightarrow> opDef" where "offop n = \<lparr>od_name = n, od_imm = opImmOffset\<rparr>"
definition justop :: "string \<Rightarrow> opDef" where "justop n = \<lparr>od_name = n, od_imm = opImmNone\<rparr>"

lemmas opdef_defs = noop_def valop_def addrop_def offop_def justop_def

definition ops :: "opDef list" where
  "ops =
    [justop ''crash'', justop ''nop'', valop ''push'', valop ''pop'', valop ''dup'',
     valop ''swap'', noop, noop,
     addrop ''fetch'', valop ''store'', addrop ''storeTo'', noop, noop, noop, noop, noop,
     valop ''add'', valop ''sub'', valop ''mul'', valop ''div'', valop ''mod'',
     valop ''divmod'', justop ''neg'', noop,
     valop ''lt'', valop ''lte'', valop ''gt'', valop ''gte'', valop ''eq'', valop ''neq'',
     noop, noop,
     justop ''not'', justop ''and'', justop ''or'', noop, noop, noop, noop, noop,
     valop ''cpush'', valop ''cpop'', valop ''p2c'', valop ''c2p'', justop ''mark'', noop,
     noop, noop,
     offop ''jump'', offop ''jnz'', offop ''jz'', addrop ''call'', justop ''ret'', noop,
     noop, noop,
     noop, noop, noop, noop, noop, noop, noop, noop,
     offop ''fork'', offop ''fnz'', offop ''fz'', noop, noop, noop, noop, noop,
     noop, noop, noop, noop, noop, noop, noop, noop,
     offop ''branch'', offop ''bnz'', offop ''bz'', noop, noop, noop, noop, noop,
     justop ''bitnot'', valop ''bitand'', valop ''bitor'', valop ''bitxor'',
     valop ''shiftl'', valop ''shiftr'', noop, noop,
     addrop ''bitest'', addrop ''bitset'', addrop ''bitost'', addrop ''bitseta'',
     addrop ''bitosta'', noop, noop, noop,
     noop, noop, noop, noop, noop, noop, noop, noop,
     noop, noop, noop, noop, noop, noop, noop, noop,
     noop, noop, noop, noop, noop, valop ''hnz'', valop ''hz'', valop ''halt'']"

text \<open>
  \<open>ops[i]\<close> for a byte \<open>i\<close>: the array has 128 entries, and Go panics past its end.
\<close>

definition ops_at :: "u8 \<Rightarrow> opDef option" where
  "ops_at c = (if unat c < length ops then Some (ops ! unat c) else None)"

text \<open>\<open>init\<close> enters every entry of the table, the unnamed ones too; a later entry replaces.\<close>

definition opName2Code :: "string \<Rightarrow> u8 option" where
  "opName2Code =
     fold (\<lambda>(i, def) m. m(od_name def \<mapsto> of_nat i)) (enumerate 0 ops) Map.empty"

subsection \<open>The \<open>Op\<close> type of \<open>api.go\<close>\<close>

record Op =
  Code :: u8
  Arg :: u32
  Have :: bool

datatype op_error = NoSuchOpError string | ErrNoArg

definition ResolveOp :: "string \<Rightarrow> u32 \<Rightarrow> bool \<Rightarrow> op_error + Op" where
  "ResolveOp s arg have =
     (case opName2Code s of
        None \<Rightarrow> Inl (NoSuchOpError s)
      | Some c \<Rightarrow>
          if have \<and> imm_kind (od_imm (ops ! unat c)) = opImmNone then Inl ErrNoArg
          else Inr \<lparr>Code = c, Arg = arg, Have = have\<rparr>)"

definition op_Name :: "Op \<Rightarrow> string option" where
  "op_Name op = map_option od_name (ops_at (Code op))"

text \<open>The code byte with its immediate bit, as three functions of \<open>api.go\<close> compute it.\<close>

definition op_byte :: "Op \<Rightarrow> u8" where
  "op_byte op = (if Have op then Code op OR 0x80 else Code op)"

definition op_EncodeInto :: "Op \<Rightarrow> u8 list \<Rightarrow> u8 list \<times> int" where
  "op_EncodeInto op p = putVarCode p (Arg op) (op_byte op)"

definition op_AcceptsRef :: "Op \<Rightarrow> bool option" where
  "op_AcceptsRef op =
     map_option (\<lambda>d. imm_kind (od_imm d) \<in> {opImmVal, opImmOffset, opImmAddr})
       (ops_at (Code op))"

definition op_NeededSize :: "Op \<Rightarrow> nat option" where
  "op_NeededSize op =
     map_option
       (\<lambda>accepts. if accepts then MaxVarCodeLen else varCodeLength (Arg op) (op_byte op))
       (op_AcceptsRef op)"

text \<open>
  The argument that makes the operation at \<open>myIP\<close> refer to \<open>targIP\<close>; \<^const>\<open>None\<close> is the panic
  for an operation without an immediate (or a code past the table).
\<close>

definition ref_offset :: "u8 \<Rightarrow> u32 \<Rightarrow> u32 \<Rightarrow> u32" where
  "ref_offset c myIP targIP =
     (let d = targIP - myIP;
          n = varCodeLength d c;
          d' = d - of_nat n
      in if d' <s 0 \<and> varCodeLength d' c \<noteq> n then d' - 1 else d')"

definition op_ResolveRefArg :: "Op \<Rightarrow> u32 \<Rightarrow> u32 \<Rightarrow> Op option" where
  "op_ResolveRefArg op myIP targIP =
     (case ops_at (Code op) of
        None \<Rightarrow> None
      | Some d \<Rightarrow>
          if imm_kind (od_imm d) = opImmOffset then
            Some (op\<lparr>Arg := ref_offset (op_byte op) myIP targIP\<rparr>)
          else if imm_kind (od_imm d) = opImmVal \<or> imm_kind (od_imm d) = opImmAddr then
            Some (op\<lparr>Arg := targIP\<rparr>)
          else None)"

subsection \<open>Options\<close>

datatype opt =
  OptEnd | OptStackSize | OptQueueSize | OptMaxOps | OptMaxCopies | OptEntry | OptInput |
  OptOutput | OptName | OptAddrLabels | OptSpanOpen | OptSpanClose | OptVersion

fun opt_code :: "opt \<Rightarrow> u8" where
  "opt_code OptEnd = 0x00"
| "opt_code OptStackSize = 0x01"
| "opt_code OptQueueSize = 0x02"
| "opt_code OptMaxOps = 0x03"
| "opt_code OptMaxCopies = 0x04"
| "opt_code OptEntry = 0x05"
| "opt_code OptInput = 0x06"
| "opt_code OptOutput = 0x07"
| "opt_code OptName = 0x08"
| "opt_code OptAddrLabels = 0x09"
| "opt_code OptSpanOpen = 0x0a"
| "opt_code OptSpanClose = 0x0b"
| "opt_code OptVersion = 0x7f"

definition all_opts :: "opt list" where
  "all_opts =
    [OptEnd, OptStackSize, OptQueueSize, OptMaxOps, OptMaxCopies, OptEntry, OptInput,
     OptOutput, OptName, OptAddrLabels, OptSpanOpen, OptSpanClose, OptVersion]"

definition opt_of :: "u8 \<Rightarrow> opt option" where
  "opt_of c = map_of (map (\<lambda>x. (opt_code x, x)) all_opts) c"

definition optionAcceptsRef :: "Op \<Rightarrow> bool" where
  "optionAcceptsRef op \<longleftrightarrow>
     opt_of (Code op) \<in>
       Some ` {OptEntry, OptInput, OptOutput, OptName, OptSpanOpen, OptSpanClose}"

definition ResolveOptionRefArg :: "Op \<Rightarrow> u32 \<Rightarrow> u32 \<Rightarrow> Op option" where
  "ResolveOptionRefArg op site targ =
     (if optionAcceptsRef op then Some (op\<lparr>Arg := targ\<rparr>) else None)"

definition OptionNeededSize :: "Op \<Rightarrow> nat option" where
  "OptionNeededSize op =
     (if optionAcceptsRef op then Some MaxVarCodeLen
      else if Code op = opt_code OptAddrLabels then Some MaxVarCodeLen
      else op_NeededSize op)"

text \<open>
  The names of the options; the code of \<open>NameOption\<close> formats an unknown one with its number,
  which is \<^const>\<open>None\<close> here.
\<close>

fun opt_name :: "opt \<Rightarrow> string" where
  "opt_name OptEnd = ''end''"
| "opt_name OptStackSize = ''stackSize''"
| "opt_name OptQueueSize = ''queueSize''"
| "opt_name OptMaxOps = ''maxOps''"
| "opt_name OptMaxCopies = ''maxCopies''"
| "opt_name OptEntry = ''entry''"
| "opt_name OptInput = ''input''"
| "opt_name OptOutput = ''output''"
| "opt_name OptName = ''name''"
| "opt_name OptAddrLabels = ''addrLabels''"
| "opt_name OptSpanOpen = ''spanOpen''"
| "opt_name OptSpanClose = ''spanClose''"
| "opt_name OptVersion = ''version''"

definition NameOption :: "u8 \<Rightarrow> string option" where
  "NameOption c = map_option opt_name (opt_of (c AND 0x7f))"

definition ResolveOption :: "string \<Rightarrow> u32 \<Rightarrow> bool \<Rightarrow> Op" where
  "ResolveOption s arg have =
     (case map_of (map (\<lambda>x. (opt_name x, x)) all_opts) s of
        None \<Rightarrow> \<lparr>Code = 0, Arg = 0, Have = False\<rparr>
      | Some x \<Rightarrow> \<lparr>Code = opt_code x, Arg = arg, Have = have\<rparr>)"

subsection \<open>Facts about the tables\<close>
lemma length_ops [simp]: "length ops = 128" by (simp add: ops_def)
lemma distinct_names: "distinct (filter (\<lambda>s. s \<noteq> []) (map od_name ops))"
  by (simp add: ops_def opdef_defs)

lemma distinct_filter_later:
  assumes "distinct (filter P xs)" and "i < length xs" and "P (xs ! i)"
  shows "xs ! i \<notin> set (drop (Suc i) xs)"
proof -
  have "filter P xs = filter P (take i xs) @ (xs ! i) # filter P (drop (Suc i) xs)"
    using assms(2,3) by (subst id_take_nth_drop [of i]) auto
  with assms(1,3) show ?thesis by auto
qed

lemma fold_table:
  assumes "i < length xs" and "f (xs ! i) \<notin> set (drop (Suc i) (map f xs))"
  shows "fold (\<lambda>(j, d) m. m(f d \<mapsto> g j)) (enumerate k xs) m (f (xs ! i)) = Some (g (k + i))"
  using assms
proof (induction xs arbitrary: i k m)
  case (Cons x xs)
  have later: "fold (\<lambda>(j, d) m. m(f d \<mapsto> g j)) (enumerate n ys) m' s = m' s" if "s \<notin> set (map f ys)" for n ys m' s
    using that by (induction ys arbitrary: n m') auto
  show ?case
  proof (cases i)
    case 0
    with Cons.prems show ?thesis by (simp add: later del: fun_upd_apply) simp
  next
    case (Suc j)
    with Cons show ?thesis by simp
  qed
qed simp

lemma op_name_nonempty: "od_name (ops ! unat (op_code x)) \<noteq> []"
  by (cases x) (simp_all add: ops_def opdef_defs)
lemma op_code_low: "unat (op_code x) < 128"
  by (cases x) simp_all

lemma op_of_code [simp]: "op_of (op_code x) = Some x"
  by (cases x) (simp_all add: op_of_def all_ops_def)

lemma op_code_of: "op_of c = Some x \<Longrightarrow> op_code x = c"
  by (auto simp: op_of_def dest: map_of_SomeD)

lemma opt_of_code [simp]: "opt_of (opt_code x) = Some x"
  by (cases x) (simp_all add: opt_of_def all_opts_def)

lemma varCodeLength_le: "varCodeLength arg c \<le> MaxVarCodeLen"
  using arg_digits_le_5 [of arg] by (simp add: varCodeLength_def MaxVarCodeLen_def)

subsection \<open>Properties\<close>

text \<open>
  The table of operations and the generated constants agree: looking up the name that the
  table gives an operation's code yields that code again, for each of the 55 operations.
\<close>

theorem op_names_roundtrip:
  "opName2Code (od_name (ops ! unat (op_code x))) = Some (op_code x) \<and> op_of (op_code x) = Some x"
  using fold_table [of "unat (op_code x)" ops od_name "of_nat :: nat \<Rightarrow> u8" 0 Map.empty]
    distinct_filter_later [OF distinct_names, of "unat (op_code x)"] op_name_nonempty op_code_low
  by (simp add: opName2Code_def)

text \<open>
  The empty string resolves to an operation: the unnamed table entries are entered into the
  name map too, the last of them wins, and \<open>ResolveOp\<close> accepts it although no operation has its
  code 0x7c.
\<close>

theorem ResolveOp_empty_name:
  "ResolveOp [] arg False = Inr \<lparr>Code = 0x7c, Arg = arg, Have = False\<rparr> \<and> op_of 0x7c = None"
  by (simp add: ResolveOp_def opName2Code_def ops_def opdef_defs op_of_def all_ops_def)

text \<open>
  The options round-trip through their names: \<open>ResolveOption\<close> of an option's name gives its
  code, and \<open>NameOption\<close> of that code, with or without the immediate bit, gives the name.
\<close>

theorem option_names_roundtrip:
  "ResolveOption (opt_name x) arg have = \<lparr>Code = opt_code x, Arg = arg, Have = have\<rparr> \<and>
   NameOption (opt_code x) = Some (opt_name x) \<and>
   NameOption (opt_code x OR 0x80) = Some (opt_name x)"
  by (cases x)
    (simp_all add: ResolveOption_def NameOption_def opt_of_def all_opts_def)

text \<open>
  \<open>NeededSize\<close> is enough: the operation, and the operation that \<open>ResolveRefArg\<close> makes of it
  for any site and target, encode in at most that many bytes, so that \<open>EncodeInto\<close> a buffer of
  that size does not fail.
\<close>

theorem NeededSize_enough:
  assumes "op_NeededSize op = Some n" and "n \<le> length p"
  shows "0 < snd (op_EncodeInto op p) \<and>
    (\<forall>myIP targIP op'. op_ResolveRefArg op myIP targIP = Some op' \<longrightarrow>
       0 < snd (op_EncodeInto op' p))"
proof -
  have fits: "0 < snd (op_EncodeInto x p)" if "varCodeLength (Arg x) (op_byte x) \<le> n" for x
    using that assms(2) by (simp add: op_EncodeInto_def putVarCode_fits varCodeLength_def)
  from assms(1) show ?thesis
    using varCodeLength_le fits
    by (auto simp: op_NeededSize_def op_AcceptsRef_def op_ResolveRefArg_def
        split: if_splits option.splits)
qed

theorem NeededSize_enough_witness:
  "0 < snd (op_EncodeInto \<lparr>Code = 0x30, Arg = 5, Have = True\<rparr> (replicate 6 0))"
proof -
  have "op_NeededSize \<lparr>Code = 0x30, Arg = 5, Have = True\<rparr> = Some 6"
    by (simp add: op_NeededSize_def op_AcceptsRef_def ops_at_def MaxVarCodeLen_def)
      (simp add: ops_def opdef_defs imm_kind_def imm_kind_defs)
  from NeededSize_enough [OF this, of "replicate 6 0"] show ?thesis by simp
qed

text \<open>
  \<open>ResolveRefArg\<close> of an offset operation is right when the guess of the encoded length is
  stable: the operation encoded at \<open>myIP\<close> then ends at an address from which its offset leads to
  \<open>targIP\<close>.
\<close>

theorem ref_offset_lands:
  assumes "varCodeLength (targIP - myIP - of_nat (varCodeLength (targIP - myIP) c)) c
    = varCodeLength (targIP - myIP) c"
  shows "myIP + of_nat (varCodeLength (ref_offset c myIP targIP) c) + ref_offset c myIP targIP
    = targIP"
  using assms by (simp add: ref_offset_def Let_def)

theorem ref_offset_lands_witness:
  "(100 :: u32) + of_nat (varCodeLength (ref_offset 0xb0 100 40) 0xb0) + ref_offset 0xb0 100 40 = 40"
  by (rule ref_offset_lands) (simp add: varCodeLength_def arg_digits.simps)

text \<open>
  Where the guess is not stable the reference misses its target: a jump to itself is linked
  to an address three bytes after its own start, and a forward jump over 126, 127 or 128 bytes
  lands one byte early.
\<close>

theorem ref_offset_misses:
  "myIP + of_nat (varCodeLength (ref_offset 0xb0 myIP myIP) 0xb0) + ref_offset 0xb0 myIP myIP
     = myIP + 3 \<and>
   map (\<lambda>k. 2 + of_nat (varCodeLength (ref_offset 0xb0 2 (4 + k)) 0xb0) + ref_offset 0xb0 2 (4 + k))
     [126, 127, 128] = [4 + 125, 4 + 126, 4 + 127]"
  by (simp add: ref_offset_def Let_def varCodeLength_def arg_digits.simps word_sless_alt)

end
