(* ===== verification/Machine.thy ===== *)
theory Machine
  imports Ops
begin

text \<open>
  The state of \<open>vm.go\<close>: pages, the machine, and the execution context that a machine shares with
  its copies.

  A \<open>Mach\<close> is a record; the objects that machines reach through pointers and share are kept in
  an explicit store that is passed along with the running machine: the pages, the arrays of the
  decode caches, the run queue and the free lists.  A pointer is an index into the store.  The
  machine that runs is the record itself; the machines of the run queue are kept as values with
  their addresses, because nothing can reach a queued machine but the queue.
\<close>

subsection \<open>Pages\<close>

text \<open>\<open>r\<close> is the reference count (an \<open>int32\<close>, read as signed), \<open>d\<close> the bytes.\<close>

record page =
  rc :: u32
  dat :: "u8 list"

definition pageSize :: nat where
  "pageSize = 0x40"

definition pspInit :: u32 where
  "pspInit = 0xfffffffc"

definition zero_page :: page where
  "zero_page = \<lparr>rc = 0, dat = replicate pageSize 0\<rparr>"

subsection \<open>Errors of the machine\<close>

datatype merr =
    ErrVarIntTooBig | ErrInvalidIP | ErrSegfault | ErrNoQueue | ErrHalted | ErrCrashed | ErrLimit
  | ErrRunQFull
  | AlignmentError string u32
  | StackRangeError string string
  | MaxCopiesExceeded nat
  | InvalidOp u8 "u32 option"
  | UnexpectedImm u32 string
  | MissingImm string
  | UnimplementedOp u8

subsection \<open>The machine\<close>

record cachedOp =
  co_ip :: u32
  co_code :: u8
  co_arg :: u32

record region =
  rg_name :: u32
  rg_from :: u32
  rg_to :: u32

text \<open>
  The fields of \<open>Mach\<close>.  The slice \<open>pages\<close> is its elements and, as \<open>spare\<close>, the rest of its
  array up to the capacity, which a recycled machine uses again; \<open>opc\<close> is the address of the
  array of the decode cache.
\<close>

record mach =
  err :: "merr option"
  ip :: u32
  pbp :: u32
  psp :: u32
  pa :: u32
  cbp :: u32
  csp :: u32
  count :: u64
  limit :: u64
  pages :: "nat option list"
  spare :: "nat option list"
  opc :: nat

text \<open>
  The implementations of the interfaces in the context.  A free list holds its newest element
  last; for a machine it is the address and the array that the emptied \<open>pages\<close> still has.
\<close>

datatype page_alloc =
  DefaultPages | PageFreeList "nat list"

datatype mach_alloc =
  DefaultMachs
| MachFreeList "(nat \<times> nat option list) list"
| MaxMachCopies nat nat mach_alloc \<comment> \<open>copies, limit, and the allocator it wraps\<close>

datatype run_queue =
  NoQueue
| RunQ nat "(nat \<times> mach) list" \<comment> \<open>capacity and elements, the newest last\<close>

record vm = mach +
  self :: nat \<comment> \<open>address of the running machine\<close>
  heap :: "page list"
  palloc :: page_alloc
  malloc :: mach_alloc
  next_mach :: nat \<comment> \<open>addresses from here on are unused\<close>
  runq :: run_queue
  caches :: "cachedOp list list"
  outs :: "region list"

text \<open>The machine record within the state, and the state with another machine running.\<close>

definition cur :: "vm \<Rightarrow> mach" where
  "cur s = mach.truncate s"

definition switch :: "nat \<Rightarrow> mach \<Rightarrow> vm \<Rightarrow> vm" where
  "switch a m s = (mach.extend m (mach.more s))\<lparr>self := a\<rparr>"

definition queued :: "vm \<Rightarrow> (nat \<times> mach) list" where
  "queued s = (case runq s of NoQueue \<Rightarrow> [] | RunQ c ms \<Rightarrow> ms)"

definition free_pages :: "vm \<Rightarrow> nat list" where
  "free_pages s = (case palloc s of DefaultPages \<Rightarrow> [] | PageFreeList f \<Rightarrow> f)"

fun free_machs_of :: "mach_alloc \<Rightarrow> (nat \<times> nat option list) list" where
  "free_machs_of DefaultMachs = []"
| "free_machs_of (MachFreeList f) = f"
| "free_machs_of (MaxMachCopies c l a) = free_machs_of a"

abbreviation free_machs :: "vm \<Rightarrow> (nat \<times> nat option list) list" where
  "free_machs s \<equiv> free_machs_of (malloc s)"

text \<open>A small state for the examples: an empty stack over \<open>base\<close> bytes, default allocators.\<close>

definition blank :: "u32 \<Rightarrow> vm" where
  "blank base =
     \<lparr>err = None, ip = base, pbp = 0, psp = pspInit, pa = 0, cbp = base - 4, csp = base - 4,
      count = 0, limit = 0, pages = [], spare = [], opc = 0,
      self = 0, heap = [], palloc = DefaultPages, malloc = DefaultMachs, next_mach = 1,
      runq = NoQueue, caches = [[]], outs = []\<rparr>"

end
