(* ===== verification/Sharing.thy ===== *)
theory Sharing
  imports Memory
begin

text \<open>
  Sharing of pages between machines.  \<open>heap_inv N s\<close> says that the reference count of every page
  is at least the number of page-table entries of the running machine and the queued ones that
  hold it (and at most \<open>N\<close>, which keeps the counts from wrapping), that these entries point to
  existing pages, and that the free list has no page in use.  The main lemma is \<open>writable_ok\<close>:
  the page that a write gets belongs to one entry of one table only.
\<close>

subsection \<open>Reference counts\<close>

fun refs :: "nat option list list \<Rightarrow> nat \<Rightarrow> nat" where
  "refs [] p = 0"
| "refs (t # ts) p = count_list t (Some p) + refs ts p"

definition heap_ok :: "nat \<Rightarrow> page list \<Rightarrow> nat list \<Rightarrow> nat option list list \<Rightarrow> bool" where
  "heap_ok N h fr ts \<longleftrightarrow>
     (\<forall>p < length h. length (dat (h ! p)) = pageSize \<and>
        int (refs ts p) \<le> sint (rc (h ! p)) \<and> sint (rc (h ! p)) \<le> int N) \<and>
     (\<forall>p. 0 < refs ts p \<longrightarrow> p < length h) \<and>
     distinct fr \<and> (\<forall>p \<in> set fr. p < length h \<and> refs ts p = 0)"

definition tables :: "vm \<Rightarrow> nat option list list" where
  "tables s = pages s # map (\<lambda>(a, m). pages m) (queued s)"

definition heap_inv :: "nat \<Rightarrow> vm \<Rightarrow> bool" where
  "heap_inv N s \<longleftrightarrow> heap_ok N (heap s) (free_pages s) (tables s)"

lemma count_list_update:
  "i < length xs \<Longrightarrow> count_list (xs[i := y]) x + (if xs ! i = x then 1 else 0) =
     count_list xs x + (if y = x then 1 else 0)"
proof (induction xs arbitrary: i)
  case (Cons a xs)
  show ?case
  proof (cases i)
    case (Suc j)
    with Cons.prems Cons.IH [of j] show ?thesis by (cases "y = x") simp_all
  qed simp
qed simp

lemma count_list_replicate [simp]: "count_list (replicate n y) x = (if x = y then n else 0)"
  by (induction n) auto

lemma refs_append [simp]: "refs (ts @ us) p = refs ts p + refs us p"
  by (induction ts) auto

lemma refs_0_iff: "refs ts p = 0 \<longleftrightarrow> (\<forall>t \<in> set ts. Some p \<notin> set t)"
  by (induction ts) (auto simp: count_list_0_iff)

lemma heap_ok_bound: "heap_ok N h fr ts \<Longrightarrow> t \<in> set ts \<Longrightarrow> Some p \<in> set t \<Longrightarrow> p < length h"
  using refs_0_iff [of ts p] by (auto simp: heap_ok_def)

lemma heap_ok_put:
  assumes ok: "heap_ok N h fr (t # ts)" and i: "i < length t" and N: "1 \<le> N"
    and np: "np < length h" "np \<notin> set fr" "refs (t # ts) np = 0"
    and len: "length h' = length h"
    and d: "\<And>p. p < length h \<Longrightarrow> length (dat (h' ! p)) = pageSize"
    and new: "rc (h' ! np) = 1"
    and old: "\<And>p. p < length h \<Longrightarrow> p \<noteq> np \<Longrightarrow>
      sint (rc (h' ! p)) = sint (rc (h ! p)) - (if t ! i = Some p then 1 else 0)"
  shows "heap_ok N h' fr (t[i := Some np] # ts)"
proof -
  have cnt: "refs (t[i := Some np] # ts) p + (if t ! i = Some p then 1 else 0)
      = refs (t # ts) p + (if p = np then 1 else 0)" for p
    using count_list_update [OF i, of "Some np" "Some p"] by auto
  have ti: "t ! i \<noteq> Some np"
    using np(3) i by (metis refs_0_iff list.set_intros(1) nth_mem)
  have "int (refs (t[i := Some np] # ts) p) \<le> sint (rc (h' ! p)) \<and> sint (rc (h' ! p)) \<le> int N"
    if "p < length h" for p
  proof (cases "p = np")
    case True
    with cnt [of p] ti np(3) N show ?thesis by (simp add: new)
  next
    case False
    with that ok have "int (refs (t # ts) p) \<le> sint (rc (h ! p))" "sint (rc (h ! p)) \<le> int N"
      by (auto simp: heap_ok_def)
    with cnt [of p] old [OF that False] False show ?thesis by (auto split: if_splits)
  qed
  moreover have "p < length h" if "0 < refs (t[i := Some np] # ts) p" for p
    using that cnt [of p] np(1) ok by (cases "p = np") (auto simp: heap_ok_def split: if_splits)
  moreover have "refs (t[i := Some np] # ts) p = 0" if "p \<in> set fr" for p
  proof -
    from that np(2) have "p \<noteq> np" by auto
    moreover from that ok have "refs (t # ts) p = 0" by (auto simp: heap_ok_def)
    ultimately show ?thesis using cnt [of p] by (auto split: if_splits)
  qed
  ultimately show ?thesis using ok d len unfolding heap_ok_def by auto
qed

lemma heap_ok_cong:
  assumes "heap_ok N h fr ts" and "length h' = length h"
    and "\<And>p. p < length h \<Longrightarrow> rc (h' ! p) = rc (h ! p)"
    and "\<And>p. p < length h \<Longrightarrow> length (dat (h' ! p)) = pageSize"
  shows "heap_ok N h' fr ts"
  using assms unfolding heap_ok_def by auto

lemma AllocPage_ok:
  assumes "heap_ok N (heap s) (free_pages s) ts" and "AllocPage s = (np, s')"
  shows "heap_ok N (heap s') (free_pages s') ts" "np < length (heap s')" "np \<notin> set (free_pages s')"
    "refs ts np = 0" "dat (heap s' ! np) = replicate pageSize 0"
    "\<And>p. p < length (heap s) \<Longrightarrow> rc (heap s' ! p) = rc (heap s ! p)"
    "\<And>p. p < length (heap s) \<Longrightarrow> p \<noteq> np \<Longrightarrow> heap s' ! p = heap s ! p"
    "s' = s\<lparr>heap := heap s', palloc := palloc s'\<rparr>" "length (heap s) \<le> length (heap s')"
proof -
  have fresh: "heap_ok N (heap s @ [zero_page]) (free_pages s) ts \<and> refs ts (length (heap s)) = 0
     \<and> length (heap s) \<notin> set (free_pages s)"
    using assms(1) by (auto simp: heap_ok_def nth_append less_Suc_eq zero_page_def)
  have "heap_ok N (heap s') (free_pages s') ts \<and> np < length (heap s') \<and> np \<notin> set (free_pages s') \<and>
    refs ts np = 0 \<and> dat (heap s' ! np) = replicate pageSize 0 \<and>
    (\<forall>p < length (heap s). rc (heap s' ! p) = rc (heap s ! p) \<and> (p \<noteq> np \<longrightarrow> heap s' ! p = heap s ! p)) \<and>
    s' = s\<lparr>heap := heap s', palloc := palloc s'\<rparr> \<and> length (heap s) \<le> length (heap s')"
  proof (cases "free_pages s")
    case Nil
    with assms(2) have "np = length (heap s)" "s' = s\<lparr>heap := heap s @ [zero_page]\<rparr>"
      by (auto simp: AllocPage_def free_pages_def split: page_alloc.splits list.splits)
    with fresh show ?thesis
      by (auto simp: nth_append zero_page_def free_pages_def)
  next
    case (Cons x xs)
    then have pf: "palloc s = PageFreeList (x # xs)"
      by (auto simp: free_pages_def split: page_alloc.splits)
    obtain ys z where f: "x # xs = ys @ [z]" by (metis rev_exhaust list.distinct(1))
    have "AllocPage s = (last (x # xs), upd_page (last (x # xs)) (dat_update (\<lambda>_. replicate pageSize 0))
        (s\<lparr>palloc := PageFreeList (butlast (x # xs))\<rparr>))"
      by (simp add: AllocPage_def pf)
    then have s': "np = z" "s' = upd_page z (dat_update (\<lambda>_. replicate pageSize 0)) (s\<lparr>palloc := PageFreeList ys\<rparr>)"
      using assms(2) unfolding f by simp_all
    have fr: "free_pages s = ys @ [z]" using Cons f by simp
    have z: "z < length (heap s)" "refs ts z = 0" "z \<notin> set ys" "distinct ys"
        "\<forall>p \<in> set ys. p < length (heap s) \<and> refs ts p = 0"
      using assms(1) by (auto simp: heap_ok_def fr)
    have h': "heap s' = (heap s)[z := (heap s ! z)\<lparr>dat := replicate pageSize 0\<rparr>]"
        "free_pages s' = ys"
      by (simp_all add: s' upd_page_def free_pages_def)
    have "heap_ok N (heap s') ys ts"
      using assms(1) z by (auto simp: heap_ok_def h' nth_list_update)
    moreover have "s' = s\<lparr>heap := heap s', palloc := palloc s'\<rparr>"
      by (simp add: s' upd_page_def)
    ultimately show ?thesis
      using z by (simp add: h' s'(1) nth_list_update)
  qed
  then show "heap_ok N (heap s') (free_pages s') ts" "np < length (heap s')" "np \<notin> set (free_pages s')"
    "refs ts np = 0" "dat (heap s' ! np) = replicate pageSize 0"
    "\<And>p. p < length (heap s) \<Longrightarrow> rc (heap s' ! p) = rc (heap s ! p)"
    "\<And>p. p < length (heap s) \<Longrightarrow> p \<noteq> np \<Longrightarrow> heap s' ! p = heap s ! p"
    "s' = s\<lparr>heap := heap s', palloc := palloc s'\<rparr>" "length (heap s) \<le> length (heap s')"
    by blast+
qed

lemma sint_u32_range: "- (2 ^ 31) \<le> sint (r :: u32)" "sint (r :: u32) < 2 ^ 31"
  using sint_ge [of r] sint_lt [of r] by simp_all

lemma sint_dec: "1 < sint (r :: u32) \<Longrightarrow> sint (r - 1) = sint r - 1"
  using sint_u32_range [of r] by (simp add: sint_word_ariths signed_take_bit_int_eq_self)

lemma sint_inc: "sint (r :: u32) < 2 ^ 31 - 1 \<Longrightarrow> sint (r + 1) = sint r + 1"
  using sint_u32_range [of r] by (simp add: sint_word_ariths signed_take_bit_int_eq_self)

lemma one_sless: "1 <s (r :: u32) \<longleftrightarrow> 1 < sint r"
  by (simp add: word_sless_alt)

definition contents :: "page list \<Rightarrow> nat option list \<Rightarrow> nat \<Rightarrow> u8 list" where
  "contents h t i =
     (if i < length t then case t ! i of Some p \<Rightarrow> dat (h ! p) | None \<Rightarrow> replicate pageSize 0
      else replicate pageSize 0)"

lemma length_contents:
  assumes "heap_ok N h fr ts" and "t \<in> set ts"
  shows "length (contents h t i) = pageSize"
proof (cases "i < length t \<and> t ! i \<noteq> None")
  case True
  then obtain p where p: "t ! i = Some p" "Some p \<in> set t" by (metis nth_mem not_None_eq)
  with heap_ok_bound [OF assms] have "p < length h" by blast
  with p True assms(1) show ?thesis by (simp add: contents_def heap_ok_def)
qed (auto simp: contents_def)

lemma tables_cong: "pages s' = pages s \<Longrightarrow> runq s' = runq s \<Longrightarrow> tables s' = tables s"
  by (simp add: tables_def queued_def)

lemma free_pages_cong: "palloc s' = palloc s \<Longrightarrow> free_pages s' = free_pages s"
  by (simp add: free_pages_def)

lemma upd_page_simps [simp]:
  "pages (upd_page p f s) = pages s" "runq (upd_page p f s) = runq s"
  "palloc (upd_page p f s) = palloc s" "length (heap (upd_page p f s)) = length (heap s)"
  "spare (upd_page p f s) = spare s" "err (upd_page p f s) = err s" "cbp (upd_page p f s) = cbp s"
  "heap (upd_page p f s) = (heap s)[p := f (heap s ! p)]"
  by (simp_all add: upd_page_def)

lemma heap_ok_grow:
  assumes "heap_ok N h fr (t # ts)"
  shows "heap_ok N h fr ((t @ replicate n None) # ts)"
  using assms by (simp add: heap_ok_def)

lemma heap_ok_grow_pages:
  assumes "heap_ok N h fr (tables s)"
  shows "heap_ok N h fr (pages (grow_pages i s) # map (\<lambda>(a, m). pages m) (queued s))"
  using assms by (auto simp: tables_def grow_pages_def intro: heap_ok_grow)

lemma pages_grow_pages [simp]:
  "i < length (pages (grow_pages i s))"
  "pages (grow_pages i s) ! i = page_of s i"
  "page_of (grow_pages i s) k = page_of s k"
  by (auto simp: grow_pages_def page_of_def nth_append)

lemma refs_put_new:
  assumes "i < length t" "refs (t # ts) np = 0"
  shows "refs (t[i := Some np] # ts) np = 1"
proof -
  have "t ! i \<noteq> Some np" using assms by (metis refs_0_iff list.set_intros(1) nth_mem)
  with count_list_update [OF assms(1), of "Some np" "Some np"] assms(2) show ?thesis by simp
qed

lemma grow_upd_heap:
  "grow_pages i (s\<lparr>heap := h, palloc := a\<rparr>) = (grow_pages i s)\<lparr>heap := h, palloc := a\<rparr>"
  by (simp add: grow_pages_def)

text \<open>The state in which page \<open>np\<close> has been entered at \<open>i\<close>, over heap \<open>h\<close> and allocator \<open>a\<close>.\<close>

definition placed :: "nat \<Rightarrow> nat \<Rightarrow> page list \<Rightarrow> page_alloc \<Rightarrow> vm \<Rightarrow> vm" where
  "placed i np h a s = (let g = grow_pages i s in
     s\<lparr>heap := h, palloc := a, pages := (pages g)[i := Some np], spare := spare g\<rparr>)"

lemma setPage_placed: "setPage i np (s\<lparr>heap := h, palloc := a\<rparr>) = placed i np h a s"
  by (simp add: setPage_def placed_def grow_upd_heap Let_def) (simp add: grow_pages_def)

definition owns :: "nat \<Rightarrow> nat \<Rightarrow> vm \<Rightarrow> vm \<Rightarrow> bool" where
  "owns i p s s' \<longleftrightarrow>
     i < length (pages s') \<and> pages s' ! i = Some p \<and> p < length (heap s') \<and>
     refs (tables s') p = 1 \<and>
     dat (heap s' ! p) = contents (heap s) (pages s) i \<and>
     (\<forall>k. k \<noteq> i \<longrightarrow> page_of s' k = page_of s k) \<and>
     (\<forall>q. 0 < refs (tables s) q \<longrightarrow> dat (heap s' ! q) = dat (heap s ! q)) \<and>
     s' = s\<lparr>heap := heap s', palloc := palloc s', pages := pages s', spare := spare s'\<rparr>"

lemma placed_ok:
  assumes inv: "heap_inv N s" and N: "1 \<le> N"
    and al: "AllocPage s = (np, s1)"
    and len: "length h = length (heap s1)"
    and d: "dat (h ! np) = contents (heap s) (pages s) i"
    and dk: "\<And>p. p < length (heap s1) \<Longrightarrow> p \<noteq> np \<Longrightarrow> dat (h ! p) = dat (heap s1 ! p)"
    and new: "rc (h ! np) = 1"
    and old: "\<And>p. p < length (heap s1) \<Longrightarrow> p \<noteq> np \<Longrightarrow>
      sint (rc (h ! p)) = sint (rc (heap s1 ! p)) - (if page_of s i = Some p then 1 else 0)"
  shows "heap_inv N (placed i np h (palloc s1) s)" and "owns i np s (placed i np h (palloc s1) s)"
proof -
  let ?s' = "placed i np h (palloc s1) s" and ?t = "pages (grow_pages i s)"
  let ?ts = "map (\<lambda>(a, m). pages m) (queued s)"
  have "heap_ok N (heap s) (free_pages s) (?t # ?ts)"
    using inv by (simp add: heap_inv_def heap_ok_grow_pages)
  note a = AllocPage_ok [OF this al]
  have len_contents: "length (contents (heap s) (pages s) i) = pageSize"
    using inv by (auto simp: heap_inv_def tables_def intro: length_contents)
  have fr: "free_pages ?s' = free_pages s1" "tables ?s' = ?t[i := Some np] # ?ts" "heap ?s' = h"
    by (simp_all add: placed_def free_pages_def tables_def queued_def Let_def)
  show "heap_inv N ?s'" unfolding heap_inv_def fr
  proof (rule heap_ok_put [OF a(1)])
    fix p assume p: "p < length (heap s1)"
    show "length (dat (h ! p)) = pageSize"
    proof (cases "p = np")
      case True then show ?thesis using d len_contents by simp
    next
      case False
      with p a(1) show ?thesis by (simp add: dk heap_ok_def)
    qed
  qed (use N a len new old in simp_all)
  have "refs (tables s) q = refs (?t # ?ts) q" for q
    by (simp add: tables_def grow_pages_def)
  moreover have "dat (h ! q) = dat (heap s ! q)" if "0 < refs (?t # ?ts) q" for q
  proof -
    from that a(4) have "q \<noteq> np" by auto
    moreover from that inv have "q < length (heap s)"
      using \<open>heap_ok N (heap s) (free_pages s) (?t # ?ts)\<close> unfolding heap_ok_def by blast
    ultimately show ?thesis using dk [of q] a(7,9) by simp
  qed
  moreover have "refs (tables ?s') np = 1"
    unfolding fr using a(4) by (intro refs_put_new) simp_all
  moreover have "page_of ?s' k = page_of s k" if "k \<noteq> i" for k
    using that pages_grow_pages(3) [of i s k]
    by (simp add: page_of_def placed_def Let_def split: if_splits)
  ultimately show "owns i np s ?s'"
    using a(2) len d by (simp add: owns_def placed_def Let_def)
qed

lemma AllocPage_state:
  "AllocPage s = (np, s1) \<Longrightarrow> s1 = s\<lparr>heap := heap s1, palloc := palloc s1\<rparr>"
  by (auto simp: AllocPage_def upd_page_def split: page_alloc.splits list.splits)

lemma setPage_alloc:
  assumes "AllocPage s = (np, s1)" and "s2 = s1\<lparr>heap := h\<rparr>"
  shows "setPage i np s2 = placed i np h (palloc s1) s"
proof -
  have "s2 = s\<lparr>heap := h, palloc := palloc s1\<rparr>"
    unfolding assms(2) by (subst AllocPage_state [OF assms(1)]) simp
  then show ?thesis by (simp add: setPage_placed)
qed

lemma writable_ok:
  assumes inv: "heap_inv N s" and N: "1 \<le> N" and w: "writable i s = (p, s')"
  shows "heap_inv N s'" and "owns i p s s'"
proof -
  have "heap_inv N s' \<and> owns i p s s'"
  proof (cases "page_of s i")
    case None
    obtain np s1 where al: "AllocPage s = (np, s1)" by fastforce
    let ?h = "(heap s1)[np := (heap s1 ! np)\<lparr>rc := 1\<rparr>]"
    have s': "p = np" "s' = placed i np ?h (palloc s1) s"
      using w None setPage_alloc [OF al, of "s1\<lparr>heap := ?h\<rparr>" ?h i]
      by (auto simp: writable_def al upd_page_def)
    have c: "contents (heap s) (pages s) i = replicate pageSize 0"
      using None by (auto simp: contents_def page_of_def split: if_splits)
    note a = AllocPage_ok [OF inv [unfolded heap_inv_def] al]
    show ?thesis unfolding s'
      using placed_ok [OF inv N al, of ?h i] a(2,5) None by (simp add: c nth_list_update)
  next
    case (Some p0)
    then have pi: "i < length (pages s)" "pages s ! i = Some p0"
      by (auto simp: page_of_def split: if_splits)
    then have "Some p0 \<in> set (pages s)" by (metis nth_mem)
    then have r0: "0 < refs (tables s) p0"
      using refs_0_iff [of "tables s" p0] by (auto simp: tables_def)
    have p0: "p0 < length (heap s)" using inv r0 by (simp add: heap_inv_def heap_ok_def)
    have c: "contents (heap s) (pages s) i = dat (heap s ! p0)" using pi by (simp add: contents_def)
    show ?thesis
    proof (cases "1 <s rc (heap s ! p0)")
      case True
      obtain np s1 where al: "AllocPage s = (np, s1)" by fastforce
      note a = AllocPage_ok [OF inv [unfolded heap_inv_def] al]
      have ne: "np \<noteq> p0" using a(4) r0 by auto
      let ?h = "(heap s1)[np := (heap s1 ! np)\<lparr>rc := 1, dat := dat (heap s1 ! p0)\<rparr>, p0 := rc_update (\<lambda>r. r - 1) (heap s1 ! p0)]"
      have d0: "heap s1 ! p0 = heap s ! p0" using a(7) p0 ne by simp
      have s': "p = np" "s' = placed i np ?h (palloc s1) s"
        using w Some True ne a(2) setPage_alloc [OF al, of "s1\<lparr>heap := ?h\<rparr>" ?h i]
        by (auto simp: writable_def al upd_page_def Let_def nth_list_update d0)
      have r1: "1 < sint (rc (heap s1 ! p0))" using True by (simp add: d0 one_sless)
      have dk: "dat (?h ! q) = dat (heap s1 ! q)" if "q < length (heap s1)" "q \<noteq> np" for q
        using that ne by (cases "q = p0") simp_all
      have old: "sint (rc (?h ! q)) = sint (rc (heap s1 ! q)) - (if page_of s i = Some q then 1 else 0)"
        if "q < length (heap s1)" "q \<noteq> np" for q
        using that ne r1 Some by (cases "q = p0") (simp_all add: sint_dec)
      have "length ?h = length (heap s1)" "dat (?h ! np) = contents (heap s) (pages s) i"
          "rc (?h ! np) = 1"
        using a(2) ne by (simp_all add: c d0)
      with dk old show ?thesis unfolding s'
        using placed_ok [OF inv N al, of ?h i] by blast
    next
      case False
      with w Some have s': "p = p0" "s' = s" by (simp_all add: writable_def)
      have "int (refs (tables s) p0) \<le> sint (rc (heap s ! p0))"
        using inv p0 by (simp add: heap_inv_def heap_ok_def)
      with False r0 have "refs (tables s) p0 = 1" by (simp add: one_sless)
      with inv pi p0 show ?thesis by (simp add: s' owns_def c)
    qed
  qed
  then show "heap_inv N s'" "owns i p s s'" by simp_all
qed

lemma setPage_in: "i < length (pages s) \<Longrightarrow> setPage i p s = s\<lparr>pages := (pages s)[i := Some p]\<rparr>"
  by (simp add: setPage_def grow_pages_def)

lemma AllocPage_eq:
  "AllocPage s = (if free_pages s = [] then (length (heap s), s\<lparr>heap := heap s @ [zero_page]\<rparr>)
     else (last (free_pages s), upd_page (last (free_pages s)) (dat_update (\<lambda>_. replicate pageSize 0))
       (s\<lparr>palloc := PageFreeList (butlast (free_pages s))\<rparr>)))"
  by (cases "palloc s") (simp_all add: AllocPage_def free_pages_def split: list.split)

lemma AllocPage_grow:
  "AllocPage s = (np, s1) \<Longrightarrow> AllocPage (grow_pages i s) = (np, grow_pages i s1)"
  by (cases "free_pages s = []"; cases "i < length (pages s)")
    (auto simp: AllocPage_eq free_pages_def grow_pages_def upd_page_def)

lemma pages_AllocPage: "AllocPage s = (np, s1) \<Longrightarrow> pages s1 = pages s"
  by (auto simp: AllocPage_def split: page_alloc.splits list.splits)

lemma upd_page_other: "p \<noteq> q \<Longrightarrow> upd_page p f (upd_page q g s) = upd_page q g (upd_page p f s)"
  by (cases "q < length (heap s)") (simp_all add: upd_page_def list_update_swap nth_list_update list_update_beyond)

lemma upd_page_same: "upd_page p f (upd_page p g s) = upd_page p (f \<circ> g) s"
  by (cases "p < length (heap s)") (simp_all add: upd_page_def list_update_beyond)

lemma page_upd_swap: "(\<lambda>x :: page. x\<lparr>dat := d, rc := r\<rparr>) = (\<lambda>x. x\<lparr>rc := r, dat := d\<rparr>)"
  by (rule ext) simp

lemma grow_upd_page: "upd_page p f (grow_pages i s) = grow_pages i (upd_page p f s)"
  by (simp add: grow_pages_def upd_page_def)

lemma pages_grow_upd_page [simp]:
  "pages (grow_pages i (upd_page p f s)) = pages (grow_pages i s)"
  by (simp add: grow_pages_def)

lemma ref_writable:
  assumes inv: "heap_inv N s" and al: "\<not> (addr < cbp s \<and> page_off addr mod 4 \<noteq> 0)"
  shows "ref addr s = (let (p, s') = writable (page_index addr) s in (Inr (LocMem p (page_off addr)), s'))"
proof -
  let ?i = "page_index addr"
  obtain np s1 where alc: "AllocPage s = (np, s1)" by fastforce
  note a = AllocPage_ok [OF inv [unfolded heap_inv_def] alc]
  note p1 = pages_AllocPage [OF alc]
  consider (nil) "?i < length (pages s)" "pages s ! ?i = None"
    | (page) p where "?i < length (pages s)" "pages s ! ?i = Some p"
    | (grow) "length (pages s) \<le> ?i" by fastforce
  then show ?thesis
  proof cases
    case nil
    with al alc p1 show ?thesis
      by (simp add: ref_def writable_def page_of_def Let_def setPage_in)
  next
    case page
    then have "0 < refs (tables s) p"
      using refs_0_iff [of "tables s" p] by (auto simp: tables_def) (metis nth_mem)
    then have ne: "np \<noteq> p" "p \<noteq> np" using a(4) by auto
    have "upd_page np (rc_update (\<lambda>_. 1)) (upd_page p (rc_update (\<lambda>r. r - 1))
        (upd_page np (dat_update (\<lambda>_. dat (heap s1 ! p))) s1)) =
      upd_page p (rc_update (\<lambda>r. r - 1)) (upd_page np (dat_update (\<lambda>_. dat (heap s1 ! p)))
        (upd_page np (rc_update (\<lambda>_. 1)) s1))"
      by (simp add: upd_page_other [OF ne(1)] upd_page_same comp_def page_upd_swap)
    with page al alc p1 ne show ?thesis
      by (simp add: ref_def writable_def page_of_def Let_def setPage_in)
  next
    case grow
    then show ?thesis using al alc p1 AllocPage_grow [OF alc, of ?i]
      by (simp add: ref_def writable_def page_of_def Let_def setPage_def grow_upd_page)
  qed
qed
end
