(* ===== verification/Memory_Spec.thy ===== *)
theory Memory_Spec
  imports Sharing
begin

text \<open>
  The abstract memory: \<open>byte_at\<close> and \<open>word_of\<close> read a machine's memory as a map from addresses,
  zero where no page is mapped.  The lemmas give each access of \<open>vm.go\<close> as a read or an update of
  that map (\<open>fetch_eq\<close>, \<open>store_ok\<close>, \<open>storeBytes_ok\<close>, \<open>fetchBytes_eq\<close>) that leaves the memory of
  the queued machines alone (\<open>others_same\<close>).
\<close>

subsection \<open>Addresses and bytes\<close>

definition byte_of :: "page list \<Rightarrow> nat option list \<Rightarrow> nat \<Rightarrow> u8" where
  "byte_of h t a = contents h t (a div pageSize) ! (a mod pageSize)"

definition byte_at :: "vm \<Rightarrow> nat \<Rightarrow> u8" where
  "byte_at s a = byte_of (heap s) (pages s) a"

definition word_of :: "vm \<Rightarrow> nat \<Rightarrow> u32" where
  "word_of s a = get_u32 (byte_at s a) (byte_at s (a + 1)) (byte_at s (a + 2)) (byte_at s (a + 3))"

lemma addr_split: "unat addr = page_index addr * pageSize + page_off addr"
proof -
  have "page_index addr = unat addr div 64"
    by (simp only: page_index_def unat_drop_bit_eq) (simp add: drop_bit_eq_div)
  moreover have "page_off addr = unat addr mod 64"
  proof -
    have "addr AND 0x3f = take_bit 6 addr" by (simp add: take_bit_eq_mask mask_eq_exp_minus_1)
    then show ?thesis by (simp only: page_off_def unsigned_take_bit_eq) (simp add: take_bit_eq_mod)
  qed
  ultimately show ?thesis by (simp add: pageSize_def)
qed

lemma page_off_less: "page_off addr < pageSize"
proof -
  have "addr AND 0x3f = take_bit 6 addr" by (simp add: take_bit_eq_mask mask_eq_exp_minus_1)
  then have "page_off addr = unat addr mod 64"
    by (simp only: page_off_def unsigned_take_bit_eq) (simp add: take_bit_eq_mod)
  then show ?thesis by (simp add: pageSize_def)
qed

lemma unat_div_mod [simp]:
  "unat addr div pageSize = page_index addr" "unat addr mod pageSize = page_off addr"
  using page_off_less [of addr] by (simp_all add: addr_split)

definition others_same :: "vm \<Rightarrow> vm \<Rightarrow> bool" where
  "others_same s s' \<longleftrightarrow>
     (\<forall>(a, m) \<in> set (queued s). \<forall>k. contents (heap s') (pages m) k = contents (heap s) (pages m) k)"

definition poke :: "nat \<Rightarrow> (u8 list \<Rightarrow> u8 list) \<Rightarrow> vm \<Rightarrow> vm" where
  "poke i f s = (let (p, s') = writable i s in upd_page p (dat_update f) s')"

lemma contents_page_of:
  "contents h (pages s) k = (case page_of s k of None \<Rightarrow> replicate pageSize 0 | Some p \<Rightarrow> dat (h ! p))"
  by (simp add: contents_def page_of_def)

lemma heap_ok_dat:
  assumes "heap_ok N h fr ts" and "\<And>d. length d = pageSize \<Longrightarrow> length (f d) = pageSize"
  shows "heap_ok N (h[p := dat_update f (h ! p)]) fr ts"
proof (cases "p < length h")
  case True
  show ?thesis
  proof (rule heap_ok_cong [OF assms(1)])
    fix q assume "q < length h"
    then show "rc (h[p := dat_update f (h ! p)] ! q) = rc (h ! q)"
      "length (dat (h[p := dat_update f (h ! p)] ! q)) = pageSize"
      using assms by (cases "p = q"; simp add: heap_ok_def)+
  qed simp
next
  case False
  with assms(1) show ?thesis by (simp add: list_update_beyond)
qed

lemma poke_ok:
  assumes inv: "heap_inv N s" and N: "1 \<le> N"
    and f: "\<And>d. length d = pageSize \<Longrightarrow> length (f d) = pageSize"
  shows "heap_inv N (poke i f s)"
    and "contents (heap (poke i f s)) (pages (poke i f s)) k =
      (if k = i then f (contents (heap s) (pages s) i) else contents (heap s) (pages s) k)"
    and "others_same s (poke i f s)"
    and "\<exists>h a ps sp. poke i f s = s\<lparr>heap := h, palloc := a, pages := ps, spare := sp\<rparr>"
proof -
  obtain p s' where w: "writable i s = (p, s')" by fastforce
  note ok = writable_ok [OF inv N w]
  note o = ok(2) [unfolded owns_def]
  obtain h0 a0 ps0 sp0 where e: "s' = s\<lparr>heap := h0, palloc := a0, pages := ps0, spare := sp0\<rparr>"
    using o by blast
  have ts: "tables s' = pages s' # map (\<lambda>(a, m). pages m) (queued s)" "free_pages (upd_page p g s') = free_pages s'"
    "tables (upd_page p g s') = tables s'" for g
    by (simp_all add: tables_def queued_def free_pages_def e)
  show "heap_inv N (poke i f s)"
    using heap_ok_dat [OF ok(1) [unfolded heap_inv_def] f] by (simp add: poke_def w heap_inv_def ts)
  have r1: "refs (tables s') p = 1" and pi: "i < length (pages s')" "pages s' ! i = Some p" and pl: "p < length (heap s')"
    using o by auto
  have cnt: "count_list (pages s') (Some p) = 1" "refs (map (\<lambda>(a, m). pages m) (queued s)) p = 0"
  proof -
    have "Some p \<in> set (pages s')" using pi by (metis nth_mem)
    then have "count_list (pages s') (Some p) \<noteq> 0" by (simp add: count_list_0_iff)
    with r1 show "count_list (pages s') (Some p) = 1" "refs (map (\<lambda>(a, m). pages m) (queued s)) p = 0"
      unfolding ts by auto
  qed
  have uniq: "k = i" if "page_of s' k = Some p" for k
  proof (rule ccontr)
    assume "k \<noteq> i"
    from that have k: "k < length (pages s')" "pages s' ! k = Some p" by (auto simp: page_of_def split: if_splits)
    have "count_list ((pages s')[k := None]) (Some p) = 0"
      using count_list_update [OF k(1), of None "Some p"] k(2) cnt(1) by simp
    moreover have "(pages s')[k := None] ! i = Some p" "i < length ((pages s')[k := None])"
      using \<open>k \<noteq> i\<close> pi by simp_all
    ultimately show False by (metis count_list_0_iff nth_mem)
  qed
  show "contents (heap (poke i f s)) (pages (poke i f s)) k =
      (if k = i then f (contents (heap s) (pages s) i) else contents (heap s) (pages s) k)"
  proof (cases "k = i")
    case True
    then show ?thesis using o by (simp add: poke_def w contents_def)
  next
    case False
    have "dat (heap s' ! q) = dat (heap s ! q)" if "page_of s k = Some q" for q
    proof -
      from that have "Some q \<in> set (pages s)" by (auto simp: page_of_def split: if_splits) (metis nth_mem)
      then have "0 < refs (tables s) q" using refs_0_iff [of "tables s" q] by (auto simp: tables_def)
      then show ?thesis using o by blast
    qed
    moreover have "page_of s' k = page_of s k" using o False by blast
    moreover have "page_of s k \<noteq> Some p" using uniq [of k] calculation(2) False by auto
    ultimately show ?thesis using False
      by (auto simp: poke_def w contents_page_of split: option.split)
  qed
  show "others_same s (poke i f s)" unfolding others_same_def
  proof (intro ballI allI, clarify)
    fix a m k assume m: "(a, m) \<in> set (queued s)"
    then have tm: "pages m \<in> set (map (\<lambda>(a, m). pages m) (queued s))" by force
    have "q \<noteq> p \<and> dat (heap s' ! q) = dat (heap s ! q)" if "k < length (pages m)" "pages m ! k = Some q" for q
    proof -
      from that have "Some q \<in> set (pages m)" by (metis nth_mem)
      with tm have "0 < refs (map (\<lambda>(a, m). pages m) (queued s)) q" by (metis refs_0_iff gr0I)
      then have "0 < refs (tables s) q" "q \<noteq> p" using cnt(2) by (auto simp: tables_def)
      then show ?thesis using o by blast
    qed
    then show "contents (heap (poke i f s)) (pages m) k = contents (heap s) (pages m) k"
      by (auto simp: poke_def w contents_def split: option.split)
  qed
  have "poke i f s = s\<lparr>heap := h0[p := dat_update f (h0 ! p)], palloc := a0, pages := ps0, spare := sp0\<rparr>"
    unfolding poke_def w by (simp add: upd_page_def e)
  then show "\<exists>h a ps sp. poke i f s = s\<lparr>heap := h, palloc := a, pages := ps, spare := sp\<rparr>" by blast
qed

lemma length_set_bytes [simp]:
  "j + length bs \<le> length d \<Longrightarrow> length (set_bytes d j bs) = length d"
  by (simp add: set_bytes_def)

lemma nth_set_bytes:
  "j + length bs \<le> length d \<Longrightarrow> k < length d \<Longrightarrow>
   set_bytes d j bs ! k = (if j \<le> k \<and> k < j + length bs then bs ! (k - j) else d ! k)"
  by (auto simp: set_bytes_def nth_append)

lemma heap_inv_contents: "heap_inv N s \<Longrightarrow> length (contents (heap s) (pages s) i) = pageSize"
  by (auto simp: heap_inv_def tables_def intro: length_contents)

lemma range_in_page:
  assumes "j + n \<le> pageSize"
  shows "(i * pageSize + j \<le> a \<and> a < i * pageSize + j + n) \<longleftrightarrow>
     a div pageSize = i \<and> j \<le> a mod pageSize \<and> a mod pageSize < j + n"
proof -
  define q r where "q = a div 64" and "r = a mod 64"
  have a: "q * 64 + r = a" and r: "r < 64" by (simp_all add: q_def r_def)
  have "(i * 64 + j \<le> q * 64 + r \<and> q * 64 + r < i * 64 + j + n) \<longleftrightarrow> q = i \<and> j \<le> r \<and> r < j + n"
    using assms r by (cases q i rule: linorder_cases) (auto simp: pageSize_def)
  then show ?thesis unfolding a by (simp add: pageSize_def q_def r_def)
qed

lemma poke_bytes:
  assumes inv: "heap_inv N s" and N: "1 \<le> N" and fit: "j + length bs \<le> pageSize"
  shows "byte_at (poke i (\<lambda>d. set_bytes d j bs) s) a =
    (if i * pageSize + j \<le> a \<and> a < i * pageSize + j + length bs
     then bs ! (a - (i * pageSize + j)) else byte_at s a)"
proof -
  have f: "length (set_bytes d j bs) = pageSize" if "length d = pageSize" for d
    using that fit by simp
  have iff: "(i * pageSize + j \<le> a \<and> a < i * pageSize + j + length bs) \<longleftrightarrow>
     a div pageSize = i \<and> j \<le> a mod pageSize \<and> a mod pageSize < j + length bs"
    by (rule range_in_page [OF fit])
  show ?thesis
  proof (cases "a div pageSize = i")
    case True
    then have "a - (i * pageSize + j) = a mod pageSize - j"
      using div_mult_mod_eq [of a pageSize] by (metis diff_diff_left diff_add_inverse)
    moreover have "a mod pageSize < pageSize" by (simp add: pageSize_def)
    ultimately show ?thesis
      unfolding iff using True fit heap_inv_contents [OF inv, of i]
      by (simp add: byte_at_def byte_of_def poke_ok(2) [OF inv N f] nth_set_bytes)
  next
    case False
    then show ?thesis unfolding iff
      by (simp add: byte_at_def byte_of_def poke_ok(2) [OF inv N f])
  qed
qed

lemma store_poke:
  assumes inv: "heap_inv N s"
  shows "store addr v s =
    (if addr < cbp s \<and> page_off addr mod 4 \<noteq> 0 then Some (Some (AlignmentError ''store'' addr), s)
     else if page_off addr + 4 \<le> pageSize
       then Some (None, poke (page_index addr) (\<lambda>d. set_bytes d (page_off addr) (put_u32 v)) s)
       else None)"
proof (cases "addr < cbp s \<and> page_off addr mod 4 \<noteq> 0")
  case True
  then show ?thesis by (simp add: store_def ref_def)
next
  case False
  then show ?thesis
    by (simp add: store_def ref_writable [OF inv False] poke_def store_to_def split: prod.split)
qed

lemma store_loop_poke:
  "store_loop i j bs s =
     (let n = min (pageSize - j) (length bs); s' = poke i (\<lambda>d. set_bytes d j (take n bs)) s
      in if n < length bs then store_loop (Suc i) 0 (drop n bs) s' else s')"
  by (subst store_loop.simps) (simp add: poke_def Let_def split: prod.split)

lemma others_same_trans:
  "others_same s s1 \<Longrightarrow> runq s1 = runq s \<Longrightarrow> others_same s1 s2 \<Longrightarrow> others_same s s2"
  by (auto simp: others_same_def queued_def)

lemma store_loop_ok:
  assumes "heap_inv N s" "1 \<le> N" "j < pageSize"
  shows "heap_inv N (store_loop i j bs s) \<and>
    byte_at (store_loop i j bs s) a =
      (if i * pageSize + j \<le> a \<and> a < i * pageSize + j + length bs
       then bs ! (a - (i * pageSize + j)) else byte_at s a) \<and>
    others_same s (store_loop i j bs s) \<and>
    (\<exists>h al ps sp. store_loop i j bs s = s\<lparr>heap := h, palloc := al, pages := ps, spare := sp\<rparr>)"
  using assms(1,3)
proof (induction bs arbitrary: i j s rule: length_induct)
  case (1 bs)
  let ?n = "min (pageSize - j) (length bs)"
  let ?s = "poke i (\<lambda>d. set_bytes d j (take ?n bs)) s"
  have f: "length (set_bytes d j (take ?n bs)) = pageSize" if "length d = pageSize" for d
    using that "1.prems"(2) by simp
  note p = poke_ok(1,3,4) [of N s "\<lambda>d. set_bytes d j (take ?n bs)" i, OF "1.prems"(1) assms(2) f]
  have b: "byte_at ?s a = (if i * pageSize + j \<le> a \<and> a < i * pageSize + j + ?n
     then bs ! (a - (i * pageSize + j)) else byte_at s a)"
  proof -
    have "take ?n bs ! (a - (i * pageSize + j)) = bs ! (a - (i * pageSize + j))"
      if "i * pageSize + j \<le> a" "a < i * pageSize + j + ?n"
      using that by (intro nth_take) linarith
    then show ?thesis
      using poke_bytes [OF "1.prems"(1) assms(2), of j "take ?n bs" i a] "1.prems"(2) by auto
  qed
  show ?case
  proof (cases "?n < length bs")
    case False
    then have e: "store_loop i j bs s = ?s"
      by (subst store_loop_poke) simp
    from False have "?n = length bs" by simp
    with p b show ?thesis unfolding e by simp
  next
    case True
    then have n: "?n = pageSize - j" by simp
    have e: "store_loop i j bs s = store_loop (Suc i) 0 (drop ?n bs) ?s"
      using True by (subst store_loop_poke) (simp only: Let_def if_True)
    let ?t = "store_loop (Suc i) 0 (drop ?n bs) ?s"
    have "length (drop ?n bs) < length bs" using True "1.prems"(2) by simp
    with "1.IH" p(1) have IH: "heap_inv N ?t"
      "byte_at ?t a = (if Suc i * pageSize \<le> a \<and> a < Suc i * pageSize + length (drop ?n bs)
         then drop ?n bs ! (a - Suc i * pageSize) else byte_at ?s a)"
      "others_same ?s ?t" "\<exists>h al ps sp. ?t = ?s\<lparr>heap := h, palloc := al, pages := ps, spare := sp\<rparr>"
      by (simp_all add: pageSize_def)
    have rq: "runq ?s = runq s" using p(3) by auto
    have "byte_at ?t a = (if i * pageSize + j \<le> a \<and> a < i * pageSize + j + length bs
       then bs ! (a - (i * pageSize + j)) else byte_at s a)"
      unfolding IH(2) b using "1.prems"(2) True n by (auto simp: ac_simps)
    moreover have "\<exists>h al ps sp. ?t = s\<lparr>heap := h, palloc := al, pages := ps, spare := sp\<rparr>"
    proof -
      obtain h al ps sp where 1: "?s = s\<lparr>heap := h, palloc := al, pages := ps, spare := sp\<rparr>"
        using p(3) by blast
      obtain h' al' ps' sp' where 2: "?t = ?s\<lparr>heap := h', palloc := al', pages := ps', spare := sp'\<rparr>"
        using IH(4) by blast
      have "?t = s\<lparr>heap := h', palloc := al', pages := ps', spare := sp'\<rparr>"
        unfolding 2 by (subst 1) simp
      then show ?thesis by blast
    qed
    ultimately show ?thesis unfolding e using IH(1) others_same_trans [OF p(2) rq IH(3)] by simp
  qed
qed

lemma storeBytes_ok:
  assumes "heap_inv N s" "1 \<le> N"
  shows "heap_inv N (storeBytes addr bs s)"
    and "byte_at (storeBytes addr bs s) a =
      (if unat addr \<le> a \<and> a < unat addr + length bs then bs ! (a - unat addr) else byte_at s a)"
    and "others_same s (storeBytes addr bs s)"
    and "\<exists>h al ps sp. storeBytes addr bs s = s\<lparr>heap := h, palloc := al, pages := ps, spare := sp\<rparr>"
  using store_loop_ok [OF assms page_off_less, of "page_index addr" addr bs]
  by (simp_all add: storeBytes_def addr_split [of addr])

lemma store_ok:
  assumes inv: "heap_inv N s" and N: "1 \<le> N" and st: "store addr v s = Some (None, s')"
  shows "heap_inv N s'"
    and "byte_at s' a =
      (if unat addr \<le> a \<and> a < unat addr + 4 then put_u32 v ! (a - unat addr) else byte_at s a)"
    and "others_same s s'"
    and "\<exists>h al ps sp. s' = s\<lparr>heap := h, palloc := al, pages := ps, spare := sp\<rparr>"
proof -
  let ?f = "\<lambda>d. set_bytes d (page_off addr) (put_u32 v)"
  from st have fit: "page_off addr + length (put_u32 v) \<le> pageSize" and s': "s' = poke (page_index addr) ?f s"
    by (auto simp: store_poke [OF inv] split: if_splits)
  have f: "length (?f d) = pageSize" if "length d = pageSize" for d
    using that fit by simp
  show "heap_inv N s'" "others_same s s'" "\<exists>h al ps sp. s' = s\<lparr>heap := h, palloc := al, pages := ps, spare := sp\<rparr>"
    unfolding s' using poke_ok(1,3,4) [OF inv N f, of "\<lambda>d. d" ] by blast+
  show "byte_at s' a =
      (if unat addr \<le> a \<and> a < unat addr + 4 then put_u32 v ! (a - unat addr) else byte_at s a)"
    unfolding s' by (simp add: poke_bytes [OF inv N fit] addr_split)
qed

lemma word_at_contents:
  assumes "heap_inv N s" and "page_off addr + 4 \<le> pageSize"
  shows "word_at (contents (heap s) (pages s) (page_index addr)) (page_off addr) = word_of s (unat addr)"
proof -
  have "(unat addr + k) div pageSize = page_index addr \<and> (unat addr + k) mod pageSize = page_off addr + k" if "k < 4" for k
  proof -
    have "page_off addr + k < pageSize" using that assms(2) by simp
    then show ?thesis by (simp add: addr_split add.assoc)
  qed
  from this [of 0] this [of 1] this [of 2] this [of 3] show ?thesis
    by (simp add: word_at_def word_of_def byte_at_def byte_of_def)
qed

lemma fetch_eq:
  assumes "heap_inv N s"
  shows "fetch addr s =
    (if addr < cbp s \<and> page_off addr mod 4 \<noteq> 0 then Some (0, Some (AlignmentError ''fetch'' addr))
     else if page_off addr + 4 \<le> pageSize then Some (word_of s (unat addr), None)
     else if page_of s (page_index addr) = None then Some (0, None) else None)"
proof (cases "page_off addr + 4 \<le> pageSize")
  case True
  then have "page_of s (page_index addr) = None \<Longrightarrow> word_of s (unat addr) = 0"
    using word_at_contents [OF assms True] by (simp add: contents_page_of word_at_def)
  with True word_at_contents [OF assms True] show ?thesis
    by (auto simp: fetch_def Let_def contents_page_of split: option.splits)
next
  case False
  then show ?thesis by (simp add: fetch_def Let_def split: option.split)
qed

lemma page_off_aligned: "page_off addr mod 4 = 0 \<longleftrightarrow> unat addr mod 4 = 0"
  by (simp add: addr_split pageSize_def mod_add_eq [symmetric])

lemma aligned_fits: "unat addr mod 4 = 0 \<Longrightarrow> page_off addr + 4 \<le> pageSize"
  using page_off_less [of addr] page_off_aligned [of addr] by (simp add: pageSize_def) presburger

definition unseen :: "vm \<Rightarrow> nat \<Rightarrow> nat \<Rightarrow> nat \<Rightarrow> bool" where
  "unseen s a n k \<longleftrightarrow> page_of s ((a + k) div pageSize) = None \<or>
     n < k \<and> (a + k) mod pageSize = 0 \<and> page_of s ((a + k) div pageSize - 1) = None"

definition fetched :: "vm \<Rightarrow> nat \<Rightarrow> nat \<Rightarrow> u8 list \<Rightarrow> u8 list" where
  "fetched s a n bs =
     map (\<lambda>k. if k < n \<or> unseen s a n k then bs ! k else byte_at s (a + k)) [0..<length bs]"

lemma fetched_done: "length bs \<le> n \<Longrightarrow> fetched s a n bs = bs"
  by (rule nth_equalityI) (auto simp: fetched_def)

lemma pageSize_pos: "0 < pageSize" by (simp add: pageSize_def)

lemma byte_at_page:
  "page_of s i = Some p \<Longrightarrow> j < pageSize \<Longrightarrow> byte_at s (i * pageSize + j) = dat (heap s ! p) ! j"
  by (simp add: byte_at_def byte_of_def contents_page_of)

lemma fetched_mapped:
  assumes "a + n = i * pageSize + j" "j < pageSize" "n < length bs" "page_of s i = Some p"
  shows "fetched s a (n + 1) (bs[n := dat (heap s ! p) ! j]) = fetched s a n bs"
proof -
  have d: "(a + n) div pageSize = i" using assms(1,2) by simp
  have "unseen s a (n + 1) k = unseen s a n k" if "n < k" for k
  proof (cases "k = n + 1")
    case True
    show ?thesis
    proof (cases "(a + k) mod pageSize = 0")
      case True
      then have "j = pageSize - 1" 
        using assms(1,2) \<open>k = n + 1\<close> by (simp add: pageSize_def) presburger
      then have "(a + k) div pageSize = Suc i" using assms(1) \<open>k = n + 1\<close> by (simp add: pageSize_def) 
      with assms(4) show ?thesis by (simp add: unseen_def True \<open>k = n + 1\<close>)
    next
      case False
      then show ?thesis by (simp add: unseen_def)
    qed
  next
    case False
    with that show ?thesis by (simp add: unseen_def)
  qed
  moreover have "\<not> unseen s a n n" using d assms(4) by (simp add: unseen_def)
  moreover have "byte_at s (a + n) = dat (heap s ! p) ! j" using byte_at_page [OF assms(4,2)] assms(1) by simp
  ultimately show ?thesis using assms(3)
    by (auto simp: fetched_def less_Suc_eq nth_list_update intro!: map_cong)
qed

lemma fetched_unmapped:
  assumes "a + n = i * pageSize + j" "j < pageSize" "page_of s i = None"
  shows "fetched s a (n + (pageSize - j + 1)) bs = fetched s a n bs"
proof -
  let ?m = "n + (pageSize - j + 1)"
  have am: "a + ?m = Suc i * pageSize + 1" using assms(1,2) by simp
  have "unseen s a n k" if "n \<le> k" "k < ?m" for k
  proof (cases "k = n + (pageSize - j)")
    case True
    then have "a + k = Suc i * pageSize" using assms(1,2) by simp
    moreover have "n < k" using True assms(2) by simp
    ultimately show ?thesis using assms(3) by (simp add: unseen_def pageSize_def)
  next
    case False
    with that have "i * pageSize \<le> a + k \<and> a + k < i * pageSize + pageSize" using assms(1,2) by linarith
    then have "(a + k) div pageSize = i" by (intro div_nat_eqI) (simp_all add: pageSize_def)
    with assms(3) show ?thesis by (simp add: unseen_def)
  qed
  moreover have "unseen s a ?m k = unseen s a n k" if "?m \<le> k" for k
  proof (cases "k = ?m")
    case True
    have "(a + ?m) mod pageSize = 1" unfolding am by (simp add: pageSize_def)
    with True show ?thesis by (simp add: unseen_def)
  qed (use that in \<open>simp add: unseen_def\<close>)
  ultimately have "(k < ?m \<or> unseen s a ?m k) = (k < n \<or> unseen s a n k)" for k
    by (cases "k < n"; cases "k < ?m") auto
  then show ?thesis by (simp only: fetched_def)
qed

lemma mod_less_two: "64 \<le> j \<Longrightarrow> j < 128 \<Longrightarrow> j mod 64 = j - (64 :: nat)"
  by (simp add: le_mod_geq)

lemma fetch_loop_eq:
  assumes "a + n = i * pageSize + j" "n \<le> length bs" "j < 2 * pageSize"
  shows "fetch_loop s i j bs n = (length bs, fetched s a n bs)"
  using assms
proof (induction "length bs - n" arbitrary: i j n bs rule: less_induct)
  case less
  show ?case
  proof (cases "n < length bs")
    case False
    with less.prems have "n = length bs" by simp
    then show ?thesis by (subst fetch_loop.simps) (simp add: fetched_done)
  next
    case True
    define i' j' where "i' = (if j > 0x3f then Suc i else i)" and "j' = (if j > 0x3f then j mod 64 else j)"
    have a: "a + n = i' * pageSize + j'" and j': "j' < pageSize"
      using less.prems mod_less_two [of j] by (auto simp: i'_def j'_def pageSize_def)
    have step: "fetch_loop s i j bs n = (case page_of s i' of
        None \<Rightarrow> (let left = pageSize - j' + 1
                 in if length bs - n \<le> left then (n + (length bs - n), bs)
                    else fetch_loop s i' (j' + left) bs (n + left))
      | Some p \<Rightarrow> fetch_loop s i' (j' + 1) (bs[n := dat (heap s ! p) ! j']) (n + 1))"
      using True unfolding i'_def j'_def by (subst fetch_loop.simps) (cases "j > 0x3f"; simp)
    show ?thesis
    proof (cases "page_of s i'")
      case (Some p)
      then show ?thesis unfolding step
        using less.hyps [of "bs[n := dat (heap s ! p) ! j']" "n + 1" i' "j' + 1"] True a j'
          fetched_mapped [OF a j' True Some]
        by simp
    next
      case None
      show ?thesis
      proof (cases "length bs - n \<le> pageSize - j' + 1")
        case True
        have "fetched s a (n + (pageSize - j' + 1)) bs = bs"
          using True by (intro fetched_done) simp
        with fetched_unmapped [OF a j' None, of bs] True \<open>n < length bs\<close> show ?thesis
          unfolding step by (simp add: None)
      next
        case False
        let ?l = "pageSize - j' + 1"
        have h: "length bs - (n + ?l) < length bs - n" "a + (n + ?l) = i' * pageSize + (j' + ?l)"
            "n + ?l \<le> length bs" "j' + ?l < 2 * pageSize"
          using False True a j' by (simp_all add: pageSize_def)
        show ?thesis unfolding step
          using less.hyps [OF h] False fetched_unmapped [OF a j' None, of bs] by (simp add: None)
      qed
    qed
  qed
qed

lemma fetchBytes_eq: "fetchBytes addr bs s = (length bs, fetched s (unat addr) 0 bs)"
  unfolding fetchBytes_def
  by (rule fetch_loop_eq) (use page_off_less [of addr] in \<open>simp_all add: addr_split\<close>)
subsection \<open>Properties\<close>

lemma heap_inv_blank: "heap_inv 1 (blank b)"
  by (simp add: blank_def heap_inv_def heap_ok_def tables_def queued_def free_pages_def)

text \<open>
  A word that is stored at an aligned address is fetched again; no other byte of the memory
  changes, and the machines that share pages with this one see no change at all.
\<close>
theorem store_fetch:
  assumes "heap_inv N s" "1 \<le> N" "unat a mod 4 = 0"
  shows "\<exists>s'. store a v s = Some (None, s') \<and> fetch a s' = Some (v, None) \<and>
    (\<forall>b. b < unat a \<or> unat a + 4 \<le> b \<longrightarrow> byte_at s' b = byte_at s b) \<and>
    others_same s s' \<and> heap_inv N s'"
proof -
  obtain s' where s': "store a v s = Some (None, s')"
    using aligned_fits [OF assms(3)] assms(3) by (simp add: store_poke [OF assms(1)] page_off_aligned)
  note ok = store_ok [OF assms(1,2) s']
  have "word_of s' (unat a) = v" using get_put_u32 [of v] by (simp add: word_of_def ok(2))
  then have "fetch a s' = Some (v, None)"
    using aligned_fits [OF assms(3)] assms(3) by (simp add: fetch_eq [OF ok(1)] page_off_aligned)
  moreover have "byte_at s' b = byte_at s b" if "b < unat a \<or> unat a + 4 \<le> b" for b
    using that by (auto simp: ok(2))
  ultimately show ?thesis using s' ok(1,3) by blast
qed

theorem store_fetch_witness:
  "\<exists>s'. store 64 7 (blank 64) = Some (None, s') \<and> fetch 64 s' = Some (7, None)"
  using store_fetch [OF heap_inv_blank, of 64 7 64] by auto

text \<open>
  C9: \<open>storeBytes\<close> writes a byte string of any length at any address, across page boundaries: the
  bytes are then in memory at that address, everything else is as before, also for other machines.
\<close>
theorem storeBytes_writes:
  assumes "heap_inv N s" "1 \<le> N"
  shows "map (\<lambda>k. byte_at (storeBytes addr bs s) (unat addr + k)) [0..<length bs] = bs \<and>
    (\<forall>b. b < unat addr \<or> unat addr + length bs \<le> b \<longrightarrow>
      byte_at (storeBytes addr bs s) b = byte_at s b) \<and>
    others_same s (storeBytes addr bs s) \<and> heap_inv N (storeBytes addr bs s)"
  using storeBytes_ok [OF assms] by (auto intro!: nth_equalityI)

theorem storeBytes_writes_witness:
  "map (\<lambda>k. byte_at (storeBytes 62 [1, 2, 3, 4] (blank 64)) (62 + k)) [0, 1, 2, 3] = [1, 2, 3, 4]"
proof -
  have "[0..<4] = [0, 1, 2, 3 :: nat]" by (simp add: upt_rec)
  with storeBytes_writes [OF heap_inv_blank, of 62 "[1, 2, 3, 4]" 64] show ?thesis by simp
qed

text \<open>
  \<open>fetchBytes\<close> fills the whole buffer with the bytes of memory if every page of the range is
  mapped.
\<close>
theorem fetchBytes_mapped:
  assumes "\<forall>k < length bs. page_of s ((unat addr + k) div pageSize) \<noteq> None"
  shows "fetchBytes addr bs s = (length bs, map (\<lambda>k. byte_at s (unat addr + k)) [0..<length bs])"
proof -
  have "\<not> unseen s (unat addr) 0 k" if "k < length bs" for k
  proof
    assume u: "unseen s (unat addr) 0 k"
    with assms that have k: "0 < k" "(unat addr + k) mod pageSize = 0"
      "page_of s ((unat addr + k) div pageSize - 1) = None" by (auto simp: unseen_def)
    then have "(unat addr + (k - 1)) div pageSize = (unat addr + k) div pageSize - 1"
      by (cases k) (simp_all add: pageSize_def div_Suc)
    with k assms that show False by (metis less_imp_diff_less)
  qed
  then show ?thesis by (simp add: fetchBytes_eq fetched_def)
qed

theorem fetchBytes_mapped_witness:
  "fetchBytes 1 [0, 0] ((blank 64)\<lparr>pages := [Some 0], heap := [\<lparr>rc = 1, dat = replicate 64 9\<rparr>]\<rparr>)
     = (2, [9, 9])"
proof -
  let ?s = "(blank 64)\<lparr>pages := [Some 0], heap := [\<lparr>rc = 1, dat = replicate 64 9\<rparr>]\<rparr>"
  have "\<forall>k < length [0, 0 :: u8]. page_of ?s ((unat (1 :: u32) + k) div pageSize) \<noteq> None"
    by (auto simp: page_of_def pageSize_def less_Suc_eq)
  from fetchBytes_mapped [OF this] show ?thesis
    by (simp add: byte_at_def byte_of_def contents_def pageSize_def upt_rec)
qed

text \<open>
  After an unmapped page \<open>fetchBytes\<close> passes over one byte too many: the first byte of the next
  page is not read, whatever it is, and the buffer keeps its own byte there.
\<close>
theorem fetchBytes_skips:
  assumes "page_of s (page_index addr) = None" "pageSize - page_off addr < length bs"
  shows "snd (fetchBytes addr bs s) ! (pageSize - page_off addr) = bs ! (pageSize - page_off addr)"
proof -
  let ?k = "pageSize - page_off addr"
  have a: "unat addr + ?k = Suc (page_index addr) * pageSize"
    using page_off_less [of addr] by (simp add: addr_split)
  have "unseen s (unat addr) 0 ?k"
    using assms(1) page_off_less [of addr] by (simp add: unseen_def a pageSize_pos)
  with assms(2) show ?thesis by (simp add: fetchBytes_eq fetched_def)
qed

theorem fetchBytes_skips_witness:
  "snd (fetchBytes 63 [0, 0, 0]
     ((blank 64)\<lparr>pages := [None, Some 0], heap := [\<lparr>rc = 1, dat = replicate 64 9\<rparr>]\<rparr>)) ! 1 = 0"
proof -
  let ?s = "(blank 64)\<lparr>pages := [None, Some 0], heap := [\<lparr>rc = 1, dat = replicate 64 9\<rparr>]\<rparr>"
  have "page_index 63 = 0" "page_off 63 = 63" by (simp_all add: page_index_def page_off_def)
  with fetchBytes_skips [of ?s 63 "[0, 0, 0]"] show ?thesis by (simp add: page_of_def pageSize_def)
qed

end
