(* ===== verification/Stack.thy ===== *)
theory Stack
  imports Memory_Spec
begin

text \<open>
  The parameter stack and the control stack of \<open>vm.go\<close>, which grow towards each other in the
  memory between 0 and \<open>cbp\<close>.  The head of the parameter stack is held in \<open>pa\<close>; \<open>psp\<close> is the
  address at which it would be stored, or \<open>pspInit\<close> when the stack is empty.  \<open>csp\<close> is the address
  below the head of the control stack.
\<close>

subsection \<open>Operations\<close>

definition under :: "string \<Rightarrow> merr" where
  "under name = StackRangeError name ''under''"

definition over :: "string \<Rightarrow> merr" where
  "over name = StackRangeError name ''over''"

definition push :: "u32 \<Rightarrow> vm \<Rightarrow> (merr option \<times> vm) option" where
  "push val s =
     (let psp' = psp s + 4
      in if psp' < pspInit \<and> psp' > cbp s then Some (Some (under ''param''), s)
         else if psp' < pspInit \<and> psp' > csp s then Some (Some (over ''param''), s)
         else do {
           (e, s) \<leftarrow> (if psp' > 0 then store (psp s) (pa s) s else Some (None, s));
           if e \<noteq> None then Some (e, s)
           else Some (None, s\<lparr>pa := val, psp := psp'\<rparr>)
         })"

definition pRef :: "u32 \<Rightarrow> vm \<Rightarrow> (merr + loc) \<times> vm" where
  "pRef i s =
     (if i = 1 then
        (if psp s = pspInit then (Inl (under ''param''), s) else (Inr LocPA, s))
      else
        (let addr = psp s + 4 - i * 4
         in if addr < pbp s \<or> addr > csp s then (Inl (under ''param''), s) else ref addr s))"

definition drop_m :: "vm \<Rightarrow> (merr option \<times> vm) option" where
  "drop_m s =
     (let psp' = psp s - 4
      in if psp' < cbp s then do {
           (nxt, e) \<leftarrow> fetch psp' s;
           if e \<noteq> None then Some (e, s)
           else Some (None, s\<lparr>pa := nxt, psp := psp'\<rparr>)
         }
         else if psp' < pspInit then Some (Some (under ''param''), s)
         else Some (None, s\<lparr>psp := psp'\<rparr>))"

definition pop :: "vm \<Rightarrow> ((u32 \<times> merr option) \<times> vm) option" where
  "pop s = (let val = pa s in do { (e, s) \<leftarrow> drop_m s; Some ((val, e), s) })"

definition cpush :: "u32 \<Rightarrow> vm \<Rightarrow> (merr option \<times> vm) option" where
  "cpush val s =
     (let csp' = csp s - 4
      in if psp s < cbp s \<and> csp' < psp s then Some (Some (over ''control''), s)
         else do {
           (e, s) \<leftarrow> store (csp s) val s;
           if e \<noteq> None then Some (e, s) else Some (None, s\<lparr>csp := csp'\<rparr>)
         })"

definition cpop :: "vm \<Rightarrow> ((u32 \<times> merr option) \<times> vm) option" where
  "cpop s =
     (if csp s \<ge> cbp s then Some ((0, Some (under ''control'')), s)
      else (let s = s\<lparr>csp := csp s + 4\<rparr> in do { (v, e) \<leftarrow> fetch (csp s) s; Some ((v, e), s) }))"

definition cdrop :: "vm \<Rightarrow> merr option \<times> vm" where
  "cdrop s =
     (let csp' = csp s + 4
      in if csp' \<le> cbp s then (None, s\<lparr>csp := csp'\<rparr>) else (Some (under ''control''), s))"

definition cRef :: "u32 \<Rightarrow> vm \<Rightarrow> (merr + loc) \<times> vm" where
  "cRef i s =
     (let addr = csp s + i * 4
      in if addr > cbp s \<or> (psp s > 0 \<and> addr < psp s) then (Inl (under ''code''), s)
         else ref addr s)"

subsection \<open>Reading a range of words\<close>

text \<open>
  \<open>fetchMany\<close> steps by 4 from \<open>from\<close> to \<open>to\<close>, in either direction, while \<open>from\<close> has not reached
  \<open>to\<close>.  An upward loop on \<open>uint32\<close> ends at \<open>to\<close> or, past the top of the address space, never;
  \<open>fuel\<close> bounds the steps and running out of it is \<^const>\<open>None\<close>, as is a panic of a fetch.
\<close>

fun fetch_up :: "nat \<Rightarrow> u32 \<Rightarrow> u32 \<Rightarrow> vm \<Rightarrow> (u32 list \<times> merr option) option" where
  "fetch_up 0 from to s = None"
| "fetch_up (Suc fuel) from to s =
     (if from < to then do {
        (v, e) \<leftarrow> fetch from s;
        if e \<noteq> None then Some ([], e)
        else do {
          (vs, e) \<leftarrow> fetch_up fuel (from + 4) to s;
          Some (if e \<noteq> None then [] else v # vs, e)
        }
      }
      else Some ([], None))"

fun fetch_down :: "nat \<Rightarrow> u32 \<Rightarrow> u32 \<Rightarrow> vm \<Rightarrow> (u32 list \<times> merr option) option" where
  "fetch_down 0 from to s = None"
| "fetch_down (Suc fuel) from to s =
     (if from > to then do {
        (v, e) \<leftarrow> fetch from s;
        if e \<noteq> None then Some ([], e)
        else do {
          (vs, e) \<leftarrow> fetch_down fuel (from - 4) to s;
          Some (if e \<noteq> None then [] else v # vs, e)
        }
      }
      else Some ([], None))"

definition fetchMany :: "nat \<Rightarrow> u32 \<Rightarrow> u32 \<Rightarrow> vm \<Rightarrow> (u32 list \<times> merr option) option" where
  "fetchMany fuel from to s =
     (if from = to then Some ([], None)
      else if from < to then fetch_up fuel from to s
      else fetch_down fuel from to s)"

definition fetchPS :: "nat \<Rightarrow> vm \<Rightarrow> (u32 list \<times> merr option) option" where
  "fetchPS fuel s =
     (if psp s = pspInit then Some ([], None)
      else if psp s = 0 then Some ([pa s], None)
      else if psp s < pspInit then
        (if psp s > cbp s then Some ([], Some (under ''param''))
         else if psp s > csp s then Some ([], Some (over ''param''))
         else do {
           (vs, e) \<leftarrow> fetchMany fuel (pbp s) (psp s) s;
           Some (if e \<noteq> None then [] else vs @ [pa s], e)
         })
      else Some ([pa s], None))"

definition fetchCS :: "nat \<Rightarrow> vm \<Rightarrow> (u32 list \<times> merr option) option" where
  "fetchCS fuel s =
     (if csp s = cbp s then Some ([], None)
      else if csp s < psp s \<and> psp s < cbp s then Some ([], Some (over ''control''))
      else if csp s > cbp s then Some ([], Some (under ''control''))
      else fetchMany fuel (cbp s) (csp s) s)"

end
