(* ===== verification/Stack_Spec.thy ===== *)
theory Stack_Spec
  imports Stack
begin

text \<open>
  The two stacks of a machine as lists, and what each operation of \<open>Stack\<close> does to the lists: the
  operations refine a pair of stacks that share \<open>cells s\<close> words of memory.
\<close>

subsection \<open>Words of a memory as a sequence\<close>

text \<open>
  What the stacks rely on: a read after a write returns the value written, and a write leaves the
  words that do not overlap it.
\<close>

definition words :: "('s \<Rightarrow> nat \<Rightarrow> 'w) \<Rightarrow> 's \<Rightarrow> nat \<Rightarrow> nat \<Rightarrow> 'w list" where
  "words rd s lo n = map (\<lambda>k. rd s (lo + 4 * k)) [0..<n]"

locale word_memory =
  fixes rd :: "'s \<Rightarrow> nat \<Rightarrow> 'w"
    and wrote :: "'s \<Rightarrow> nat \<Rightarrow> 'w \<Rightarrow> 's \<Rightarrow> bool"
  assumes rd_same: "wrote s a v s' \<Longrightarrow> rd s' a = v"
    and rd_other: "wrote s a v s' \<Longrightarrow> b + 4 \<le> a \<or> a + 4 \<le> b \<Longrightarrow> rd s' b = rd s b"
begin

lemma words_outside:
  "wrote s a v s' \<Longrightarrow> a + 4 \<le> lo \<or> lo + 4 * n \<le> a \<Longrightarrow> words rd s' lo n = words rd s lo n"
  by (auto simp: words_def intro!: rd_other)

lemma words_snoc:
  "wrote s (lo + 4 * n) v s' \<Longrightarrow> words rd s' lo (Suc n) = words rd s lo n @ [v]"
  using words_outside [of s "lo + 4 * n" v s' lo n] rd_same
  by (simp add: words_def)

lemma words_cons:
  "wrote s lo v s' \<Longrightarrow> words rd s' lo (Suc n) = v # words rd s (lo + 4) n"
  using words_outside [of s lo v s' "lo + 4" n] rd_same [of s lo v s']
  by (simp add: words_def upt_conv_Cons map_Suc_upt [symmetric] comp_def add.assoc
      del: upt_Suc)

end

text \<open>The memory of the machine is such a memory.\<close>

definition stored :: "vm \<Rightarrow> nat \<Rightarrow> u32 \<Rightarrow> vm \<Rightarrow> bool" where
  "stored s a v s' \<longleftrightarrow>
     (\<forall>b. byte_at s' b = (if a \<le> b \<and> b < a + 4 then put_u32 v ! (b - a) else byte_at s b))"

interpretation mem: word_memory word_of stored
proof unfold_locales
  fix s a v s'
  assume "stored s a v s'"
  then show "word_of s' a = v"
    using get_put_u32 [of v] by (simp add: word_of_def stored_def)
next
  fix s a v s' b
  assume "stored s a v s'" "b + 4 \<le> a \<or> a + 4 \<le> b"
  then show "word_of s' b = word_of s b"
    by (auto simp: word_of_def stored_def)
qed

lemma store_stored:
  assumes "heap_inv N s" "1 \<le> N" "store addr v s = Some (None, s')"
  shows "stored s (unat addr) v s'"
  using store_ok(2) [OF assms] by (simp add: stored_def)

subsection \<open>The stacks as lists\<close>

text \<open>
  \<open>pvals\<close> is the parameter stack, its head last; \<open>cvals\<close> the control stack, its head first.
  \<open>stack_ok\<close> is the layout that the operations keep.
\<close>

definition pvals :: "vm \<Rightarrow> u32 list" where
  "pvals s = (if psp s = pspInit then [] else words word_of s 0 (unat (psp s) div 4) @ [pa s])"

definition cvals :: "vm \<Rightarrow> u32 list" where
  "cvals s = words word_of s (unat (csp s) + 4) ((unat (cbp s) - unat (csp s)) div 4)"

definition stack_ok :: "vm \<Rightarrow> bool" where
  "stack_ok s \<longleftrightarrow> pbp s = 0 \<and> unat (cbp s) mod 4 = 0 \<and> cbp s < 0xfffffff8 \<and>
     unat (psp s) mod 4 = 0 \<and> unat (csp s) mod 4 = 0 \<and> csp s \<le> cbp s \<and>
     (psp s = pspInit \<or> psp s \<le> csp s)"

text \<open>The stacks share \<open>cells\<close> words of memory; the head of the parameter stack is not in it.\<close>

definition cells :: "vm \<Rightarrow> nat" where
  "cells s = unat (cbp s) div 4"

subsection \<open>Arithmetic and frames\<close>

lemma unat_pspInit: "unat pspInit = 4294967292"
  by (simp add: pspInit_def)

lemma pspInit_add_4 [simp]: "pspInit + 4 = 0"
  by (simp add: pspInit_def)

lemma minus_4_pspInit [simp]: "- 4 = pspInit"
  by (simp add: pspInit_def)

lemma unat_add_4: "unat (x :: u32) < 4294967292 \<Longrightarrow> unat (x + 4) = unat x + 4"
  by (simp add: unat_word_ariths)

lemma unat_sub_4: "4 \<le> unat (x :: u32) \<Longrightarrow> unat (x - 4) = unat x - 4"
  by (subst unat_sub) (simp_all add: word_le_nat_alt)

lemma stack_ok_nat:
  assumes "stack_ok s"
  shows "pbp s = 0" "unat (cbp s) mod 4 = 0" "unat (cbp s) < 4294967288" "unat (psp s) mod 4 = 0"
    "unat (csp s) mod 4 = 0" "unat (csp s) \<le> unat (cbp s)"
    "psp s \<noteq> pspInit \<Longrightarrow> unat (psp s) \<le> unat (csp s)"
    "psp s \<noteq> pspInit \<Longrightarrow> unat (psp s) \<le> unat (cbp s)"
  using assms
  by (auto simp: stack_ok_def word_le_nat_alt word_less_nat_alt)

lemma heap_inv_simps [simp]:
  "heap_inv N (s\<lparr>pa := x\<rparr>) = heap_inv N s" "heap_inv N (s\<lparr>psp := x\<rparr>) = heap_inv N s"
  "heap_inv N (s\<lparr>csp := x\<rparr>) = heap_inv N s" "heap_inv N (s\<lparr>ip := x\<rparr>) = heap_inv N s"
  "heap_inv N (s\<lparr>err := e\<rparr>) = heap_inv N s" "heap_inv N (s\<lparr>count := c\<rparr>) = heap_inv N s"
  "heap_inv N (s\<lparr>caches := cs\<rparr>) = heap_inv N s" "heap_inv N (s\<lparr>opc := o'\<rparr>) = heap_inv N s"
  by (simp_all add: heap_inv_def tables_def queued_def free_pages_def)

lemma word_of_simps [simp]:
  "word_of (s\<lparr>pa := x\<rparr>) = word_of s" "word_of (s\<lparr>psp := x\<rparr>) = word_of s"
  "word_of (s\<lparr>csp := x\<rparr>) = word_of s" "word_of (s\<lparr>ip := x\<rparr>) = word_of s"
  "word_of (s\<lparr>err := e\<rparr>) = word_of s"
  by (simp_all add: word_of_def byte_at_def fun_eq_iff)

lemma words_simps [simp]:
  "words word_of (s\<lparr>pa := x\<rparr>) = words word_of s" "words word_of (s\<lparr>psp := x\<rparr>) = words word_of s"
  "words word_of (s\<lparr>csp := x\<rparr>) = words word_of s"
  by (simp_all add: words_def fun_eq_iff)

lemma words_0 [simp]: "words rd s lo 0 = []"
  by (simp add: words_def)

lemma length_words [simp]: "length (words rd s lo n) = n"
  by (simp add: words_def)

lemma words_Suc: "words rd s lo (Suc n) = words rd s lo n @ [rd s (lo + 4 * n)]"
  by (simp add: words_def)

lemma words_Cons: "words rd s lo (Suc n) = rd s lo # words rd s (lo + 4) n"
  by (simp add: words_def upt_conv_Cons map_Suc_upt [symmetric] comp_def add.assoc del: upt_Suc)

lemma store_aligned:
  assumes "heap_inv N s" "1 \<le> N" "unat a mod 4 = 0"
  obtains s' where "store a v s = Some (None, s')" "heap_inv N s'" "stored s (unat a) v s'"
    "\<exists>h al ps sp. s' = s\<lparr>heap := h, palloc := al, pages := ps, spare := sp\<rparr>"
proof -
  have "\<exists>s'. store a v s = Some (None, s')"
    using assms(3) aligned_fits [OF assms(3)] by (simp add: store_poke [OF assms(1)] page_off_aligned)
  with that store_ok(1,4) [OF assms(1,2)] store_stored [OF assms(1,2)] show ?thesis by blast
qed

lemma fetch_aligned:
  "heap_inv N s \<Longrightarrow> unat a mod 4 = 0 \<Longrightarrow> fetch a s = Some (word_of s (unat a), None)"
  by (simp add: fetch_eq page_off_aligned aligned_fits)


text \<open>The fields that a call may change besides the memory.\<close>

definition mem_frame :: "vm \<Rightarrow> vm \<Rightarrow> bool" where
  "mem_frame s s' \<longleftrightarrow>
     s' = s\<lparr>heap := heap s', palloc := palloc s', pages := pages s', spare := spare s',
       pa := pa s', psp := psp s', csp := csp s'\<rparr>"

lemma mem_frameD:
  assumes "mem_frame s s'"
  shows "cbp s' = cbp s" "pbp s' = pbp s" "ip s' = ip s" "err s' = err s" "count s' = count s"
    "limit s' = limit s" "opc s' = opc s" "self s' = self s" "runq s' = runq s" "caches s' = caches s"
    "outs s' = outs s" "malloc s' = malloc s" "next_mach s' = next_mach s"
  by (subst assms [unfolded mem_frame_def], simp)+

lemma mem_frameI:
  "mem_frame s (s\<lparr>heap := h, palloc := al, pages := ps, spare := sp, pa := x, psp := y, csp := z\<rparr>)"
  by (simp add: mem_frame_def)

lemma push_full:
  assumes "stack_ok s" "psp s \<noteq> pspInit" "unat (csp s) < unat (psp s) + 4"
  shows "push v s = Some (Some (if cbp s < psp s + 4 then under ''param'' else over ''param''), s)"
proof -
  note n = stack_ok_nat [OF assms(1)]
  have le: "unat (psp s) \<le> unat (cbp s)" using n assms(2) by simp
  have p4: "unat (psp s + 4) = unat (psp s) + 4" using n le by (intro unat_add_4) simp
  have "csp s < psp s + 4" "psp s + 4 < pspInit"
    using assms(3) n(3) le by (simp_all add: word_less_nat_alt p4 unat_pspInit)
  then show ?thesis by (simp add: push_def Let_def)
qed

lemma push_room:
  assumes ok: "stack_ok s" and inv: "heap_inv N s" "1 \<le> N"
    and room: "psp s = pspInit \<or> unat (psp s) + 4 \<le> unat (csp s)"
  obtains s' where "push v s = Some (None, s')" "pvals s' = pvals s @ [v]" "cvals s' = cvals s"
    "stack_ok s'" "heap_inv N s'" "mem_frame s s'" "psp s' = psp s + 4" "csp s' = csp s"
proof (cases "psp s = pspInit")
  case True
  let ?s = "s\<lparr>pa := v, psp := 0\<rparr>"
  have "push v s = Some (None, ?s)"
    using True by (simp add: push_def word_less_nat_alt)
  moreover have "stack_ok ?s" using ok by (simp add: stack_ok_def)
  moreover have "pvals ?s = pvals s @ [v]" using True by (simp add: pvals_def pspInit_def)
  moreover have "cvals ?s = cvals s" by (simp add: cvals_def)
  moreover have "mem_frame s ?s" by (simp add: mem_frame_def)
  moreover have "psp ?s = psp s + 4" using True by simp
  ultimately show thesis using that [of ?s] inv(1) by simp
next
  case False
  note n = stack_ok_nat [OF ok]
  with room False have r: "unat (psp s) + 4 \<le> unat (csp s)" by simp
  have p4: "unat (psp s + 4) = unat (psp s) + 4" using n r by (intro unat_add_4) simp
  have ne: "psp s + 4 \<noteq> pspInit" "psp s + 4 \<noteq> 0" "0 < psp s + 4"
    using n r p4 unat_pspInit by (auto simp: word_less_nat_alt)
  obtain s1 where s1: "store (psp s) (pa s) s = Some (None, s1)" "heap_inv N s1" "stored s (unat (psp s)) (pa s) s1"
    and fr: "\<exists>h al ps sp. s1 = s\<lparr>heap := h, palloc := al, pages := ps, spare := sp\<rparr>"
    using store_aligned [OF inv n(4)] by metis
  obtain h al ps sp where e: "s1 = s\<lparr>heap := h, palloc := al, pages := ps, spare := sp\<rparr>" using fr by blast
  let ?s = "s1\<lparr>pa := v, psp := psp s + 4\<rparr>"
  have f: "psp s1 = psp s" "csp s1 = csp s" "cbp s1 = cbp s" "pbp s1 = pbp s" by (simp_all add: e)
  have "\<not> psp s + 4 > cbp s" "\<not> psp s + 4 > csp s" using r n p4 by (simp_all add: word_less_nat_alt)
  then have "push v s = Some (None, ?s)"
    using ne s1(1) by (simp add: push_def Let_def f)
  moreover have "pvals ?s = pvals s @ [v]"
  proof -
    have "unat (psp s) = 0 + 4 * (unat (psp s) div 4)" using n(4) by presburger
    with s1(3) have "words word_of s1 0 (Suc (unat (psp s) div 4)) = words word_of s 0 (unat (psp s) div 4) @ [pa s]"
      by (intro mem.words_snoc) simp
    moreover have "(unat (psp s) + 4) div 4 = Suc (unat (psp s) div 4)" by simp
    ultimately show ?thesis using False ne(1) by (simp only: pvals_def) (simp add: p4)
  qed
  moreover have "cvals ?s = cvals s"
    using mem.words_outside [OF s1(3), of "unat (csp s) + 4"] r by (simp add: cvals_def f)
  moreover have "stack_ok ?s"
    using ok n r p4 by (auto simp: stack_ok_def f word_le_nat_alt)
  moreover have "mem_frame s ?s" by (simp add: mem_frame_def e)
  ultimately show thesis using that [of ?s] s1(2) by (simp add: f)
qed

lemma length_stacks:
  assumes "stack_ok s"
  shows "pvals s = [] \<longleftrightarrow> psp s = pspInit" "psp s \<noteq> pspInit \<Longrightarrow> 4 * length (pvals s) = unat (psp s) + 4"
    "4 * length (cvals s) = unat (cbp s) - unat (csp s)" "4 * cells s = unat (cbp s)"
proof -
  note n = stack_ok_nat [OF assms]
  show "pvals s = [] \<longleftrightarrow> psp s = pspInit" by (simp add: pvals_def)
  show "4 * length (pvals s) = unat (psp s) + 4" if "psp s \<noteq> pspInit"
    using that n(4) by (auto simp: pvals_def)
  have "(unat (cbp s) - unat (csp s)) mod 4 = 0"
    using n(2,5) by presburger
  then show "4 * length (cvals s) = unat (cbp s) - unat (csp s)" by (auto simp: cvals_def)
  show "4 * cells s = unat (cbp s)" using n(2) by (auto simp: cells_def)
qed

lemma stack_room:
  assumes "stack_ok s"
  shows "length (pvals s) + length (cvals s) \<le> cells s \<longleftrightarrow>
    psp s = pspInit \<or> unat (psp s) + 4 \<le> unat (csp s)"
proof (cases "psp s = pspInit")
  case True
  with length_stacks(3,4) [OF assms] stack_ok_nat [OF assms] show ?thesis by (simp add: pvals_def)
next
  case False
  with length_stacks(2-4) [OF assms] stack_ok_nat(6) [OF assms] show ?thesis by linarith
qed

lemma pop_empty:
  assumes "stack_ok s" "pvals s = []"
  shows "pop s = Some ((pa s, Some (under ''param'')), s)"
proof -
  have e: "psp s = pspInit" using assms by (simp add: length_stacks)
  have "psp s - 4 = 0xfffffff8" "(0xfffffff8 :: u32) < pspInit" by (simp_all add: e pspInit_def)
  moreover have "\<not> 0xfffffff8 < cbp s" using assms(1) by (simp add: stack_ok_def word_less_nat_alt)
  ultimately show ?thesis by (simp add: pop_def drop_m_def Let_def)
qed

lemma pop_snoc:
  assumes ok: "stack_ok s" and inv: "heap_inv N s" and v: "pvals s = vs @ [v]"
  obtains s' where "pop s = Some ((v, None), s')" "pvals s' = vs" "cvals s' = cvals s"
    "stack_ok s'" "s' = s\<lparr>pa := pa s', psp := psp s'\<rparr>"
proof -
  note n = stack_ok_nat [OF ok]
  have ne: "psp s \<noteq> pspInit" using v by (auto simp: pvals_def)
  with v have vs: "vs = words word_of s 0 (unat (psp s) div 4)" "v = pa s" by (simp_all add: pvals_def)
  show thesis
  proof (cases "psp s = 0")
    case True
    let ?s = "s\<lparr>psp := pspInit\<rparr>"
    have "\<not> pspInit < cbp s" using n(3) by (simp add: word_less_nat_alt unat_pspInit)
    then have "pop s = Some ((v, None), ?s)"
      using True by (simp add: pop_def drop_m_def Let_def vs)
    moreover have "stack_ok ?s" using ok by (simp add: stack_ok_def pspInit_def)
    moreover have "pvals ?s = vs" "cvals ?s = cvals s" using True by (simp_all add: pvals_def vs cvals_def)
    ultimately show thesis using that [of ?s] by simp
  next
    case False
    then have "unat (psp s) \<noteq> 0" by (simp add: unat_eq_0)
    with n(4) have ge: "4 \<le> unat (psp s)" by presburger
    have m4: "unat (psp s - 4) = unat (psp s) - 4" using ge by (rule unat_sub_4)
    have al: "unat (psp s - 4) mod 4 = 0" using n(4) ge by (simp add: m4 mod_if)
    have lt: "psp s - 4 < cbp s" "psp s - 4 \<noteq> pspInit"
      using n ne ge m4 unat_pspInit by (auto simp: word_less_nat_alt)
    let ?s = "s\<lparr>pa := word_of s (unat (psp s - 4)), psp := psp s - 4\<rparr>"
    have "pop s = Some ((v, None), ?s)"
      using lt by (simp add: pop_def drop_m_def Let_def vs fetch_aligned [OF inv al])
    moreover have "stack_ok ?s"
      using ok n(7) [OF ne] ge al by (auto simp: stack_ok_def word_le_nat_alt m4)
    moreover have "pvals ?s = vs"
    proof -
      obtain k where "unat (psp s) = 4 * k + 4" using n(4) ge
        by (metis add.commute dvd_diff_nat dvd_triv_left le_add_diff_inverse mod_0_imp_dvd dvd_def dvd_refl)
      then have "unat (psp s) div 4 = Suc ((unat (psp s) - 4) div 4)" "4 * ((unat (psp s) - 4) div 4) = unat (psp s) - 4"
        by simp_all
      then show ?thesis using lt(2) by (simp add: pvals_def vs m4 words_Suc)
    qed
    moreover have "cvals ?s = cvals s" by (simp add: cvals_def)
    ultimately show thesis using that [of ?s] by simp
  qed
qed

lemma cpush_full:
  assumes "stack_ok s" "psp s < cbp s" "4 \<le> unat (csp s)" "unat (csp s) < unat (psp s) + 4"
  shows "cpush v s = Some (Some (over ''control''), s)"
proof -
  have "csp s - 4 < psp s" using assms(3,4) by (simp add: word_less_nat_alt unat_sub_4)
  with assms(2) show ?thesis by (simp add: cpush_def)
qed

lemma cpush_room:
  assumes ok: "stack_ok s" and inv: "heap_inv N s" "1 \<le> N"
    and room: "4 \<le> unat (csp s)" "psp s = pspInit \<or> unat (psp s) + 4 \<le> unat (csp s)"
  obtains s' where "cpush v s = Some (None, s')" "cvals s' = v # cvals s" "pvals s' = pvals s"
    "stack_ok s'" "heap_inv N s'" "mem_frame s s'" "psp s' = psp s" "csp s' = csp s - 4"
proof -
  note n = stack_ok_nat [OF ok]
  have m4: "unat (csp s - 4) = unat (csp s) - 4" using room(1) by (rule unat_sub_4)
  obtain s1 where s1: "store (csp s) v s = Some (None, s1)" "heap_inv N s1" "stored s (unat (csp s)) v s1"
    and fr: "\<exists>h al ps sp. s1 = s\<lparr>heap := h, palloc := al, pages := ps, spare := sp\<rparr>"
    using store_aligned [OF inv n(5)] by metis
  obtain h al ps sp where e: "s1 = s\<lparr>heap := h, palloc := al, pages := ps, spare := sp\<rparr>" using fr by blast
  let ?s = "s1\<lparr>csp := csp s - 4\<rparr>"
  have f: "psp s1 = psp s" "csp s1 = csp s" "cbp s1 = cbp s" "pbp s1 = pbp s" "pa s1 = pa s" by (simp_all add: e)
  have "\<not> (psp s < cbp s \<and> csp s - 4 < psp s)"
    using room n unat_pspInit by (auto simp: word_less_nat_alt m4)
  then have "cpush v s = Some (None, ?s)" using s1(1) by (simp add: cpush_def Let_def)
  moreover have "cvals ?s = v # cvals s"
  proof -
    have "unat (cbp s) - (unat (csp s) - 4) = unat (cbp s) - unat (csp s) + 4" using room(1) n(6) by linarith
    then have "(unat (cbp s) - (unat (csp s) - 4)) div 4 = Suc ((unat (cbp s) - unat (csp s)) div 4)" by simp
    then show ?thesis using room(1) mem.words_cons [OF s1(3)] by (simp add: cvals_def f m4)
  qed
  moreover have "pvals ?s = pvals s"
  proof (cases "psp s = pspInit")
    case False
    have "4 * (unat (psp s) div 4) \<le> unat (psp s)" by simp
    then have "0 + 4 * (unat (psp s) div 4) \<le> unat (csp s)" using n(7) [OF False] by simp
    then have "words word_of s1 0 (unat (psp s) div 4) = words word_of s 0 (unat (psp s) div 4)"
      using mem.words_outside [OF s1(3)] by blast
    then show ?thesis by (simp add: pvals_def f)
  qed (simp add: pvals_def f)
  moreover have "stack_ok ?s"
  proof -
    have "(unat (csp s) - 4) mod 4 = 0" using n(5) room(1) by presburger
    then show ?thesis using ok room n by (auto simp: stack_ok_def f word_le_nat_alt m4)
  qed
  moreover have "mem_frame s ?s" by (simp add: mem_frame_def e)
  ultimately show thesis using that [of ?s] s1(2) by (simp add: f)
qed

lemma cpop_nil:
  assumes "stack_ok s" "cvals s = []"
  shows "cpop s = Some ((0, Some (under ''control'')), s)"
proof -
  have "unat (cbp s) = unat (csp s)" using length_stacks(3) [OF assms(1)] assms stack_ok_nat [OF assms(1)] by simp
  then show ?thesis by (simp add: cpop_def word_le_nat_alt)
qed

lemma cpop_cons:
  assumes ok: "stack_ok s" and inv: "heap_inv N s" and v: "cvals s = v # vs"
  shows "cpop s = Some ((v, None), s\<lparr>csp := csp s + 4\<rparr>)" "cvals (s\<lparr>csp := csp s + 4\<rparr>) = vs"
    "pvals (s\<lparr>csp := csp s + 4\<rparr>) = pvals s" "stack_ok (s\<lparr>csp := csp s + 4\<rparr>)"
proof -
  note n = stack_ok_nat [OF ok]
  have lt: "unat (csp s) + 4 \<le> unat (cbp s)" using length_stacks(3) [OF ok] v by simp
  have p4: "unat (csp s + 4) = unat (csp s) + 4" using lt n(3) by (intro unat_add_4) simp
  have al: "unat (csp s + 4) mod 4 = 0" using n(5) by (simp add: p4)
  have d: "(unat (cbp s) - unat (csp s)) div 4 = Suc ((unat (cbp s) - unat (csp s + 4)) div 4)"
  proof -
    have "unat (cbp s) - unat (csp s) = unat (cbp s) - unat (csp s + 4) + 4" using lt p4 by linarith
    then show ?thesis by simp
  qed
  have w: "word_of s (unat (csp s) + 4) = v" "words word_of s (unat (csp s) + 4 + 4) ((unat (cbp s) - unat (csp s + 4)) div 4) = vs"
    using v unfolding cvals_def d words_Cons by simp_all
  have "\<not> cbp s \<le> csp s" using lt by (simp add: word_le_nat_alt)
  with w(1) show "cpop s = Some ((v, None), s\<lparr>csp := csp s + 4\<rparr>)"
    using fetch_aligned [of N "s\<lparr>csp := csp s + 4\<rparr>" "csp s + 4"] inv al by (simp add: cpop_def Let_def p4)
  show "cvals (s\<lparr>csp := csp s + 4\<rparr>) = vs" using w(2) by (simp add: cvals_def p4)
  show "pvals (s\<lparr>csp := csp s + 4\<rparr>) = pvals s" by (simp add: pvals_def)
  show "stack_ok (s\<lparr>csp := csp s + 4\<rparr>)"
    using ok al lt p4 n(7) by (auto simp: stack_ok_def word_le_nat_alt)
qed

text \<open>Empty memory, for the examples.\<close>

lemma blank_ok: "stack_ok (blank 64)" "heap_inv 1 (blank 64)" "cells (blank 64) = 15"
  by (simp_all add: stack_ok_def blank_def heap_inv_def heap_ok_def tables_def queued_def free_pages_def
      cells_def unat_pspInit)

lemma blank_one_ok: "stack_ok ((blank 64)\<lparr>psp := 0\<rparr>)" "heap_inv 1 ((blank 64)\<lparr>psp := 0\<rparr>)"
    "pvals ((blank 64)\<lparr>psp := 0\<rparr>) = [0]" "cvals ((blank 64)\<lparr>psp := 0\<rparr>) = []"
    "cells ((blank 64)\<lparr>psp := 0\<rparr>) = 15"
  using blank_ok(2)
  by (simp_all add: stack_ok_def) (simp_all add: blank_def pvals_def cvals_def cells_def pspInit_def)

subsection \<open>What the operations promise\<close>

text \<open>
  C7: a push succeeds exactly while the two stacks fit in the words below \<open>cbp\<close>; it then appends
  the value to the parameter stack and leaves the control stack alone.  When it fails it reports a
  range error and changes nothing.
\<close>
theorem push_refines:
  assumes "stack_ok s" "heap_inv N s" "1 \<le> N"
  shows "\<exists>e s'. push v s = Some (e, s') \<and>
    (if length (pvals s) + length (cvals s) \<le> cells s
     then e = None \<and> pvals s' = pvals s @ [v] \<and> cvals s' = cvals s \<and> stack_ok s' \<and> heap_inv N s'
     else (e = Some (over ''param'') \<or> e = Some (under ''param'')) \<and> s' = s)"
proof (cases "psp s = pspInit \<or> unat (psp s) + 4 \<le> unat (csp s)")
  case True
  with push_room [OF assms, of v] show ?thesis unfolding stack_room [OF assms(1)] by simp metis
next
  case False
  with push_full [OF assms(1), of v] show ?thesis unfolding stack_room [OF assms(1)] by simp
qed

theorem push_refines_witness:
  "\<exists>s'. push 5 ((blank 64)\<lparr>psp := 0\<rparr>) = Some (None, s') \<and> pvals s' = [0, 5] \<and> cvals s' = []"
  using push_refines [OF blank_one_ok(1,2), of 5] by (auto simp: blank_one_ok)

text \<open>
  C30: a pop removes the newest value and returns it; on an empty stack it fails with a range error
  and changes nothing.
\<close>
theorem pop_refines:
  assumes "stack_ok s" "heap_inv N s"
  shows "\<exists>v e s'. pop s = Some ((v, e), s') \<and>
    (if pvals s = [] then e = Some (under ''param'') \<and> s' = s
     else e = None \<and> v = last (pvals s) \<and> pvals s' = butlast (pvals s) \<and> cvals s' = cvals s \<and>
       stack_ok s' \<and> heap_inv N s')"
proof (cases "pvals s" rule: rev_cases)
  case Nil
  with pop_empty [OF assms(1)] show ?thesis by simp
next
  case (snoc vs v)
  obtain s' where "pop s = Some ((v, None), s')" "pvals s' = vs" "cvals s' = cvals s"
    "stack_ok s'" "s' = s\<lparr>pa := pa s', psp := psp s'\<rparr>"
    by (rule pop_snoc [OF assms snoc])
  moreover have "heap_inv N s'" using assms(2) by (subst calculation(5)) simp
  ultimately show ?thesis using snoc by simp
qed

theorem pop_refines_witness:
  "(\<exists>s'. pop ((blank 64)\<lparr>psp := 0\<rparr>) = Some ((0, None), s') \<and> pvals s' = [])"
  using pop_refines [OF blank_one_ok(1,2)] by (auto simp: blank_one_ok)

text \<open>
  The two cases that the bounds check of \<open>cpush\<close> misses: \<open>csp\<close> at 0, where \<open>csp - 4\<close> wraps around, and a
  parameter stack that reaches up to \<open>cbp\<close>, where \<open>psp < cbp\<close> does not hold.
\<close>

definition cpush_unchecked :: "vm \<Rightarrow> bool" where
  "cpush_unchecked s \<longleftrightarrow> csp s = 0 \<or> psp s \<noteq> pspInit \<and> psp s = cbp s"

lemma cpush_breaks:
  assumes "stack_ok s" "heap_inv N s" "1 \<le> N" "cpush_unchecked s"
  obtains s' where "cpush v s = Some (None, s')" "csp s' = csp s - 4" "word_of s' (unat (csp s)) = v" "\<not> stack_ok s'"
    "heap_inv N s'"
proof -
  note n = stack_ok_nat [OF assms(1)]
  obtain s1 where s1: "store (csp s) v s = Some (None, s1)" "heap_inv N s1" "stored s (unat (csp s)) v s1"
    and fr: "\<exists>h al ps sp. s1 = s\<lparr>heap := h, palloc := al, pages := ps, spare := sp\<rparr>"
    using store_aligned [OF assms(2,3) n(5)] by metis
  have f: "psp s1 = psp s" "cbp s1 = cbp s" using fr by auto
  have c: "csp s = 0 \<or> csp s \<noteq> 0 \<and> psp s \<noteq> pspInit \<and> psp s = cbp s" using assms(4) by (auto simp: cpush_unchecked_def)
  have "\<not> (psp s < cbp s \<and> csp s - 4 < psp s)"
    using c n unat_pspInit by (auto simp: word_less_nat_alt)
  then have "cpush v s = Some (None, s1\<lparr>csp := csp s - 4\<rparr>)" using s1(1) by (simp add: cpush_def Let_def)
  moreover have "word_of s1 (unat (csp s)) = v" using mem.rd_same [OF s1(3)] by simp
  moreover have "\<not> stack_ok (s1\<lparr>csp := csp s - 4\<rparr>)" using c
  proof
    assume z: "csp s = 0"
    have "\<not> csp s - 4 \<le> cbp s" using n(3) unat_pspInit by (simp add: z word_le_nat_alt pspInit_def)
    then show ?thesis by (simp add: stack_ok_def f)
  next
    assume p: "csp s \<noteq> 0 \<and> psp s \<noteq> pspInit \<and> psp s = cbp s"
    then have "unat (csp s) \<noteq> 0" by (simp add: unat_eq_0)
    then have "4 \<le> unat (csp s)" using n(5) by presburger
    then have "\<not> psp s \<le> csp s - 4" using p n(6) by (simp add: word_le_nat_alt unat_sub_4)
    with p show ?thesis unfolding stack_ok_def by (auto simp: f)
  qed
  ultimately show thesis using that [of "s1\<lparr>csp := csp s - 4\<rparr>"] s1(2) by simp
qed

text \<open>
  C31: but for two cases, a push to the control stack behaves like one to the parameter stack: it succeeds exactly
  while both fit, and otherwise fails and changes nothing.  In the two cases, \<open>csp\<close> at 0 or a parameter stack up to
  \<open>cbp\<close>, it succeeds although nothing more fits, and the stacks are no longer well-formed: \<open>csp\<close> has wrapped around
  to the top of the address space, or points below the parameter stack.
\<close>
theorem cpush_refines:
  assumes "stack_ok s" "heap_inv N s" "1 \<le> N"
  shows "\<exists>e s'. cpush v s = Some (e, s') \<and>
    (if csp s = 0 \<or> psp s \<noteq> pspInit \<and> psp s = cbp s
     then e = None \<and> csp s' = csp s - 4 \<and> word_of s' (unat (csp s)) = v \<and> \<not> stack_ok s'
     else if length (pvals s) + length (cvals s) \<le> cells s
     then e = None \<and> cvals s' = v # cvals s \<and> pvals s' = pvals s \<and> stack_ok s' \<and> heap_inv N s'
     else e = Some (over ''control'') \<and> s' = s)"
proof (cases "cpush_unchecked s")
  case True
  then show ?thesis using cpush_breaks [OF assms True, of v] by (simp add: cpush_unchecked_def) metis
next
  case False
  note n = stack_ok_nat [OF assms(1)]
  have "unat (csp s) \<noteq> 0" using False by (simp add: cpush_unchecked_def unat_eq_0)
  then have c4: "4 \<le> unat (csp s)" using n(5) by presburger
  have F: "\<not> (csp s = 0 \<or> psp s \<noteq> pspInit \<and> psp s = cbp s)" using False by (simp add: cpush_unchecked_def)
  show ?thesis
  proof (cases "psp s = pspInit \<or> unat (psp s) + 4 \<le> unat (csp s)")
    case True
    with cpush_room [OF assms c4, of v] show ?thesis unfolding if_not_P [OF F] stack_room [OF assms(1)] by simp metis
  next
    case full: False
    then have "psp s < cbp s" using F n(6,7) by (auto simp: word_less_nat_alt word_unat_eq_iff)
    from cpush_full [OF assms(1) this c4, of v] full show ?thesis unfolding if_not_P [OF F] stack_room [OF assms(1)] by simp
  qed
qed

theorem cpush_refines_witness:
  "(\<exists>s'. cpush 5 ((blank 64)\<lparr>psp := 0\<rparr>) = Some (None, s') \<and> cvals s' = [5] \<and> pvals s' = [0]) \<and>
   (\<exists>s'. cpush 5 ((blank 64)\<lparr>psp := 60\<rparr>) = Some (None, s') \<and> \<not> stack_ok s')"
proof
  have f: "csp ((blank 64)\<lparr>psp := 0\<rparr>) = 60" "cbp ((blank 64)\<lparr>psp := 0\<rparr>) = 60" by (simp_all add: blank_def)
  show "\<exists>s'. cpush 5 ((blank 64)\<lparr>psp := 0\<rparr>) = Some (None, s') \<and> cvals s' = [5] \<and> pvals s' = [0]"
    using cpush_refines [OF blank_one_ok(1,2), of 5] by (simp add: blank_one_ok f pspInit_def) metis
  have "stack_ok ((blank 64)\<lparr>psp := 60\<rparr>)" "heap_inv 1 ((blank 64)\<lparr>psp := 60\<rparr>)"
    using blank_ok(2) by (simp_all add: stack_ok_def) (simp add: blank_def)
  from cpush_refines [OF this, of 5]
  show "\<exists>s'. cpush 5 ((blank 64)\<lparr>psp := 60\<rparr>) = Some (None, s') \<and> \<not> stack_ok s'"
    by (simp add: blank_def pspInit_def) blast
qed

text \<open>
  The first of the two cases, further: with \<open>csp\<close> at 0 a push succeeds, and
  \<open>csp\<close> wraps around to the top of the address space, above \<open>cbp\<close>: the stack then reads as
  underrun although values were only pushed.
\<close>
theorem cpush_wraps:
  assumes "stack_ok s" "heap_inv N s" "1 \<le> N" "csp s = 0"
  shows "\<exists>s'. cpush v s = Some (None, s') \<and> csp s' = pspInit \<and> word_of s' 0 = v \<and>
    cpop s' = Some ((0, Some (under ''control'')), s')"
proof -
  note n = stack_ok_nat [OF assms(1)]
  have al: "unat (csp s) mod 4 = 0" by (simp add: assms(4))
  obtain s1 where s1: "store (csp s) v s = Some (None, s1)" "heap_inv N s1" "stored s (unat (csp s)) v s1"
    and fr: "\<exists>h al ps sp. s1 = s\<lparr>heap := h, palloc := al, pages := ps, spare := sp\<rparr>"
    using store_aligned [OF assms(2,3) al] by metis
  have f: "cbp s1 = cbp s" using fr by auto
  have "\<not> (psp s < cbp s \<and> csp s - 4 < psp s)"
    using n unat_pspInit by (auto simp: word_less_nat_alt assms(4))
  then have "cpush v s = Some (None, s1\<lparr>csp := pspInit\<rparr>)"
    using s1(1) assms(4) by (simp add: cpush_def Let_def)
  moreover have "cbp s \<le> pspInit" using n(3) by (simp add: word_le_nat_alt unat_pspInit)
  then have "cpop (s1\<lparr>csp := pspInit\<rparr>) = Some ((0, Some (under ''control'')), s1\<lparr>csp := pspInit\<rparr>)"
    by (simp add: cpop_def f)
  moreover have "word_of s1 0 = v" using mem.rd_same [OF s1(3)] assms(4) by simp
  ultimately show ?thesis by simp
qed

theorem cpush_wraps_witness:
  "\<exists>s'. cpush 5 ((blank 64)\<lparr>csp := 0\<rparr>) = Some (None, s') \<and> csp s' = pspInit"
proof -
  have "stack_ok ((blank 64)\<lparr>csp := 0\<rparr>)" by (simp add: stack_ok_def blank_def unat_pspInit)
  with cpush_wraps [of "(blank 64)\<lparr>csp := 0\<rparr>" 1 5] blank_ok(2) show ?thesis by auto
qed

text \<open>Reading a whole stack: the range loops read consecutive words.\<close>

lemma fetch_up_words:
  assumes "heap_inv N s" "unat a mod 4 = 0" "unat a + 4 * n = unat b" "n < fuel"
  shows "fetch_up fuel a b s = Some (words word_of s (unat a) n, None)"
  using assms(2-)
proof (induction fuel arbitrary: n a)
  case (Suc fuel)
  show ?case
  proof (cases n)
    case 0
    with Suc.prems(2) have "\<not> a < b" by (simp add: word_less_nat_alt)
    with 0 show ?thesis by simp
  next
    case (Suc k)
    have "unat b < 4294967296" using unsigned_less [of b] by simp
    moreover have "unat b mod 4 = 0" using Suc.prems(1,2) by presburger
    ultimately have "unat b \<le> 4294967292" by presburger
    then have p4: "unat (a + 4) = unat a + 4" if "k \<noteq> 0"
      using Suc.prems(2) Suc that by (intro unat_add_4) simp
    have lt: "a < b" using Suc.prems(2) Suc by (simp add: word_less_nat_alt)
    have IH: "fetch_up fuel (a + 4) b s = Some (words word_of s (unat a + 4) k, None)"
    proof (cases k)
      case 0
      with Suc.prems(2) Suc \<open>unat b < 4294967296\<close> have "unat a + 4 = unat b" "unat a + 4 < 4294967296" by simp_all
      then have "a + 4 = b" by (simp add: word_unat_eq_iff unat_word_ariths)
      with 0 Suc.prems(3) Suc show ?thesis by (cases fuel) simp_all
    next
      case (Suc j)
      with Suc.IH [of "a + 4" k] Suc.prems p4 \<open>n = Suc k\<close> show ?thesis by simp
    qed
    with lt show ?thesis
      by (simp add: fetch_aligned [OF assms(1) Suc.prems(1)] Suc words_Cons)
  qed
qed simp

lemma fetch_down_words:
  assumes "heap_inv N s" "unat a mod 4 = 0" "unat a = unat b + 4 * n" "n < fuel"
  shows "fetch_down fuel a b s = Some (rev (words word_of s (unat b + 4) n), None)"
  using assms(2-)
proof (induction fuel arbitrary: n a)
  case (Suc fuel)
  show ?case
  proof (cases n)
    case 0
    with Suc.prems(2) have "\<not> b < a" by (simp add: word_less_nat_alt)
    with 0 show ?thesis by simp
  next
    case (Suc k)
    have m4: "unat (a - 4) = unat a - 4" using Suc.prems(2) Suc by (intro unat_sub_4) simp
    have lt: "b < a" using Suc.prems(2) Suc by (simp add: word_less_nat_alt)
    have "unat (a - 4) mod 4 = 0" using Suc.prems(1,2) Suc m4 by presburger
    with Suc.IH [of "a - 4" k] Suc.prems Suc m4
    have "fetch_down fuel (a - 4) b s = Some (rev (words word_of s (unat b + 4) k), None)" by simp
    with lt show ?thesis
      using Suc.prems(2) by (simp add: fetch_aligned [OF assms(1) Suc.prems(1)] Suc words_Suc add_ac)
  qed
qed simp

lemma fetch_stacks:
  assumes "stack_ok s" "heap_inv N s" "cells s < fuel"
  shows "fetchPS fuel s = Some (pvals s, None)" "fetchCS fuel s = Some (rev (cvals s), None)"
proof -
  note n = stack_ok_nat [OF assms(1)] and l = length_stacks(2-4) [OF assms(1)]
  show "fetchPS fuel s = Some (pvals s, None)"
  proof (cases "psp s = pspInit \<or> psp s = 0")
    case True
    then show ?thesis by (auto simp: fetchPS_def pvals_def pspInit_def)
  next
    case False
    then have ne: "psp s \<noteq> pspInit" "psp s \<noteq> 0" by simp_all
    have lt: "psp s < pspInit" "\<not> psp s > cbp s" "\<not> psp s > csp s" "0 < psp s"
      using n ne by (simp_all add: word_less_nat_alt unat_pspInit unat_gt_0)
    have "fetch_up fuel 0 (psp s) s = Some (words word_of s (unat (0 :: u32)) (unat (psp s) div 4), None)"
      using n(4) n(8) [OF ne(1)] l(3) assms(3) by (intro fetch_up_words [OF assms(2)]) auto
    with ne lt n(1) show ?thesis by (simp add: fetchPS_def fetchMany_def pvals_def)
  qed
  show "fetchCS fuel s = Some (rev (cvals s), None)"
  proof (cases "csp s = cbp s")
    case True
    then show ?thesis by (simp add: fetchCS_def cvals_def)
  next
    case False
    have lt: "csp s < cbp s" "\<not> (csp s < psp s \<and> psp s < cbp s)"
      using n False unat_pspInit by (auto simp: word_less_nat_alt word_unat_eq_iff)
    have "fetch_down fuel (cbp s) (csp s) s = Some (rev (words word_of s (unat (csp s) + 4) (length (cvals s))), None)"
      using n(2,6) l(2,3) assms(3) by (intro fetch_down_words [OF assms(2)]) auto
    moreover have "words word_of s (unat (csp s) + 4) (length (cvals s)) = cvals s" by (simp add: cvals_def)
    ultimately show ?thesis using lt False by (auto simp: fetchCS_def fetchMany_def)
  qed
qed

text \<open>
  The two stack dumps return exactly the stacks, the parameter stack with its head last and
  the control stack from its oldest value to its head.
\<close>
theorem stack_dumps:
  assumes "stack_ok s" "heap_inv N s" "cells s < fuel"
  shows "fetchPS fuel s = Some (pvals s, None) \<and> fetchCS fuel s = Some (rev (cvals s), None)"
  using fetch_stacks [OF assms] by blast

theorem stack_dumps_witness:
  "fetchPS 16 ((blank 64)\<lparr>psp := 0\<rparr>) = Some ([0], None) \<and>
   fetchCS 16 ((blank 64)\<lparr>psp := 0\<rparr>) = Some ([], None)"
  using stack_dumps [OF blank_one_ok(1,2), of 16] by (simp add: blank_one_ok)

end
