(* ===== verification/Machines.thy ===== *)
theory Machines
  imports Stack_Spec
begin

text \<open>
  Machines as objects: the allocators of \<open>alloc.go\<close>, the run queue of \<open>queue.go\<close>, and the
  functions \<open>copy\<close> and \<open>free\<close> of \<open>vm.go\<close>, by which machines share pages and give them back.
\<close>

subsection \<open>Allocation\<close>

text \<open>
  \<open>alloc_mach_of a n\<close> is \<open>AllocMach\<close> of the allocator \<open>a\<close> when \<open>n\<close> is the first unused address: the
  address of the machine and the array that its \<open>pages\<close> still has, or an error.
\<close>

fun alloc_mach_of :: "mach_alloc \<Rightarrow> nat \<Rightarrow> (merr + nat \<times> nat option list) \<times> mach_alloc \<times> nat" where
  "alloc_mach_of DefaultMachs n = (Inr (n, []), DefaultMachs, Suc n)"
| "alloc_mach_of (MachFreeList f) n =
     (if f \<noteq> [] then (Inr (last f), MachFreeList (butlast f), n)
      else (Inr (n, []), MachFreeList f, Suc n))"
| "alloc_mach_of (MaxMachCopies copies lim a) n =
     (if copies \<ge> lim then (Inl (MaxCopiesExceeded lim), MaxMachCopies copies lim a, n)
      else (let (r, a', n') = alloc_mach_of a n in (r, MaxMachCopies (Suc copies) lim a', n')))"

fun free_mach_of :: "mach_alloc \<Rightarrow> nat \<times> nat option list \<Rightarrow> mach_alloc" where
  "free_mach_of DefaultMachs x = DefaultMachs"
| "free_mach_of (MachFreeList f) x = MachFreeList (f @ [x])"
| "free_mach_of (MaxMachCopies copies lim a) x = MaxMachCopies copies lim (free_mach_of a x)"

definition AllocMach :: "vm \<Rightarrow> (merr + nat \<times> nat option list) \<times> vm" where
  "AllocMach s =
     (let (r, a, n) = alloc_mach_of (malloc s) (next_mach s) in (r, s\<lparr>malloc := a, next_mach := n\<rparr>))"

definition FreeMach :: "nat \<times> nat option list \<Rightarrow> vm \<Rightarrow> vm" where
  "FreeMach x s = s\<lparr>malloc := free_mach_of (malloc s) x\<rparr>"

subsection \<open>The run queue\<close>

definition Enqueue :: "nat \<times> mach \<Rightarrow> vm \<Rightarrow> merr option \<times> vm" where
  "Enqueue m s =
     (case runq s of
        NoQueue \<Rightarrow> (Some ErrNoQueue, s)
      | RunQ cap q \<Rightarrow>
          if length q = cap then (Some ErrRunQFull, s)
          else (None, s\<lparr>runq := RunQ cap (q @ [m])\<rparr>))"

definition Dequeue :: "vm \<Rightarrow> (nat \<times> mach) option \<times> vm" where
  "Dequeue s =
     (case runq s of
        NoQueue \<Rightarrow> (None, s)
      | RunQ cap q \<Rightarrow>
          if length q = 0 then (None, s)
          else (Some (q ! (length q - 1)), s\<lparr>runq := RunQ cap (take (length q - 1) q)\<rparr>))"

subsection \<open>Copying and freeing\<close>

text \<open>The loops over \<open>m.pages\<close>: every page gains, or loses, one reference.\<close>

fun retain :: "nat option list \<Rightarrow> vm \<Rightarrow> vm" where
  "retain [] s = s"
| "retain (None # t) s = retain t s"
| "retain (Some p # t) s = retain t (upd_page p (rc_update (\<lambda>r. r + 1)) s)"

fun release :: "nat option list \<Rightarrow> vm \<Rightarrow> vm" where
  "release [] s = s"
| "release (None # t) s = release t s"
| "release (Some p # t) s =
     (let s = upd_page p (rc_update (\<lambda>r. r - 1)) s
      in release t (if rc (heap s ! p) \<le>s 0 then FreePage p s else s))"

text \<open>
  The copy takes over the array of the allocated machine when that is long enough: only the
  entries of pages that exist are written into it.
\<close>

definition copy :: "vm \<Rightarrow> (merr + nat \<times> mach) \<times> vm" where
  "copy s =
     (case AllocMach s of
        (Inl e, s) \<Rightarrow> (Inl e, s)
      | (Inr (a, pgs), s) \<Rightarrow>
          (let len = length (pages s);
               pgs = (if length pgs < len then replicate len None else pgs);
               tab = map2 (\<lambda>pg old. if pg \<noteq> None then pg else old) (pages s) pgs
           in (Inr (a, (cur s)\<lparr>pages := tab, spare := drop len pgs\<rparr>), retain (pages s) s)))"

definition free :: "vm \<Rightarrow> vm" where
  "free s =
     (let s = release (pages s) s;
          arr = replicate (length (pages s)) None @ spare s
      in FreeMach (self s, arr) (s\<lparr>pages := [], spare := arr\<rparr>))"

end
