(* ===== verification/Control.thy ===== *)
theory Control
  imports Machines
begin

text \<open>
  Control flow of \<open>vm.go\<close>: jumps, calls, and the four ways to continue in two machines.  An
  offset is an \<open>int32\<close>, added to \<open>ip\<close> with wrap-around.
\<close>

subsection \<open>Jumps and calls\<close>

definition jumpTo :: "u32 \<Rightarrow> vm \<Rightarrow> merr option \<times> vm" where
  "jumpTo a s = (if a \<ge> pbp s \<and> a \<le> cbp s then (Some ErrSegfault, s) else (None, s\<lparr>ip := a\<rparr>))"

definition jump :: "u32 \<Rightarrow> vm \<Rightarrow> merr option \<times> vm" where
  "jump off s = jumpTo (ip s + off) s"

definition cjump :: "vm \<Rightarrow> (merr option \<times> vm) option" where
  "cjump s =
     do {
       ((a, e), s) \<leftarrow> cpop s;
       if e \<noteq> None then Some (e, s) else Some (jumpTo a s)
     }"

definition call :: "u32 \<Rightarrow> vm \<Rightarrow> (merr option \<times> vm) option" where
  "call a s =
     (if a \<ge> pbp s \<and> a \<le> cbp s then Some (Some ErrSegfault, s)
      else do {
        (e, s) \<leftarrow> cpush (ip s) s;
        if e \<noteq> None then Some (e, s) else Some (jumpTo a s)
      })"

definition ret :: "vm \<Rightarrow> (merr option \<times> vm) option" where
  "ret s =
     do {
       ((a, e), s) \<leftarrow> cpop s;
       if e \<noteq> None then Some (e, s) else Some (jumpTo a s)
     }"

subsection \<open>Forking and branching\<close>

text \<open>A fork continues in the copy at the target, a branch continues in the original.\<close>

definition fork :: "u32 \<Rightarrow> vm \<Rightarrow> merr option \<times> vm" where
  "fork off s =
     (let a = ip s + off
      in if a \<ge> pbp s \<and> a \<le> cbp s then (Some ErrSegfault, s)
         else case copy s of
           (Inl e, s) \<Rightarrow> (Some e, s)
         | (Inr (na, n), s) \<Rightarrow> Enqueue (na, n\<lparr>ip := a\<rparr>) s)"

text \<open>\<open>n.cpop\<close> and \<open>n.jumpTo\<close> run on the copy: the state is switched to it and back.\<close>

definition cfork :: "vm \<Rightarrow> (merr option \<times> vm) option" where
  "cfork s =
     (case copy s of
        (Inl e, s) \<Rightarrow> Some (Some e, s)
      | (Inr (na, n), s) \<Rightarrow>
          do {
            ((a, e), t) \<leftarrow> cpop (switch na n s);
            if e \<noteq> None then Some (e, switch (self s) (cur s) t)
            else (let (e, t) = jumpTo a t
                  in if e \<noteq> None then Some (e, switch (self s) (cur s) t)
                     else Some (Enqueue (na, cur t) (switch (self s) (cur s) t)))
          })"

definition branch :: "u32 \<Rightarrow> vm \<Rightarrow> merr option \<times> vm" where
  "branch off s =
     (let a = ip s + off
      in if a \<ge> pbp s \<and> a \<le> cbp s then (Some ErrSegfault, s)
         else case copy s of
           (Inl e, s) \<Rightarrow> (Some e, s)
         | (Inr n, s) \<Rightarrow> Enqueue n (s\<lparr>ip := a\<rparr>))"

definition cbranch :: "vm \<Rightarrow> (merr option \<times> vm) option" where
  "cbranch s =
     (case copy s of
        (Inl e, s) \<Rightarrow> Some (Some e, s)
      | (Inr n, s) \<Rightarrow>
          do {
            ((a, e), s) \<leftarrow> cpop s;
            if e \<noteq> None then Some (e, s)
            else (let (e, s) = Enqueue n s
                  in if e \<noteq> None then Some (e, s) else Some (jumpTo a s))
          })"

end
