(* ===== verification/Exec.thy ===== *)
theory Exec
  imports Control
begin

text \<open>
  Decoding and execution: the decode cache, \<open>read\<close>, \<open>validate\<close> and \<open>step\<close> of \<open>vm.go\<close>.

  The \<open>switch\<close> of \<open>step\<close> is divided, in its order, into one definition for each group of its
  cases (its comments name the groups); a group passes an operation that is not its own to the
  next, and the last is the default case.
\<close>

subsection \<open>The decode cache\<close>

definition get :: "u32 \<Rightarrow> vm \<Rightarrow> cachedOp option" where
  "get k s =
     (let cos = caches s ! opc s
      in if unat k < length cos \<and> co_ip (cos ! unat k) \<noteq> 0 then Some (cos ! unat k) else None)"

definition no_op :: cachedOp where
  "no_op = \<lparr>co_ip = 0, co_code = 0, co_arg = 0\<rparr>"

text \<open>
  A longer array is a new one, which the machines that share the old one do not see.  Its length
  is \<open>k+1\<close> in \<open>uint32\<close>: for the largest \<open>k\<close> it is 0 and the assignment panics.
\<close>

definition set_op :: "u32 \<Rightarrow> cachedOp \<Rightarrow> vm \<Rightarrow> vm option" where
  "set_op k co s =
     (let cos = caches s ! opc s
      in if unat k \<ge> length cos then
           (let n = unat (k + 1);
                cos = take n cos @ replicate (n - length cos) no_op
            in if unat k < n
               then Some (s\<lparr>caches := caches s @ [cos[unat k := co]], opc := length (caches s)\<rparr>)
               else None)
         else Some (s\<lparr>caches := (caches s)[opc s := cos[unat k := co]]\<rparr>))"

text \<open>\<open>ops\<close> has 128 entries, and the code without its immediate bit is less than that.\<close>

definition validate :: "u8 \<Rightarrow> u32 \<Rightarrow> merr option" where
  "validate code arg =
     (let have = hasImm code;
          d = ops ! unat (opcode_code code)
      in if od_name d = '''' then Some (InvalidOp code (if have then Some arg else None))
         else if have \<and> imm_kind (od_imm d) = opImmNone then Some (UnexpectedImm arg (od_name d))
         else if \<not> have \<and> imm_required (od_imm d) then Some (MissingImm (od_name d))
         else None)"

text \<open>\<open>read\<close> is Go's \<open>(end, code, arg, err)\<close>.\<close>

definition read :: "u32 \<Rightarrow> vm \<Rightarrow> u32 \<times> u8 \<times> u32 \<times> merr option" where
  "read addr s =
     (let (n, bs) = fetchBytes addr (replicate 6 0) s;
          (k, arg, c, ok) = readVarCode (take n bs)
      in (addr + of_nat k, c, arg,
          if ok then validate c arg
          else if n < length bs then Some ErrInvalidIP else Some ErrVarIntTooBig))"

subsection \<open>Idioms of the cases\<close>

text \<open>\<open>m.err = \<dots>\<close> of a call that returns an error.\<close>

definition seterr :: "(merr option \<times> vm) option \<Rightarrow> vm option" where
  "seterr r = do { (e, s) \<leftarrow> r; Some (s\<lparr>err := e\<rparr>) }"

text \<open>\<open>val, err := m.pop(); if err == nil { err = \<dots> }; m.err = err\<close>.\<close>

definition popping :: "(u32 \<Rightarrow> vm \<Rightarrow> (merr option \<times> vm) option) \<Rightarrow> vm \<Rightarrow> vm option" where
  "popping f s =
     do {
       ((v, e), s) \<leftarrow> pop s;
       if e \<noteq> None then Some (s\<lparr>err := e\<rparr>) else seterr (f v s)
     }"

text \<open>The same with \<open>m.pa = f(m.pa, b)\<close> as its body, and with its test inverted.\<close>

definition binop :: "(u32 \<Rightarrow> u32 \<Rightarrow> u32) \<Rightarrow> vm \<Rightarrow> vm option" where
  "binop f = popping (\<lambda>b s. Some (None, s\<lparr>pa := f (pa s) b\<rparr>))"

definition binop_inverted :: "(u32 \<Rightarrow> u32 \<Rightarrow> u32) \<Rightarrow> vm \<Rightarrow> vm option" where
  "binop_inverted f s =
     do {
       ((b, e), s) \<leftarrow> pop s;
       Some ((if e \<noteq> None then s\<lparr>pa := f (pa s) b\<rparr> else s)\<lparr>err := e\<rparr>)
     }"

definition unop :: "(u32 \<Rightarrow> u32) \<Rightarrow> vm \<Rightarrow> vm option" where
  "unop f s = Some (s\<lparr>pa := f (pa s)\<rparr>)"

text \<open>\<open>for i := 0; i < arg && m.err == nil; i++ { \<dots> }\<close>.\<close>

fun times :: "nat \<Rightarrow> (vm \<Rightarrow> vm option) \<Rightarrow> vm \<Rightarrow> vm option" where
  "times 0 f s = Some s"
| "times (Suc n) f s = (if err s = None then do { s \<leftarrow> f s; times n f s } else Some s)"

text \<open>\<open>rem\<close> on \<open>int32\<close>, and the unsigned division; both panic on a zero divisor.\<close>

definition rem :: "u32 \<Rightarrow> u32 \<Rightarrow> u32 option" where
  "rem a b =
     (if b = 0 then None
      else (let x = word_of_int (go_rem (sint a) (sint b)) :: u32
            in Some (if x <s 0 then x + b else x)))"

definition udiv :: "u32 \<Rightarrow> u32 \<Rightarrow> u32 option" where
  "udiv a b = (if b = 0 then None else Some (a div b))"

definition bool2uint32 :: "bool \<Rightarrow> u32" where
  "bool2uint32 b = (if b then 1 else 0)"

subsection \<open>The cases\<close>

definition exec_halt :: "u8 \<Rightarrow> u32 \<Rightarrow> vm \<Rightarrow> vm option" where
  "exec_halt code arg s =
     (case op_of (opcode_code code) of
        Some OpHalt \<Rightarrow> Some (s\<lparr>pa := arg, err := Some ErrHalted\<rparr>)
      | Some OpHz \<Rightarrow>
          popping (\<lambda>v s. Some (if v = 0 then (Some ErrHalted, s\<lparr>pa := arg\<rparr>) else (None, s))) s
      | Some OpHnz \<Rightarrow>
          popping (\<lambda>v s. Some (if v \<noteq> 0 then (Some ErrHalted, s\<lparr>pa := arg\<rparr>) else (None, s))) s
      | _ \<Rightarrow> Some (s\<lparr>err := Some (UnimplementedOp code)\<rparr>))"

definition exec_branch :: "u8 \<Rightarrow> u32 \<Rightarrow> vm \<Rightarrow> vm option" where
  "exec_branch code arg s =
     (case (op_of (opcode_code code), hasImm code) of
        (Some OpBranch, False) \<Rightarrow> popping (\<lambda>v s. Some (branch v s)) s
      | (Some OpBnz, False) \<Rightarrow>
          do {
            ((v, e), s) \<leftarrow> pop s;
            if e \<noteq> None \<and> v \<noteq> 0 then seterr (cbranch s) else Some (s\<lparr>err := e\<rparr>)
          }
      | (Some OpBz, False) \<Rightarrow> popping (\<lambda>v s. if v = 0 then cbranch s else Some (None, s)) s
      | (Some OpBranch, True) \<Rightarrow> seterr (Some (branch arg s))
      | (Some OpBnz, True) \<Rightarrow>
          popping (\<lambda>v s. Some (if v \<noteq> 0 then branch arg s else (None, s))) s
      | (Some OpBz, True) \<Rightarrow>
          popping (\<lambda>v s. Some (if v = 0 then branch arg s else (None, s))) s
      | _ \<Rightarrow> exec_halt code arg s)"

definition exec_fork :: "u8 \<Rightarrow> u32 \<Rightarrow> vm \<Rightarrow> vm option" where
  "exec_fork code arg s =
     (case (op_of (opcode_code code), hasImm code) of
        (Some OpFork, False) \<Rightarrow> popping (\<lambda>v s. Some (fork v s)) s
      | (Some OpFnz, False) \<Rightarrow> popping (\<lambda>v s. if v \<noteq> 0 then cfork s else Some (None, s)) s
      | (Some OpFz, False) \<Rightarrow> popping (\<lambda>v s. if v = 0 then cfork s else Some (None, s)) s
      | (Some OpFork, True) \<Rightarrow> seterr (Some (fork arg s))
      | (Some OpFnz, True) \<Rightarrow> popping (\<lambda>v s. Some (if v \<noteq> 0 then fork arg s else (None, s))) s
      | (Some OpFz, True) \<Rightarrow> popping (\<lambda>v s. Some (if v = 0 then fork arg s else (None, s))) s
      | _ \<Rightarrow> exec_branch code arg s)"

definition exec_call :: "u8 \<Rightarrow> u32 \<Rightarrow> vm \<Rightarrow> vm option" where
  "exec_call code arg s =
     (case (op_of (opcode_code code), hasImm code) of
        (Some OpCall, False) \<Rightarrow> popping call s
      | (Some OpRet, False) \<Rightarrow> seterr (ret s)
      | (Some OpCall, True) \<Rightarrow> seterr (call arg s)
      | _ \<Rightarrow> exec_fork code arg s)"

text \<open>In \<open>jz\<close> with an immediate the error of the jump is overwritten by the one of the pop.\<close>

definition exec_jump :: "u8 \<Rightarrow> u32 \<Rightarrow> vm \<Rightarrow> vm option" where
  "exec_jump code arg s =
     (case (op_of (opcode_code code), hasImm code) of
        (Some OpJump, False) \<Rightarrow> popping (\<lambda>v s. Some (jump v s)) s
      | (Some OpJnz, False) \<Rightarrow> popping (\<lambda>v s. if v \<noteq> 0 then cjump s else Some (None, s)) s
      | (Some OpJz, False) \<Rightarrow> popping (\<lambda>v s. if v = 0 then cjump s else Some (None, s)) s
      | (Some OpJump, True) \<Rightarrow> seterr (Some (jump arg s))
      | (Some OpJnz, True) \<Rightarrow> popping (\<lambda>v s. Some (if v \<noteq> 0 then jump arg s else (None, s))) s
      | (Some OpJz, True) \<Rightarrow>
          do {
            ((v, e), s) \<leftarrow> pop s;
            let s = (if e = None \<and> v = 0 then (let (e', s) = jump arg s in s\<lparr>err := e'\<rparr>) else s);
            Some (s\<lparr>err := e\<rparr>)
          }
      | _ \<Rightarrow> exec_call code arg s)"

definition p2c :: "vm \<Rightarrow> vm option" where
  "p2c = popping cpush"

definition c2p :: "vm \<Rightarrow> vm option" where
  "c2p s =
     do {
       ((v, e), s) \<leftarrow> cpop s;
       if e \<noteq> None then Some (s\<lparr>err := e\<rparr>) else seterr (push v s)
     }"

definition cpop_discard :: "vm \<Rightarrow> vm option" where
  "cpop_discard s = do { ((v, e), s) \<leftarrow> cpop s; Some (s\<lparr>err := e\<rparr>) }"

definition exec_cstack :: "u8 \<Rightarrow> u32 \<Rightarrow> vm \<Rightarrow> vm option" where
  "exec_cstack code arg s =
     (case (op_of (opcode_code code), hasImm code) of
        (Some OpMark, False) \<Rightarrow> seterr (cpush (ip s) s)
      | (Some OpCpop, False) \<Rightarrow> cpop_discard s
      | (Some OpP2C, False) \<Rightarrow> p2c s
      | (Some OpC2P, False) \<Rightarrow> c2p s
      | (Some OpCpush, True) \<Rightarrow> seterr (cpush arg s)
      | (Some OpCpop, True) \<Rightarrow> times (unat arg) cpop_discard s
      | (Some OpP2C, True) \<Rightarrow> times (unat arg) p2c s
      | (Some OpC2P, True) \<Rightarrow> times (unat arg) c2p s
      | _ \<Rightarrow> exec_jump code arg s)"

text \<open>
  The bit operations take a bit number \<open>n\<close> relative to \<open>addr\<close>, 32 to a word.  (The address advances
  by one byte, not by one word, for every 32 bits.)
\<close>

definition bitest :: "u32 \<Rightarrow> vm \<Rightarrow> (merr option \<times> vm) option" where
  "bitest addr s =
     (let n = pa s; addr = addr + n div 32; n = n mod 32
      in do {
        (v, e) \<leftarrow> fetch addr s;
        Some (e, s\<lparr>pa := if e = None then drop_bit (unat n) (v AND push_bit (unat n) 1) else v\<rparr>)
      })"

definition update_word :: "(u32 \<Rightarrow> u32 \<Rightarrow> u32) \<Rightarrow> u32 \<Rightarrow> u32 \<Rightarrow> vm \<Rightarrow> vm option" where
  "update_word f addr n s =
     (case ref (addr + n div 32) s of
        (Inl e, s) \<Rightarrow> Some (s\<lparr>err := Some e\<rparr>)
      | (Inr p, s) \<Rightarrow> do { w \<leftarrow> load p s; store_to p (f w (push_bit (unat (n mod 32)) 1)) s })"

definition set_bit_at :: "u32 \<Rightarrow> u32 \<Rightarrow> vm \<Rightarrow> vm option" where
  "set_bit_at = update_word (\<lambda>w nm. w OR nm)"

definition clear_bit_at :: "u32 \<Rightarrow> u32 \<Rightarrow> vm \<Rightarrow> vm option" where
  "clear_bit_at = update_word (\<lambda>w nm. w AND NOT nm)"

definition bitseta :: "u32 \<Rightarrow> vm \<Rightarrow> vm option" where
  "bitseta addr s =
     (let n = pa s
      in case ref (addr + n div 32) s of
        (Inl e, s) \<Rightarrow> Some (s\<lparr>err := Some e\<rparr>)
      | (Inr p, s) \<Rightarrow>
          (let nm = push_bit (unat (n mod 32)) 1
           in do {
             w \<leftarrow> load p s;
             if w AND nm \<noteq> 0 then Some (s\<lparr>pa := 0\<rparr>)
             else do { s \<leftarrow> store_to p (w OR nm) s; Some (s\<lparr>pa := 1\<rparr>) }
           }))"

definition bitosta :: "u32 \<Rightarrow> vm \<Rightarrow> vm option" where
  "bitosta addr s =
     (let n = pa s
      in case ref (addr + n div 32) s of
        (Inl e, s) \<Rightarrow> Some (s\<lparr>err := Some e\<rparr>)
      | (Inr p, s) \<Rightarrow>
          (let nm = push_bit (unat (n mod 32)) 1
           in do {
             w \<leftarrow> load p s;
             if w AND nm \<noteq> 0 then do { s \<leftarrow> store_to p (w AND NOT nm) s; Some (s\<lparr>pa := 1\<rparr>) }
             else Some (s\<lparr>pa := 0\<rparr>)
           }))"

text \<open>\<open>val, err := m.pop(); if err != nil { m.err = err; break }; \<dots>\<close>.\<close>

definition pop_or_break :: "(u32 \<Rightarrow> vm \<Rightarrow> vm option) \<Rightarrow> vm \<Rightarrow> vm option" where
  "pop_or_break f s =
     do {
       ((v, e), s) \<leftarrow> pop s;
       if e \<noteq> None then Some (s\<lparr>err := e\<rparr>) else f v s
     }"

definition exec_bitvector :: "u8 \<Rightarrow> u32 \<Rightarrow> vm \<Rightarrow> vm option" where
  "exec_bitvector code arg s =
     (case (op_of (opcode_code code), hasImm code) of
        (Some OpBitest, False) \<Rightarrow> popping bitest s
      | (Some OpBitest, True) \<Rightarrow> seterr (bitest arg s)
      | (Some OpBitset, False) \<Rightarrow>
          pop_or_break (\<lambda>addr. pop_or_break (\<lambda>n. set_bit_at addr n)) s
      | (Some OpBitset, True) \<Rightarrow> pop_or_break (\<lambda>n. set_bit_at arg n) s
      | (Some OpBitost, False) \<Rightarrow>
          pop_or_break (\<lambda>addr. pop_or_break (\<lambda>n. clear_bit_at addr n)) s
      | (Some OpBitost, True) \<Rightarrow> pop_or_break (\<lambda>n. clear_bit_at arg n) s
      | (Some OpBitseta, False) \<Rightarrow> pop_or_break bitseta s
      | (Some OpBitseta, True) \<Rightarrow> bitseta arg s
      | (Some OpBitosta, False) \<Rightarrow> pop_or_break bitosta s
      | (Some OpBitosta, True) \<Rightarrow> bitosta arg s
      | _ \<Rightarrow> exec_cstack code arg s)"

definition exec_bitwise :: "u8 \<Rightarrow> u32 \<Rightarrow> vm \<Rightarrow> vm option" where
  "exec_bitwise code arg s =
     (case (op_of (opcode_code code), hasImm code) of
        (Some OpBitnot, False) \<Rightarrow> unop (\<lambda>a. NOT a) s
      | (Some OpBitand, False) \<Rightarrow> binop (\<lambda>a b. a AND b) s
      | (Some OpBitor, False) \<Rightarrow> binop (\<lambda>a b. a OR b) s
      | (Some OpBitxor, False) \<Rightarrow> binop (\<lambda>a b. a XOR b) s
      | (Some OpShiftl, False) \<Rightarrow> binop (\<lambda>a b. push_bit (unat b) a) s
      | (Some OpShiftr, False) \<Rightarrow> binop (\<lambda>a b. drop_bit (unat b) a) s
      | (Some OpBitand, True) \<Rightarrow> unop (\<lambda>a. a AND arg) s
      | (Some OpBitor, True) \<Rightarrow> unop (\<lambda>a. a OR arg) s
      | (Some OpBitxor, True) \<Rightarrow> unop (\<lambda>a. a XOR arg) s
      | (Some OpShiftl, True) \<Rightarrow> unop (\<lambda>a. push_bit (unat arg) a) s
      | (Some OpShiftr, True) \<Rightarrow> unop (\<lambda>a. drop_bit (unat arg) a) s
      | _ \<Rightarrow> exec_bitvector code arg s)"

text \<open>In \<open>gte\<close>, \<open>and\<close> and \<open>or\<close> the result is computed when the pop has failed.\<close>

definition exec_boolean :: "u8 \<Rightarrow> u32 \<Rightarrow> vm \<Rightarrow> vm option" where
  "exec_boolean code arg s =
     (case (op_of (opcode_code code), hasImm code) of
        (Some OpLt, False) \<Rightarrow> binop (\<lambda>a b. bool2uint32 (a < b)) s
      | (Some OpLte, False) \<Rightarrow> binop (\<lambda>a b. bool2uint32 (a \<le> b)) s
      | (Some OpEq, False) \<Rightarrow> binop (\<lambda>a b. bool2uint32 (a = b)) s
      | (Some OpNeq, False) \<Rightarrow> binop (\<lambda>a b. bool2uint32 (a \<noteq> b)) s
      | (Some OpGt, False) \<Rightarrow> binop (\<lambda>a b. bool2uint32 (a > b)) s
      | (Some OpGte, False) \<Rightarrow> binop_inverted (\<lambda>a b. bool2uint32 (a \<ge> b)) s
      | (Some OpNot, False) \<Rightarrow> unop (\<lambda>a. bool2uint32 (a = 0)) s
      | (Some OpAnd, False) \<Rightarrow> binop_inverted (\<lambda>a b. bool2uint32 (a \<noteq> 0 \<and> b \<noteq> 0)) s
      | (Some OpOr, False) \<Rightarrow> binop_inverted (\<lambda>a b. bool2uint32 (a \<noteq> 0 \<or> b \<noteq> 0)) s
      | (Some OpLt, True) \<Rightarrow> unop (\<lambda>a. bool2uint32 (a < arg)) s
      | (Some OpLte, True) \<Rightarrow> unop (\<lambda>a. bool2uint32 (a \<le> arg)) s
      | (Some OpEq, True) \<Rightarrow> unop (\<lambda>a. bool2uint32 (a = arg)) s
      | (Some OpNeq, True) \<Rightarrow> unop (\<lambda>a. bool2uint32 (a \<noteq> arg)) s
      | (Some OpGt, True) \<Rightarrow> unop (\<lambda>a. bool2uint32 (a > arg)) s
      | (Some OpGte, True) \<Rightarrow> unop (\<lambda>a. bool2uint32 (a \<ge> arg)) s
      | _ \<Rightarrow> exec_bitwise code arg s)"

text \<open>\<open>divmod\<close> with an immediate takes the remainder of the quotient, which \<open>pa\<close> then holds.\<close>

definition divmod :: "vm \<Rightarrow> vm option" where
  "divmod s =
     (case pRef 2 s of
        (Inl e, s) \<Rightarrow> Some (s\<lparr>err := Some e\<rparr>)
      | (Inr bp, s) \<Rightarrow>
          do {
            b \<leftarrow> load bp s;
            let v = pa s;
            q \<leftarrow> udiv v b;
            let s = s\<lparr>pa := q\<rparr>;
            r \<leftarrow> rem v b;
            s \<leftarrow> store_to bp r s;
            Some (s\<lparr>err := None\<rparr>)
          })"

definition exec_math :: "u8 \<Rightarrow> u32 \<Rightarrow> vm \<Rightarrow> vm option" where
  "exec_math code arg s =
     (case (op_of (opcode_code code), hasImm code) of
        (Some OpNeg, False) \<Rightarrow> unop (\<lambda>a. - a) s
      | (Some OpAdd, False) \<Rightarrow> binop (\<lambda>a b. a + b) s
      | (Some OpSub, False) \<Rightarrow> binop (\<lambda>a b. a - b) s
      | (Some OpMul, False) \<Rightarrow> binop (\<lambda>a b. a * b) s
      | (Some OpDiv, False) \<Rightarrow>
          popping (\<lambda>b s. do { q \<leftarrow> udiv (pa s) b; Some (None, s\<lparr>pa := q\<rparr>) }) s
      | (Some OpMod, False) \<Rightarrow>
          popping (\<lambda>b s. do { r \<leftarrow> rem (pa s) b; Some (None, s\<lparr>pa := r\<rparr>) }) s
      | (Some OpDivmod, False) \<Rightarrow> divmod s
      | (Some OpAdd, True) \<Rightarrow> unop (\<lambda>a. a + arg) s
      | (Some OpSub, True) \<Rightarrow> unop (\<lambda>a. a - arg) s
      | (Some OpMul, True) \<Rightarrow> unop (\<lambda>a. a * arg) s
      | (Some OpDiv, True) \<Rightarrow> do { q \<leftarrow> udiv (pa s) arg; Some (s\<lparr>pa := q\<rparr>) }
      | (Some OpMod, True) \<Rightarrow> do { r \<leftarrow> rem (pa s) arg; Some (s\<lparr>pa := r\<rparr>) }
      | (Some OpDivmod, True) \<Rightarrow>
          do { q \<leftarrow> udiv (pa s) arg; let s = s\<lparr>pa := q\<rparr>; r \<leftarrow> rem (pa s) arg; seterr (push r s) }
      | _ \<Rightarrow> exec_boolean code arg s)"

text \<open>
  In \<open>fetch\<close> without an immediate the inner \<open>err\<close> is another variable, so that the errors of the
  fetch and of the push are lost.
\<close>

definition exec_memory :: "u8 \<Rightarrow> u32 \<Rightarrow> vm \<Rightarrow> vm option" where
  "exec_memory code arg s =
     (case (op_of (opcode_code code), hasImm code) of
        (Some OpFetch, False) \<Rightarrow>
          popping (\<lambda>addr s. do {
              (v, e) \<leftarrow> fetch addr s;
              if e \<noteq> None then Some (None, s)
              else do { (e, s) \<leftarrow> push v s; Some (None, s) }
            }) s
      | (Some OpStore, False) \<Rightarrow>
          popping (\<lambda>val s. do {
              ((addr, e), s) \<leftarrow> pop s;
              if e \<noteq> None then Some (e, s) else store addr val s
            }) s
      | (Some OpStoreto, False) \<Rightarrow>
          popping (\<lambda>addr s. do {
              ((val, e), s) \<leftarrow> pop s;
              if e \<noteq> None then Some (e, s) else store addr val s
            }) s
      | (Some OpFetch, True) \<Rightarrow>
          do {
            (v, e) \<leftarrow> fetch arg s;
            if e \<noteq> None then Some (s\<lparr>err := e\<rparr>) else seterr (push v s)
          }
      | (Some OpStore, True) \<Rightarrow> popping (\<lambda>addr. store addr arg) s
      | (Some OpStoreto, True) \<Rightarrow> popping (\<lambda>val. store arg val) s
      | _ \<Rightarrow> exec_math code arg s)"

definition swap :: "u32 \<Rightarrow> vm \<Rightarrow> vm option" where
  "swap i s =
     (if psp s = pspInit then Some (s\<lparr>err := Some (under ''param'')\<rparr>)
      else case pRef i s of
        (Inl e, s) \<Rightarrow> Some (s\<lparr>err := Some e\<rparr>)
      | (Inr p, s) \<Rightarrow>
          do {
            v \<leftarrow> load p s;
            s \<leftarrow> store_to p (pa s) (s\<lparr>pa := v\<rparr>);
            Some (s\<lparr>err := None\<rparr>)
          })"

definition exec_stack :: "u8 \<Rightarrow> u32 \<Rightarrow> vm \<Rightarrow> vm option" where
  "exec_stack code arg s =
     (case (op_of (opcode_code code), hasImm code) of
        (Some OpNop, False) \<Rightarrow> Some s
      | (Some OpCrash, False) \<Rightarrow> Some (s\<lparr>err := Some ErrCrashed\<rparr>)
      | (Some OpPush, False) \<Rightarrow> seterr (push 0 s)
      | (Some OpPush, True) \<Rightarrow> seterr (push arg s)
      | (Some OpPop, False) \<Rightarrow> seterr (drop_m s)
      | (Some OpPop, True) \<Rightarrow>
          if arg = 1 then seterr (drop_m s) else times (unat arg) (\<lambda>s. seterr (drop_m s)) s
      | (Some OpDup, False) \<Rightarrow> seterr (push (pa s) s)
      | (Some OpDup, True) \<Rightarrow>
          if arg = 1 then seterr (push (pa s) s)
          else (case pRef arg s of
              (Inl e, s) \<Rightarrow> Some (s\<lparr>err := Some e\<rparr>)
            | (Inr p, s) \<Rightarrow> do { v \<leftarrow> load p s; seterr (push v s) })
      | (Some OpSwap, False) \<Rightarrow> swap 2 s
      | (Some OpSwap, True) \<Rightarrow> swap (1 + arg) s
      | _ \<Rightarrow> exec_memory code arg s)"

definition exec :: "u8 \<Rightarrow> u32 \<Rightarrow> vm \<Rightarrow> vm option" where
  "exec = exec_stack"

subsection \<open>One step\<close>

definition step :: "vm \<Rightarrow> vm option" where
  "step s =
     (if limit s \<noteq> 0 \<and> count s \<ge> limit s then Some (s\<lparr>err := Some ErrLimit\<rparr>)
      else
        (let s = (if limit s \<noteq> 0 then s\<lparr>count := count s + 1\<rparr> else s);
             ck = ip s - cbp s
         in case get ck s of
           Some oc \<Rightarrow> exec (co_code oc) (co_arg oc) (s\<lparr>ip := co_ip oc\<rparr>)
         | None \<Rightarrow>
             (let (end, code, arg, e) = read (ip s) s;
                  s = s\<lparr>err := e\<rparr>
              in if e \<noteq> None then Some s
                 else do {
                   s \<leftarrow> set_op ck \<lparr>co_ip = end, co_code = code, co_arg = arg\<rparr> s;
                   exec code arg (s\<lparr>ip := end\<rparr>)
                 })))"

end
