(* ===== verification/Invariant.thy ===== *)
theory Invariant
  imports Exec
begin

text \<open>
  What it takes for a property to be an invariant of \<open>step\<close>.  Locale \<open>quiet_invariant\<close> lists the
  operations of the machine that the cases of the switch are made of, and proves once that a
  property kept by each of them is kept by every operation code but those that make machines; locale
  \<open>exec_invariant\<close> has these too; locale \<open>mem_invariant\<close> derives
  these laws for properties that do not depend on the registers.  The invariant is indexed: a step
  makes at most one machine, and takes index \<open>n\<close> to \<open>n + 1\<close>.
\<close>

definition kept :: "('s \<Rightarrow> bool) \<Rightarrow> 's option \<Rightarrow> bool" where
  "kept P r \<longleftrightarrow> (\<forall>s. r = Some s \<longrightarrow> P s)"

lemma kept_simps [simp]: "kept P None" "kept P (Some s) \<longleftrightarrow> P s"
  by (simp_all add: kept_def)

lemma kept_bind:
  assumes "keeps P r" and "\<And>x s. P s \<Longrightarrow> kept Q (f (x, s))"
  shows "kept Q (Option.bind r f)"
  using assms by (cases r) (auto simp: keeps_def kept_def)

lemma kept_bind_pure: "(\<And>x. r = Some x \<Longrightarrow> kept Q (f x)) \<Longrightarrow> kept Q (Option.bind r f)"
  by (cases r) auto

lemma kept_mono: "kept P r \<Longrightarrow> (\<And>s. P s \<Longrightarrow> Q s) \<Longrightarrow> kept Q r"
  by (auto simp: kept_def)

lemma kept_then: "kept P r \<Longrightarrow> (\<And>s. P s \<Longrightarrow> kept Q (f s)) \<Longrightarrow> kept Q (Option.bind r f)"
  by (cases r) auto

lemma keeps_pair: "keeps P (Some r) \<longleftrightarrow> P (snd r)"
  by (cases r) simp

text \<open>The operations that make machines.\<close>

definition forks :: "u8 \<Rightarrow> bool" where
  "forks c \<longleftrightarrow> op_of (opcode_code c) \<in> Some ` {OpFork, OpFnz, OpFz, OpBranch, OpBnz, OpBz}"

lemma exec_forks: "forks c \<Longrightarrow> exec c arg s = exec_fork c arg s"
  by (auto simp: forks_def exec_def exec_stack_def exec_memory_def exec_math_def exec_boolean_def exec_bitwise_def
      exec_bitvector_def exec_cstack_def exec_jump_def exec_call_def)

locale quiet_invariant =
  fixes I :: "nat \<Rightarrow> vm \<Rightarrow> bool"
  assumes mono: "I n s \<Longrightarrow> n \<le> m \<Longrightarrow> I m s"
    and pa: "I n s \<Longrightarrow> I n (s\<lparr>pa := x\<rparr>)"
    and err: "I n s \<Longrightarrow> I n (s\<lparr>err := e\<rparr>)"
    and jumpTo: "I n s \<Longrightarrow> I n (snd (jumpTo a s))"
    and push: "I n s \<Longrightarrow> keeps (I n) (push v s)"
    and drop: "I n s \<Longrightarrow> keeps (I n) (drop_m s)"
    and cpush: "I n s \<Longrightarrow> keeps (I n) (cpush v s)"
    and cpop: "I n s \<Longrightarrow> keeps (I n) (cpop s)"
    and store: "I n s \<Longrightarrow> keeps (I n) (store a v s)"
    and ref: "I n s \<Longrightarrow> I n (snd (ref a s))"
    and ref_store: "I n s \<Longrightarrow> ref a s = (Inr l, s') \<Longrightarrow> kept (I n) (store_to l v s')"
begin

lemma pop: "I n s \<Longrightarrow> keeps (I n) (pop s)"
  unfolding pop_def Let_def by (rule keeps_bind [OF drop]) (auto split: prod.split)

lemma seterr: "keeps (I n) r \<Longrightarrow> kept (I n) (seterr r)"
  unfolding seterr_def by (erule kept_bind) (auto intro: err)

lemma popping:
  assumes "I n s" and f: "\<And>v s. I n s \<Longrightarrow> keeps (I m) (f v s)" and "n \<le> m"
  shows "kept (I m) (popping f s)"
  unfolding popping_def
  by (rule kept_bind [OF pop [OF assms(1)]])
    (use assms(3) in \<open>auto split: prod.split intro: err mono seterr f\<close>)

lemma pop_or_break:
  assumes "I n s" and f: "\<And>v s. I n s \<Longrightarrow> kept (I n) (f v s)"
  shows "kept (I n) (pop_or_break f s)"
  unfolding pop_or_break_def
  by (rule kept_bind [OF pop [OF assms(1)]]) (auto split: prod.split intro: err f)

lemma binop: "I n s \<Longrightarrow> kept (I n) (binop f s)"
  unfolding binop_def by (rule popping [of n]) (auto intro: pa)

lemma binop_inverted: "I n s \<Longrightarrow> kept (I n) (binop_inverted f s)"
  unfolding binop_inverted_def by (rule kept_bind [OF pop]) (auto intro: pa err split: prod.split)

lemma unop: "I n s \<Longrightarrow> kept (I n) (unop f s)"
  by (simp add: unop_def pa)

lemma times: "I n s \<Longrightarrow> (\<And>s. I n s \<Longrightarrow> kept (I n) (f s)) \<Longrightarrow> kept (I n) (times k f s)"
proof (induction k arbitrary: s)
  case (Suc k)
  then show ?case by (auto intro: kept_then)
qed simp

lemma pRef: "I n s \<Longrightarrow> I n (snd (pRef i s))"
  by (simp add: pRef_def Let_def ref)

lemma store_to_pa:
  "store_to l v (s\<lparr>pa := x\<rparr>) =
    (case l of LocPA \<Rightarrow> Some (s\<lparr>pa := v\<rparr>)
     | LocMem p off \<Rightarrow> map_option (\<lambda>s. s\<lparr>pa := x\<rparr>) (store_to l v s))"
  by (cases l) (simp_all add: store_to_def upd_page_def)

lemma ref_not_pa: "ref a s \<noteq> (Inr LocPA, s')"
  by (auto simp: ref_def Let_def split: if_splits prod.splits option.splits)

lemma kept_map_pa: "kept (I n) r \<Longrightarrow> kept (I n) (map_option (\<lambda>s. s\<lparr>pa := x\<rparr>) r)"
  by (cases r) (auto intro: pa)

lemma ref_store_pa:
  assumes "I n s" "ref a s = (Inr l, s')"
  shows "kept (I n) (store_to l v (s'\<lparr>pa := x\<rparr>))"
  using kept_map_pa [OF ref_store [OF assms]] assms ref_not_pa
  by (cases l) (auto simp: store_to_pa)

lemma pRef_store_pa:
  assumes "I n s" "pRef i s = (Inr l, s')"
  shows "kept (I n) (store_to l v (s'\<lparr>pa := x\<rparr>))"
proof (cases "i = 1")
  case True
  with assms show ?thesis by (auto simp: pRef_def store_to_def intro: pa split: if_splits)
next
  case False
  with assms show ?thesis by (auto simp: pRef_def Let_def intro: ref_store_pa split: if_splits)
qed

lemma ref_ok: "I n s \<Longrightarrow> ref a s = (r, s') \<Longrightarrow> I n s'"
  using ref [of n s a] by simp

lemma pRef_ok: "I n s \<Longrightarrow> pRef i s = (r, s') \<Longrightarrow> I n s'"
  using pRef [of n s i] by simp

lemma ref_storeD:
  "I n s \<Longrightarrow> ref a s = (Inr l, s') \<Longrightarrow> store_to l v s' = Some t \<Longrightarrow> I n t"
  using ref_store by (auto simp: kept_def)

lemma pRef_storeD:
  "I n s \<Longrightarrow> pRef i s = (Inr l, s') \<Longrightarrow> store_to l v (s'\<lparr>pa := x\<rparr>) = Some t \<Longrightarrow> I n t"
  using pRef_store_pa by (auto simp: kept_def)

lemma update_word: "I n s \<Longrightarrow> kept (I n) (update_word f a k s)"
  unfolding update_word_def
  by (auto split: prod.split sum.split intro!: kept_bind_pure intro: err ref_ok ref_store)

lemma bitseta:
  assumes "I n s"
  shows "kept (I n) (bitseta a s)"
proof -
  obtain r t where r: "ref (a + pa s div 32) s = (r, t)" by fastforce
  with ref_ok [OF assms r] ref_storeD [OF assms] show ?thesis
    by (auto simp: bitseta_def Let_def split: sum.split intro!: kept_bind_pure pa err)
qed

lemma bitosta:
  assumes "I n s"
  shows "kept (I n) (bitosta a s)"
proof -
  obtain r t where r: "ref (a + pa s div 32) s = (r, t)" by fastforce
  with ref_ok [OF assms r] ref_storeD [OF assms] show ?thesis
    by (auto simp: bitosta_def Let_def split: sum.split intro!: kept_bind_pure pa err)
qed

lemma bitest: "I n s \<Longrightarrow> keeps (I n) (bitest a s)"
  unfolding bitest_def Let_def by (auto intro!: keeps_bind_pure pa)

lemma divmod: "I n s \<Longrightarrow> kept (I n) (divmod s)"
  unfolding divmod_def Let_def
  by (auto split: prod.split sum.split intro!: kept_bind_pure err intro: pRef_ok pRef_storeD)

lemma swap: "I n s \<Longrightarrow> kept (I n) (swap i s)"
  unfolding swap_def
  by (auto split: prod.split sum.split intro!: kept_bind_pure err intro: pRef_ok pRef_storeD)

lemma p2c: "I n s \<Longrightarrow> kept (I n) (p2c s)"
  unfolding p2c_def by (rule popping [of n]) (auto intro: cpush)

lemma c2p: "I n s \<Longrightarrow> kept (I n) (c2p s)"
  unfolding c2p_def by (rule kept_bind [OF cpop]) (auto split: prod.split intro: err seterr push)

lemma cpop_discard: "I n s \<Longrightarrow> kept (I n) (cpop_discard s)"
  unfolding cpop_discard_def by (rule kept_bind [OF cpop]) (auto split: prod.split intro: err)

lemma pop_ok: "I n s \<Longrightarrow> pop s = Some (x, s') \<Longrightarrow> I n s'"
  using keepsD [OF pop] by blast

lemma push_ok: "I n s \<Longrightarrow> push v s = Some (x, s') \<Longrightarrow> I n s'"
  using keepsD [OF push] by blast

lemma jump: "I n s \<Longrightarrow> I n (snd (jump a s))"
  by (simp add: jump_def jumpTo)

lemma jump_ok: "I n s \<Longrightarrow> jump a s = (e, s') \<Longrightarrow> I n s'"
  using jump [of n s a] by simp

lemma cjump: "I n s \<Longrightarrow> keeps (I n) (cjump s)"
  unfolding cjump_def by (rule keeps_bind [OF cpop]) (auto split: prod.split simp: keeps_pair jumpTo)

lemma ret: "I n s \<Longrightarrow> keeps (I n) (ret s)"
  unfolding ret_def by (rule keeps_bind [OF cpop]) (auto split: prod.split simp: keeps_pair jumpTo)

lemma call: "I n s \<Longrightarrow> keeps (I n) (call a s)"
  unfolding call_def
  by (auto split: prod.split simp: keeps_pair jumpTo intro!: keeps_bind [OF cpush])

text \<open>The groups of the switch, from its end.\<close>

lemma exec_halt: "I n s \<Longrightarrow> kept (I n) (exec_halt c arg s)"
  unfolding exec_halt_def
  by (cases "op_of (opcode_code c)"; simp add: err pa; (split opcode.split)?)
    (auto intro!: popping [of n] pa err)

lemma exec_branch: "I n s \<Longrightarrow> \<not> forks c \<Longrightarrow> kept (I n) (exec_branch c arg s)"
  unfolding exec_branch_def forks_def by (auto split: opcode.split option.split bool.split intro!: exec_halt)

lemma exec_fork: "I n s \<Longrightarrow> \<not> forks c \<Longrightarrow> kept (I n) (exec_fork c arg s)"
  unfolding exec_fork_def by (auto split: opcode.split option.split bool.split intro!: exec_branch) (simp_all add: forks_def)

lemma exec_call: "I n s \<Longrightarrow> \<not> forks c \<Longrightarrow> kept (I n) (exec_call c arg s)"
  unfolding exec_call_def
  by (auto split: opcode.split option.split bool.split intro!: popping [of n] seterr exec_fork call ret)

lemma exec_jump: "I n s \<Longrightarrow> \<not> forks c \<Longrightarrow> kept (I n) (exec_jump c arg s)"
  unfolding exec_jump_def
  by (auto split: opcode.split option.split bool.split prod.split
      intro!: exec_call seterr popping [of n] kept_bind [OF pop]
        jump cjump err intro: jump_ok simp: keeps_pair Let_def)

lemma exec_cstack: "I n s \<Longrightarrow> \<not> forks c \<Longrightarrow> kept (I n) (exec_cstack c arg s)"
  unfolding exec_cstack_def
  by (auto split: opcode.split option.split bool.split intro!: exec_jump seterr times cpush cpop_discard p2c c2p)

lemma exec_bitvector: "I n s \<Longrightarrow> \<not> forks c \<Longrightarrow> kept (I n) (exec_bitvector c arg s)"
  unfolding exec_bitvector_def set_bit_at_def clear_bit_at_def
  by (auto split: opcode.split option.split bool.split
      intro!: exec_cstack seterr popping [of n] pop_or_break bitest bitseta bitosta update_word)

lemma exec_bitwise: "I n s \<Longrightarrow> \<not> forks c \<Longrightarrow> kept (I n) (exec_bitwise c arg s)"
  unfolding exec_bitwise_def
  by (auto split: opcode.split option.split bool.split intro!: exec_bitvector unop binop)

lemma exec_boolean: "I n s \<Longrightarrow> \<not> forks c \<Longrightarrow> kept (I n) (exec_boolean c arg s)"
  unfolding exec_boolean_def
  by (auto split: opcode.split option.split bool.split intro!: exec_bitwise unop binop binop_inverted)

lemma exec_math: "I n s \<Longrightarrow> \<not> forks c \<Longrightarrow> kept (I n) (exec_math c arg s)"
  unfolding exec_math_def
  by (auto split: opcode.split option.split bool.split
      intro!: exec_boolean unop binop popping [of n] divmod seterr kept_bind_pure keeps_bind_pure pa push simp: Let_def)

lemma exec_memory: "I n s \<Longrightarrow> \<not> forks c \<Longrightarrow> kept (I n) (exec_memory c arg s)"
  unfolding exec_memory_def
  by (auto split: opcode.split option.split bool.split prod.split
      intro!: exec_math popping [of n] seterr kept_bind_pure
        keeps_bind_pure store push err elim: pop_ok [rotated])
    (erule push_ok [rotated], assumption)

lemma exec_stack: "I n s \<Longrightarrow> \<not> forks c \<Longrightarrow> kept (I n) (exec_stack c arg s)"
  unfolding exec_stack_def
  by (auto split: opcode.split option.split bool.split prod.split sum.split
      intro!: exec_memory swap seterr times kept_bind_pure push drop err intro: pRef_ok)

lemma quiet: "I n s \<Longrightarrow> \<not> forks c \<Longrightarrow> kept (I n) (exec c arg s)"
  by (simp add: exec_def exec_stack)

end

locale exec_invariant = quiet_invariant +
  assumes fork: "I n s \<Longrightarrow> I (Suc n) (snd (fork off s))"
    and cfork: "I n s \<Longrightarrow> keeps (I (Suc n)) (cfork s)"
    and branch: "I n s \<Longrightarrow> I (Suc n) (snd (branch off s))"
    and cbranch: "I n s \<Longrightarrow> keeps (I (Suc n)) (cbranch s)"
begin

lemma Suc_I: "I n s \<Longrightarrow> I (Suc n) s"
  by (erule mono) simp

lemma kept_Suc: "kept (I n) r \<Longrightarrow> kept (I (Suc n)) r"
  by (erule kept_mono) (rule Suc_I)

lemma making_branch: "I n s \<Longrightarrow> kept (I (Suc n)) (exec_branch c arg s)"
  unfolding exec_branch_def
  by (auto split: opcode.split option.split bool.split
      intro!: popping [of n] kept_bind [OF pop] seterr kept_Suc [OF exec_halt] branch cbranch
      err intro: Suc_I simp: keeps_pair)

lemma making_fork: "I n s \<Longrightarrow> kept (I (Suc n)) (exec_fork c arg s)"
  unfolding exec_fork_def
  by (auto split: opcode.split option.split bool.split
      intro!: popping [of n] seterr making_branch fork cfork err intro: Suc_I simp: keeps_pair)

lemma exec: "I n s \<Longrightarrow> kept (I (Suc n)) (exec c arg s)"
  using making_fork [of n s c arg] kept_Suc [OF quiet, of n s c arg] by (cases "forks c") (simp_all add: exec_forks)

end

text \<open>For a step the property must also bear the decoding.\<close>

locale step_invariant = exec_invariant +
  assumes ip: "I n s \<Longrightarrow> I n (s\<lparr>ip := x\<rparr>)"
    and cache: "I n s \<Longrightarrow> kept (I n) (set_op k co s)"
begin

lemma step:
  assumes lim: "limit s \<noteq> 0 \<and> limit s \<le> count s \<Longrightarrow> I n s"
    and cnt: "\<not> (limit s \<noteq> 0 \<and> limit s \<le> count s) \<Longrightarrow>
      I n (if limit s \<noteq> 0 then s\<lparr>count := count s + 1\<rparr> else s)"
  shows "kept (I (Suc n)) (step s)"
proof -
  define t where "t = (if limit s \<noteq> 0 then s\<lparr>count := count s + 1\<rparr> else s)"
  show ?thesis
  proof (cases "limit s \<noteq> 0 \<and> limit s \<le> count s")
    case True
    then show ?thesis using lim by (simp add: step_def err Suc_I)
  next
    case False
    then have t: "I n t" using cnt by (simp add: t_def)
    with False show ?thesis
      by (auto simp: step_def Let_def t_def [symmetric] split: option.split prod.split
          intro!: exec ip err Suc_I kept_then [OF cache])
  qed
qed

end

subsection \<open>Properties that do not depend on the registers\<close>

lemma switch_back:
  "cur (switch a m s) = m" "switch (self s) (cur s) (switch a m s) = s"
  "switch (self s) (cur s) ((switch a m s)\<lparr>csp := x\<rparr>) = s"
  "switch (self s) (cur s) ((switch a m s)\<lparr>csp := x, ip := y\<rparr>) = s"
  "switch (self s) (cur s) ((switch a m s)\<lparr>ip := y\<rparr>) = s"
  "cur ((switch a m s)\<lparr>csp := x, ip := y\<rparr>) = m\<lparr>ip := y, csp := x\<rparr>"
  "cur ((switch a m s)\<lparr>ip := y\<rparr>) = m\<lparr>ip := y\<rparr>"
  by (cases s; cases m; simp add: cur_def switch_def mach.defs)+

lemma cpop_csp: "cpop s = Some (r, s') \<Longrightarrow> s' = s \<or> s' = s\<lparr>csp := csp s + 4\<rparr>"
  by (auto simp: cpop_def Let_def split: if_splits Option.bind_splits)

lemma Enqueue_csp:
  "snd (Enqueue m (s\<lparr>csp := x\<rparr>)) = (snd (Enqueue m s))\<lparr>csp := x\<rparr>"
  "fst (Enqueue m (s\<lparr>csp := x\<rparr>)) = fst (Enqueue m s)"
  "snd (Enqueue m (s\<lparr>ip := x\<rparr>)) = (snd (Enqueue m s))\<lparr>ip := x\<rparr>"
  by (auto simp: Enqueue_def split: run_queue.split)

lemma copy_cases:
  obtains (error) e t where "copy s = (Inl e, t)" | (copied) a m t where "copy s = (Inr (a, m), t)"
  by (metis surj_pair sum.exhaust)

lemma cpop_cases:
  obtains (panic) "cpop t = None" | (here) r where "cpop t = Some (r, t)"
  | (up) r where "cpop t = Some (r, t\<lparr>csp := csp t + 4\<rparr>)"
  by (cases "cpop t") (use cpop_csp in fastforce)+

locale mem_invariant =
  fixes I :: "nat \<Rightarrow> vm \<Rightarrow> bool"
  assumes mono: "I n s \<Longrightarrow> n \<le> k \<Longrightarrow> I k s"
    and regs: "I n s \<Longrightarrow> I n (s\<lparr>pa := v\<rparr>)" "I n s \<Longrightarrow> I n (s\<lparr>psp := v\<rparr>)"
      "I n s \<Longrightarrow> I n (s\<lparr>csp := v\<rparr>)" "I n s \<Longrightarrow> I n (s\<lparr>ip := v\<rparr>)"
      "I n s \<Longrightarrow> I n (s\<lparr>err := e\<rparr>)"
      "I n s \<Longrightarrow> I n (s\<lparr>caches := cs\<rparr>)" "I n s \<Longrightarrow> I n (s\<lparr>opc := p\<rparr>)"
    and ref: "I n s \<Longrightarrow> I n (snd (ref addr s))"
    and ref_store: "I n s \<Longrightarrow> ref addr s = (Inr l, s') \<Longrightarrow> kept (I n) (store_to l v s')"
    and copy_error: "I n s \<Longrightarrow> copy s = (Inl e', s') \<Longrightarrow> I n s'"
    and copy: "I n s \<Longrightarrow> copy s = (Inr (a, m), s') \<Longrightarrow> I (Suc n) s'"
    and enqueue: "I n s \<Longrightarrow> copy s = (Inr (a, m), s') \<Longrightarrow>
      I (Suc n) (snd (Enqueue (a, m\<lparr>ip := x, csp := y\<rparr>) s'))"
begin

lemma store: "I n s \<Longrightarrow> keeps (I n) (store a v s)"
proof -
  assume I: "I n s"
  obtain r t where r: "ref a s = (r, t)" by fastforce
  then have "I n t" using ref [OF I, of a] by simp
  with r show ?thesis
    using ref_store [OF I, of a _ t v]
    by (cases r) (auto simp: store_def kept_def intro!: keeps_bind_pure)
qed

lemma push: "I n s \<Longrightarrow> keeps (I n) (push v s)"
  unfolding push_def Let_def
  by (auto intro!: keeps_bind [OF store] regs)

lemma drop: "I n s \<Longrightarrow> keeps (I n) (drop_m s)"
  unfolding drop_m_def Let_def by (auto intro!: keeps_bind_pure regs)

lemma cpush: "I n s \<Longrightarrow> keeps (I n) (cpush v s)"
  unfolding cpush_def Let_def by (auto intro!: keeps_bind [OF store] regs)

lemma cpop: "I n s \<Longrightarrow> keeps (I n) (cpop s)"
  unfolding cpop_def Let_def by (auto intro!: keeps_bind_pure regs)

lemma cache: "I n s \<Longrightarrow> kept (I n) (set_op k co s)"
  unfolding set_op_def Let_def by (auto intro!: regs)

lemma enqueue_same:
  assumes "I n s" "copy s = (Inr (a, m), s')"
  shows "I (Suc n) (snd (Enqueue (a, m) s'))" "I (Suc n) (snd (Enqueue (a, m\<lparr>ip := x\<rparr>) s'))"
proof -
  have "m\<lparr>ip := ip m, csp := csp m\<rparr> = m" "m\<lparr>ip := x, csp := csp m\<rparr> = m\<lparr>ip := x\<rparr>" by simp_all
  with enqueue [OF assms, of "csp m" "ip m"] enqueue [OF assms, of "csp m" x]
  show "I (Suc n) (snd (Enqueue (a, m) s'))" "I (Suc n) (snd (Enqueue (a, m\<lparr>ip := x\<rparr>) s'))" by simp_all
qed

lemma Suc_I: "I n s \<Longrightarrow> I (Suc n) s"
  by (erule mono) simp

lemma fork: "I n s \<Longrightarrow> I (Suc n) (snd (fork off s))"
  by (auto simp: fork_def Let_def split: prod.split sum.split
      intro: Suc_I copy_error Suc_I [OF copy_error] enqueue_same)

lemma branch: "I n s \<Longrightarrow> I (Suc n) (snd (branch off s))"
  by (auto simp: branch_def Let_def Enqueue_csp split: prod.split sum.split
      intro: Suc_I copy_error Suc_I [OF copy_error] regs enqueue_same)

lemma cfork:
  assumes "I n s"
  shows "keeps (I (Suc n)) (cfork s)"
proof (cases s rule: copy_cases)
  case (error e t)
  with assms show ?thesis by (auto simp: cfork_def intro: Suc_I [OF copy_error])
next
  case (copied a m t)
  note c = copy [OF assms copied] enqueue [OF assms copied] enqueue_same [OF assms copied]
  show ?thesis
  proof (rule cpop_cases [of "switch a m t"])
    assume "cpop (switch a m t) = None"
    then show ?thesis by (simp add: cfork_def copied)
  next
    fix r assume "cpop (switch a m t) = Some (r, (switch a m t))"
    with c show ?thesis
      by (cases r) (auto simp: cfork_def copied jumpTo_def Let_def switch_back keeps_pair)
  next
    fix r assume "cpop (switch a m t) = Some (r, (switch a m t)\<lparr>csp := csp (switch a m t) + 4\<rparr>)"
    with c show ?thesis
      by (cases r) (auto simp: cfork_def copied jumpTo_def Let_def switch_back keeps_pair)
  qed
qed

lemma cbranch:
  assumes "I n s"
  shows "keeps (I (Suc n)) (cbranch s)"
proof (cases s rule: copy_cases)
  case (error e t)
  with assms show ?thesis by (auto simp: cbranch_def intro: Suc_I [OF copy_error])
next
  case (copied a m t)
  note c = copy [OF assms copied] enqueue_same(1) [OF assms copied]
  show ?thesis
  proof (rule cpop_cases [of t])
    assume "cpop t = None"
    then show ?thesis by (simp add: cbranch_def copied)
  next
    fix r assume "cpop t = Some (r, t)"
    with c show ?thesis
      by (cases r; cases "Enqueue (a, m) t")
        (auto simp: cbranch_def copied jumpTo_def Let_def keeps_pair intro: regs)
  next
    fix r assume "cpop t = Some (r, t\<lparr>csp := csp t + 4\<rparr>)"
    with c Enqueue_csp(1) [of "(a, m)" "csp t + 4" t] show ?thesis
      by (cases r; cases "Enqueue (a, m) (t\<lparr>csp := csp t + 4\<rparr>)")
        (auto simp: cbranch_def copied jumpTo_def Let_def keeps_pair intro: regs)
  qed
qed

end

sublocale mem_invariant \<subseteq> steps: step_invariant I
  by unfold_locales
    (auto intro: mono regs ref ref_store push drop cpush cpop store cache fork cfork branch cbranch
      simp: jumpTo_def)

end
