(* ===== verification/Isolation.thy ===== *)
theory Isolation
  imports Invariant
begin

text \<open>
  Machines that share pages do not see each other's writes.  \<open>share_inv N\<close> is the invariant of
  the shared store: the reference counts are right (\<open>heap_inv\<close>), a machine holds a page at one place
  only, and the unused parts of page arrays, which a recycled machine takes over, are nil.
  It is an invariant of every step, and so is \<open>isolated s0\<close>, which says that the machines queued in
  \<open>s0\<close> are still queued, with the same memory.
\<close>

subsection \<open>The sharing invariant\<close>

definition tab_inj :: "nat option list \<Rightarrow> bool" where
  "tab_inj t \<longleftrightarrow>
     (\<forall>i < length t. \<forall>j < length t. t ! i = t ! j \<longrightarrow> t ! i \<noteq> None \<longrightarrow> i = j)"

definition all_nil :: "nat option list \<Rightarrow> bool" where
  "all_nil t \<longleftrightarrow> (\<forall>x \<in> set t. x = None)"

definition arrays_nil :: "vm \<Rightarrow> bool" where
  "arrays_nil s \<longleftrightarrow> all_nil (spare s) \<and> (\<forall>(a, m) \<in> set (queued s). all_nil (spare m)) \<and>
     (\<forall>(a, arr) \<in> set (free_machs s). all_nil arr)"

definition share_inv :: "nat \<Rightarrow> vm \<Rightarrow> bool" where
  "share_inv N s \<longleftrightarrow>
     heap_inv N s \<and> 1 \<le> N \<and> (\<forall>t \<in> set (tables s). tab_inj t) \<and> arrays_nil s"

lemma share_invD: "share_inv N s \<Longrightarrow> heap_inv N s" "share_inv N s \<Longrightarrow> 1 \<le> N"
  by (simp_all add: share_inv_def)

lemma tab_inj_count:
  assumes "tab_inj t"
  shows "count_list t (Some p) \<le> 1"
proof (rule ccontr)
  assume c: "\<not> ?thesis"
  then have "Some p \<in> set t" by (metis count_list_0_iff le0)
  then obtain i where i: "i < length t" "t ! i = Some p" by (metis in_set_conv_nth)
  have "count_list (t[i := None]) (Some p) \<noteq> 0"
    using count_list_update [OF i(1), of None "Some p"] i(2) c by simp
  then have "Some p \<in> set (t[i := None])" by (metis count_list_0_iff)
  then obtain j where j: "j < length t" "t[i := None] ! j = Some p"
    by (metis in_set_conv_nth length_list_update)
  then have "j \<noteq> i" "t ! j = Some p" using i(1) by (auto simp: nth_list_update split: if_splits)
  with assms i j(1) show False by (auto simp: tab_inj_def)
qed

lemma tab_inj_page_of:
  "tab_inj (pages s) \<longleftrightarrow> (\<forall>i j p. page_of s i = Some p \<longrightarrow> page_of s j = Some p \<longrightarrow> i = j)"
  unfolding tab_inj_def page_of_def by (metis not_None_eq option.distinct(1))

lemma owns_uniq:
  assumes "owns i p s s'" and "page_of s' k = Some p"
  shows "k = i"
proof (rule ccontr)
  assume ne: "k \<noteq> i"
  have o: "i < length (pages s')" "pages s' ! i = Some p" "refs (tables s') p = 1"
    using assms(1) by (simp_all add: owns_def)
  from assms(2) have k: "k < length (pages s')" "pages s' ! k = Some p"
    by (auto simp: page_of_def split: if_splits)
  have "count_list (pages s') (Some p) \<le> 1" using o(3) by (simp add: tables_def)
  then have "count_list ((pages s')[k := None]) (Some p) = 0"
    using count_list_update [OF k(1), of None "Some p"] k(2) by simp
  moreover have "(pages s')[k := None] ! i = Some p" "i < length ((pages s')[k := None])"
    using ne o by simp_all
  ultimately show False by (metis count_list_0_iff nth_mem)
qed

lemma owns_inj:
  assumes "owns i p s s'" and "tab_inj (pages s)"
  shows "tab_inj (pages s')"
proof -
  have "page_of s' i = Some p" "\<And>k. k \<noteq> i \<Longrightarrow> page_of s' k = page_of s k"
    using assms(1) by (auto simp: owns_def page_of_def)
  then show ?thesis using assms(2) owns_uniq [OF assms(1)]
    unfolding tab_inj_page_of by (metis option.inject)
qed

lemma owns_queued:
  assumes "owns i p s s'"
  shows "queued s' = queued s" "malloc s' = malloc s" "runq s' = runq s"
proof -
  obtain h al ps sp where "s' = s\<lparr>heap := h, palloc := al, pages := ps, spare := sp\<rparr>"
    using assms unfolding owns_def by blast
  then show "queued s' = queued s" "malloc s' = malloc s" "runq s' = runq s"
    by (simp_all add: queued_def)
qed

lemma writable_spare: "writable i s = (p, s') \<Longrightarrow> spare s' = spare s \<or> spare s' = []"
proof -
  assume w: "writable i s = (p, s')"
  obtain np t where al: "AllocPage s = (np, t)" by fastforce
  have "spare t = spare s" by (subst AllocPage_state [OF al]) simp
  with w al show ?thesis
    by (auto simp: writable_def setPage_def grow_pages_def Let_def split: option.splits if_splits)
qed

lemma share_writable:
  assumes "share_inv N s" and w: "writable i s = (p, s')"
  shows "share_inv N s'"
proof -
  note inv = assms(1) [unfolded share_inv_def]
  note ok = writable_ok [OF _ _ w, of N]
  have o: "owns i p s s'" and h: "heap_inv N s'" using inv ok by simp_all
  have "\<forall>t \<in> set (tables s'). tab_inj t"
    using inv owns_inj [OF o] by (simp add: tables_def owns_queued [OF o])
  moreover have "arrays_nil s'"
    using inv writable_spare [OF w] by (auto simp: arrays_nil_def owns_queued [OF o] all_nil_def)
  ultimately show ?thesis using inv h by (simp add: share_inv_def)
qed

lemma share_inv_cong:
  assumes "heap s' = heap s" "palloc s' = palloc s" "pages s' = pages s" "runq s' = runq s"
    "spare s' = spare s" "malloc s' = malloc s"
  shows "share_inv N s' = share_inv N s"
  using assms by (simp add: share_inv_def heap_inv_def tables_def queued_def free_pages_def arrays_nil_def)

lemma share_regs [simp]:
  "share_inv N (s\<lparr>pa := v\<rparr>) = share_inv N s" "share_inv N (s\<lparr>psp := v\<rparr>) = share_inv N s"
  "share_inv N (s\<lparr>csp := v\<rparr>) = share_inv N s" "share_inv N (s\<lparr>ip := v\<rparr>) = share_inv N s"
  "share_inv N (s\<lparr>err := e\<rparr>) = share_inv N s" "share_inv N (s\<lparr>count := c\<rparr>) = share_inv N s"
  "share_inv N (s\<lparr>caches := cs\<rparr>) = share_inv N s" "share_inv N (s\<lparr>opc := q\<rparr>) = share_inv N s"
  by (rule share_inv_cong; simp)+

lemma share_inv_dat:
  assumes "share_inv N s" and "\<And>d. length d = pageSize \<Longrightarrow> length (f d) = pageSize"
  shows "share_inv N (upd_page p (dat_update f) s)"
proof -
  let ?s = "upd_page p (dat_update f) s"
  have eq: "tables ?s = tables s" "free_pages ?s = free_pages s" "queued ?s = queued s" "malloc ?s = malloc s"
    by (simp_all add: upd_page_def tables_def queued_def free_pages_def)
  then show ?thesis
    using assms(1) heap_ok_dat [OF _ assms(2), of N "heap s" "free_pages s" "tables s"]
    by (simp add: share_inv_def heap_inv_def arrays_nil_def)
qed

lemma ref_cases:
  assumes "heap_inv N s"
  obtains e where "ref a s = (Inl e, s)"
  | p s' where "writable (page_index a) s = (p, s')" "ref a s = (Inr (LocMem p (page_off a)), s')"
proof (cases "a < cbp s \<and> page_off a mod 4 \<noteq> 0")
  case True
  then show thesis using that(1) by (simp add: ref_def Let_def)
next
  case False
  then show thesis using ref_writable [OF assms False] that(2)
    by (cases "writable (page_index a) s") simp
qed

lemma share_ref: "share_inv N s \<Longrightarrow> share_inv N (snd (ref a s))"
  by (rule ref_cases [OF share_invD(1), of N s a]) (auto intro: share_writable)

lemma share_store_to: "share_inv N s \<Longrightarrow> kept (share_inv N) (store_to l v s)"
  by (cases l) (auto simp: store_to_def pageSize_def intro!: share_inv_dat)

subsection \<open>Copies\<close>

lemma retain_heap:
  "retain t s = s\<lparr>heap := heap (retain t s)\<rparr> \<and> length (heap (retain t s)) = length (heap s) \<and>
   (\<forall>p < length (heap s). dat (heap (retain t s) ! p) = dat (heap s ! p) \<and>
      rc (heap (retain t s) ! p) = rc (heap s ! p) + of_nat (count_list t (Some p)))"
proof (induction t arbitrary: s)
  case (Cons x t)
  show ?case
  proof (cases x)
    case None
    with Cons show ?thesis by simp
  next
    case (Some p)
    let ?u = "upd_page p (rc_update (\<lambda>r. r + 1)) s"
    have "?u\<lparr>heap := h\<rparr> = s\<lparr>heap := h\<rparr>" for h by (simp add: upd_page_def)
    with Cons [of ?u] have "retain t ?u = s\<lparr>heap := heap (retain t ?u)\<rparr>" by metis
    moreover have "dat (heap ?u ! q) = dat (heap s ! q) \<and>
        rc (heap ?u ! q) = rc (heap s ! q) + (if q = p then 1 else 0)" if "q < length (heap s)" for q
      using that by (cases "q = p") simp_all
    ultimately show ?thesis using Cons [of ?u] Some by auto
  qed
qed simp

lemma retain_cong: "heap u = heap v \<Longrightarrow> heap (retain t u) = heap (retain t v)"
proof (induction t u arbitrary: v rule: retain.induct)
  case (3 p t s)
  from 3(2) have "heap (upd_page p (rc_update (\<lambda>r. r + 1)) s) = heap (upd_page p (rc_update (\<lambda>r. r + 1)) v)"
    by simp
  with 3(1) show ?case by (simp only: retain.simps)
qed simp_all

lemma alloc_mach_of_ok:
  assumes "alloc_mach_of al n = (r, al', n')"
  shows "set (free_machs_of al') \<subseteq> set (free_machs_of al)"
    and "r = Inr (a, arr) \<Longrightarrow> arr = [] \<or> (a, arr) \<in> set (free_machs_of al)"
proof -
  have "set (free_machs_of al') \<subseteq> set (free_machs_of al) \<and>
    (r = Inr (a, arr) \<longrightarrow> arr = [] \<or> (a, arr) \<in> set (free_machs_of al))"
    using assms
  proof (induction al n arbitrary: r al' n' rule: alloc_mach_of.induct)
    case (2 f n)
    then show ?case by (cases f rule: rev_cases) auto
  next
    case (3 copies lim al n)
    then show ?case
      by (cases "alloc_mach_of al n") (auto simp: Let_def split: if_splits)
  qed auto
  then show "set (free_machs_of al') \<subseteq> set (free_machs_of al)"
    and "r = Inr (a, arr) \<Longrightarrow> arr = [] \<or> (a, arr) \<in> set (free_machs_of al)" by simp_all
qed

lemma map2_nil:
  assumes "all_nil ys" "length xs \<le> length ys"
  shows "map2 (\<lambda>pg old. if pg \<noteq> None then pg else old) xs ys = xs"
  using assms
proof (induction xs arbitrary: ys)
  case (Cons x xs)
  then show ?case by (cases ys) (auto simp: all_nil_def)
qed simp

lemma all_nil_drop: "all_nil xs \<Longrightarrow> all_nil (drop n xs)"
  by (auto simp: all_nil_def dest: in_set_dropD)

lemma all_nil_replicate: "all_nil (replicate n None)"
  by (auto simp: all_nil_def)

lemma copy_error_state: "copy s = (Inl e, s') \<Longrightarrow> \<exists>al n. s' = s\<lparr>malloc := al, next_mach := n\<rparr> \<and>
    set (free_machs_of al) \<subseteq> set (free_machs s)"
  using alloc_mach_of_ok(1) [of "malloc s" "next_mach s"]
  by (auto simp: copy_def AllocMach_def Let_def split: prod.splits sum.splits)

lemma cur_simps [simp]: "pages (cur s) = pages s" "spare (cur s) = spare s"
  by (simp_all add: cur_def mach.defs)

lemma copy_ok:
  assumes nil: "arrays_nil s" and c: "copy s = (Inr (a, m), s')"
  obtains al n where "s' = s\<lparr>malloc := al, next_mach := n, heap := heap (retain (pages s) s)\<rparr>"
    "set (free_machs_of al) \<subseteq> set (free_machs s)" "m = (cur s)\<lparr>spare := spare m\<rparr>" "all_nil (spare m)"
proof -
  obtain r al n where al: "alloc_mach_of (malloc s) (next_mach s) = (r, al, n)" by (metis surj_pair)
  with c obtain arr where r: "r = Inr (a, arr)"
    by (cases r) (auto simp: copy_def AllocMach_def Let_def split: prod.splits)
  note ok = alloc_mach_of_ok [OF al]
  let ?s = "s\<lparr>malloc := al, next_mach := n\<rparr>" and ?len = "length (pages s)"
  define pgs where "pgs = (if length arr < ?len then replicate ?len None else arr)"
  have nil_pgs: "all_nil pgs" "?len \<le> length pgs"
    using ok(2) [of a arr] r nil by (auto simp: pgs_def all_nil_replicate arrays_nil_def all_nil_def)
  have "retain (pages s) ?s = ?s\<lparr>heap := heap (retain (pages s) ?s)\<rparr>" using retain_heap by blast
  moreover have "heap (retain t ?s) = heap (retain t s)" for t by (rule retain_cong) simp
  ultimately have s': "s' = ?s\<lparr>heap := heap (retain (pages s) s)\<rparr>"
    using c by (auto simp: copy_def AllocMach_def al r Let_def)
  have m: "m = (cur ?s)\<lparr>pages := pages s, spare := drop ?len pgs\<rparr>"
  proof -
    have "m = (cur ?s)\<lparr>pages := map2 (\<lambda>pg old. if pg \<noteq> None then pg else old) (pages s) pgs,
        spare := drop ?len pgs\<rparr>"
      using c by (cases "length arr < ?len") (auto simp: copy_def AllocMach_def al r Let_def pgs_def)
    then show ?thesis unfolding map2_nil [OF nil_pgs] .
  qed
  have "cur ?s = cur s" by (simp add: cur_def mach.defs)
  then have "m = (cur s)\<lparr>spare := spare m\<rparr>" "all_nil (spare m)"
    using nil_pgs(1) by (simp_all add: m all_nil_drop)
  then show thesis using that s' ok(1) by blast
qed

lemma heap_ok_retain:
  assumes "heap_ok N (heap s) fr (t # ts)" "tab_inj t" "N < 2 ^ 31 - 1"
  shows "heap_ok (Suc N) (heap (retain t s)) fr (t # t # ts)"
proof -
  have cnt: "count_list t (Some p) = 0 \<or> count_list t (Some p) = 1" for p
    using tab_inj_count [OF assms(2), of p] by linarith
  have "int (refs (t # t # ts) p) \<le> sint (rc (heap (retain t s) ! p)) \<and>
      sint (rc (heap (retain t s) ! p)) \<le> int (Suc N)" if p: "p < length (heap s)" for p
  proof -
    have "int (refs (t # ts) p) \<le> sint (rc (heap s ! p))" "sint (rc (heap s ! p)) \<le> int N"
      using assms(1) p by (simp_all add: heap_ok_def)
    moreover have "rc (heap (retain t s) ! p) = rc (heap s ! p) + of_nat (count_list t (Some p))"
      using retain_heap [of t s] p by simp
    ultimately show ?thesis using cnt [of p] assms(3) by (auto simp: sint_inc)
  qed
  moreover have "0 < refs (t # t # ts) p \<longleftrightarrow> 0 < refs (t # ts) p" for p by auto
  ultimately show ?thesis using assms(1) retain_heap [of t s]
    unfolding heap_ok_def by (simp del: refs.simps) (simp add: add_eq_0_iff_both_eq_0)
qed

lemma heap_ok_mono: "heap_ok N h fr ts \<Longrightarrow> N \<le> M \<Longrightarrow> heap_ok M h fr ts"
  unfolding heap_ok_def by force

lemma share_mono: "share_inv N s \<Longrightarrow> N \<le> M \<Longrightarrow> share_inv M s"
  by (auto simp: share_inv_def heap_inv_def intro: heap_ok_mono)

lemma heap_ok_subset:
  assumes "heap_ok N h fr ts" and le: "\<And>p. refs us p \<le> refs ts p"
  shows "heap_ok N h fr us"
proof -
  have "int (refs us p) \<le> sint (rc (h ! p))" if "p < length h" for p
    using that le [of p] assms(1) by (force simp: heap_ok_def)
  moreover have "p < length h" if "0 < refs us p" for p
    using that le [of p] assms(1) by (auto simp: heap_ok_def)
  moreover have "refs us p = 0" if "p \<in> set fr" for p
    using that le [of p] assms(1) by (auto simp: heap_ok_def)
  ultimately show ?thesis using assms(1) by (simp add: heap_ok_def)
qed

lemma share_copy_error:
  assumes "share_inv N s" "copy s = (Inl e, s')"
  shows "share_inv N s'"
proof -
  obtain al n where "s' = s\<lparr>malloc := al, next_mach := n\<rparr>" "set (free_machs_of al) \<subseteq> set (free_machs s)"
    using copy_error_state [OF assms(2)] by blast
  then show ?thesis using assms(1)
    by (auto simp: share_inv_def heap_inv_def tables_def queued_def free_pages_def arrays_nil_def)
qed

lemma share_copy:
  assumes "share_inv N s" "N < 2 ^ 31 - 1" and c: "copy s = (Inr (a, m), s')"
  shows "share_inv (Suc N) s'"
    and "pages m' = pages m \<Longrightarrow> spare m' = spare m \<Longrightarrow> share_inv (Suc N) (snd (Enqueue (a, m') s'))"
proof -
  note inv = assms(1) [unfolded share_inv_def]
  obtain al n where s': "s' = s\<lparr>malloc := al, next_mach := n, heap := heap (retain (pages s) s)\<rparr>"
    and al: "set (free_machs_of al) \<subseteq> set (free_machs s)"
    and m: "m = (cur s)\<lparr>spare := spare m\<rparr>" "all_nil (spare m)"
    using copy_ok [OF _ c] inv by blast
  have pm: "pages m = pages s" by (subst m(1)) simp
  let ?ts = "map (\<lambda>(a, m). pages m) (queued s)"
  have h: "heap_ok (Suc N) (heap s') (free_pages s) (pages s # pages s # ?ts)"
    using heap_ok_retain [of N s "free_pages s" "pages s" ?ts] inv assms(2)
    by (simp add: s' heap_inv_def tables_def)
  then have "heap_ok (Suc N) (heap s') (free_pages s) (tables s)"
    by (rule heap_ok_subset) (simp add: tables_def)
  moreover have "arrays_nil s'" "free_pages s' = free_pages s" "tables s' = tables s"
    using inv al by (auto simp: arrays_nil_def s' queued_def free_pages_def tables_def)
  ultimately show *: "share_inv (Suc N) s'" using inv by (simp add: share_inv_def heap_inv_def)
  assume eq: "pages m' = pages m" "spare m' = spare m"
  show "share_inv (Suc N) (snd (Enqueue (a, m') s'))"
  proof (cases "fst (Enqueue (a, m') s')")
    case (Some e)
    then have "snd (Enqueue (a, m') s') = s'" by (auto simp: Enqueue_def split: run_queue.splits if_splits)
    with * show ?thesis by simp
  next
    case None
    then obtain cap q where q: "runq s' = RunQ cap q"
      "snd (Enqueue (a, m') s') = s'\<lparr>runq := RunQ cap (q @ [(a, m')])\<rparr>"
      by (auto simp: Enqueue_def split: run_queue.splits if_splits)
    let ?u = "s'\<lparr>runq := RunQ cap (q @ [(a, m')])\<rparr>"
    have "runq s = RunQ cap q" using q(1) by (simp add: s')
    then have qs: "queued s = q" "pages s' = pages s" by (simp_all add: queued_def s')
    have ts: "tables ?u = (pages s # ?ts) @ [pages s]" "free_pages ?u = free_pages s"
      by (simp_all add: tables_def eq pm qs free_pages_def s') (simp_all add: queued_def eq pm)
    have "heap_ok (Suc N) (heap ?u) (free_pages ?u) (tables ?u)"
      unfolding ts by (rule heap_ok_subset [where ts = "pages s # pages s # ?ts"]) (use h in simp_all)
    moreover have "set (tables ?u) = set (tables s)" unfolding ts by (auto simp: tables_def)
    then have "\<forall>t \<in> set (tables ?u). tab_inj t" using inv by simp
    moreover have "arrays_nil ?u"
      using * m(2) qs(1) q(1) by (auto simp: share_inv_def arrays_nil_def queued_def eq)
    ultimately show ?thesis by (simp add: q(2) share_inv_def heap_inv_def)
  qed
qed

text \<open>The number of copies is bounded so that the counts, which are \<open>int32\<close>, do not wrap.\<close>

definition sharing :: "nat \<Rightarrow> vm \<Rightarrow> bool" where
  "sharing n s \<longleftrightarrow> n < 2 ^ 31 - 1 \<longrightarrow> share_inv n s"

interpretation sharing: mem_invariant sharing
proof unfold_locales
  fix n k s assume "sharing n s" "n \<le> k"
  then show "sharing k s" by (auto simp: sharing_def intro: share_mono)
next
  fix n s addr assume "sharing n s"
  then show "sharing n (snd (ref addr s))" by (simp add: sharing_def share_ref)
next
  fix n s addr l s' v assume "sharing n s" "ref addr s = (Inr l, s')"
  then have "sharing n s'" using share_ref [of n s addr] by (simp add: sharing_def)
  then show "kept (sharing n) (store_to l v s')"
  proof (cases "n < 2 ^ 31 - 1")
    case True
    with \<open>sharing n s'\<close> have "share_inv n s'" unfolding sharing_def by blast
    from share_store_to [OF this] show ?thesis by (rule kept_mono) (simp add: sharing_def)
  next
    case False
    then show ?thesis unfolding sharing_def kept_def by blast
  qed
next
  fix n s e s' assume "sharing n s" "copy s = (Inl e, s')"
  then show "sharing n s'" by (auto simp: sharing_def intro: share_copy_error)
next
  fix n s a m s' assume "sharing n s" "copy s = (Inr (a, m), s')"
  then show "sharing (Suc n) s'" by (auto simp: sharing_def intro: share_copy(1))
next
  fix n s a m s' x y assume "sharing n s" "copy s = (Inr (a, m), s')"
  then show "sharing (Suc n) (snd (Enqueue (a, m\<lparr>ip := x, csp := y\<rparr>) s'))"
    by (auto simp: sharing_def intro: share_copy(2))
qed (simp_all add: sharing_def)

subsection \<open>Isolation\<close>

definition memory :: "vm \<Rightarrow> mach \<Rightarrow> nat \<Rightarrow> u8" where
  "memory s m a = byte_of (heap s) (pages m) a"

definition isolated :: "vm \<Rightarrow> nat \<Rightarrow> vm \<Rightarrow> bool" where
  "isolated s0 n s \<longleftrightarrow> n < 2 ^ 31 - 1 \<longrightarrow> share_inv n s \<and>
     (\<forall>(a, m) \<in> set (queued s0). (a, m) \<in> set (queued s) \<and>
        (\<forall>k. contents (heap s) (pages m) k = contents (heap s0) (pages m) k))"

lemma writable_others:
  assumes "heap_inv N s" "1 \<le> N" "writable i s = (p, s')"
  shows "others_same s s'"
proof -
  have "dat_update (\<lambda>d. d) q = q" for q :: page by simp
  then have "poke i (\<lambda>d. d) s = s'"
    by (simp only: poke_def assms(3) upd_page_def prod.case list_update_id) simp
  with poke_ok(3) [OF assms(1,2), of "\<lambda>d. d" i] show ?thesis by simp
qed

lemma ref_others:
  assumes "share_inv N s" "ref addr s = (r, s')"
  shows "others_same s s'" "queued s' = queued s"
proof -
  note inv = share_invD [OF assms(1)]
  have "others_same s s' \<and> queued s' = queued s"
  proof (rule ref_cases [OF inv(1), of addr])
    fix e assume "ref addr s = (Inl e, s)"
    with assms(2) show ?thesis by (simp add: others_same_def split_def)
  next
    fix p t assume w: "writable (page_index addr) s = (p, t)" "ref addr s = (Inr (LocMem p (page_off addr)), t)"
    then have "t = s'" using assms(2) by simp
    with writable_others [OF inv w(1)] writable_ok(2) [OF inv w(1)] show ?thesis
      by (auto dest: owns_queued)
  qed
  then show "others_same s s'" "queued s' = queued s" by simp_all
qed

lemma ref_store_poke:
  assumes "heap_inv N s" "ref addr s = (Inr l, s')" "store_to l v s' = Some t"
  shows "t = poke (page_index addr) (\<lambda>d. set_bytes d (page_off addr) (put_u32 v)) s \<and>
    page_off addr + 4 \<le> pageSize"
proof (rule ref_cases [OF assms(1), of addr])
  fix e assume "ref addr s = (Inl e, s)"
  with assms(2) show ?thesis by simp
next
  fix p u assume "writable (page_index addr) s = (p, u)" "ref addr s = (Inr (LocMem p (page_off addr)), u)"
  moreover from this assms(2) have "l = LocMem p (page_off addr)" "u = s'" by simp_all
  ultimately show ?thesis using assms(3) by (simp add: poke_def store_to_def split: if_splits)
qed

lemma retain_contents:
  assumes "heap_ok N (heap s) fr ts" "t \<in> set ts"
  shows "contents (heap (retain u s)) t k = contents (heap s) t k"
proof (cases "k < length t \<and> t ! k \<noteq> None")
  case True
  then obtain p where p: "t ! k = Some p" "Some p \<in> set t" by (metis nth_mem not_None_eq)
  with heap_ok_bound [OF assms] have "p < length (heap s)" by blast
  with retain_heap [of u s] True p show ?thesis by (simp add: contents_def)
qed (auto simp: contents_def)

lemma isolated_others:
  assumes "isolated s0 n s" "others_same s s'" "queued s' = queued s" "sharing n s'"
  shows "isolated s0 n s'"
  unfolding isolated_def
proof (intro impI conjI ballI; clarify?)
  assume n: "n < 2 ^ 31 - 1"
  with assms(4) show "share_inv n s'" unfolding sharing_def by blast
  fix a m assume m: "(a, m) \<in> set (queued s0)"
  with n assms(1) have *: "(a, m) \<in> set (queued s)"
    "\<And>k. contents (heap s) (pages m) k = contents (heap s0) (pages m) k" unfolding isolated_def by blast+
  show "(a, m) \<in> set (queued s') \<and> (\<forall>k. contents (heap s') (pages m) k = contents (heap s0) (pages m) k)"
    using * assms(2,3) unfolding others_same_def by fastforce
qed

lemma isolated_sharing: "isolated s0 n s \<Longrightarrow> sharing n s"
  by (simp add: isolated_def sharing_def)

lemma isolatedD:
  assumes "isolated s0 n s" "n < 2 ^ 31 - 1"
  shows "share_inv n s" "(a, m) \<in> set (queued s0) \<Longrightarrow> (a, m) \<in> set (queued s)"
    "(a, m) \<in> set (queued s0) \<Longrightarrow> contents (heap s) (pages m) k = contents (heap s0) (pages m) k"
  using assms unfolding isolated_def by blast+

lemma isolatedI:
  assumes "sharing n s"
    and "\<And>a m k. n < 2 ^ 31 - 1 \<Longrightarrow> (a, m) \<in> set (queued s0) \<Longrightarrow> (a, m) \<in> set (queued s) \<and>
      contents (heap s) (pages m) k = contents (heap s0) (pages m) k"
  shows "isolated s0 n s"
  using assms unfolding isolated_def sharing_def by blast

lemma queued_Enqueue: "set (queued s) \<subseteq> set (queued (snd (Enqueue m s)))"
  by (auto simp: Enqueue_def queued_def split: run_queue.split)

lemma heap_Enqueue [simp]: "heap (snd (Enqueue m s)) = heap s"
  by (simp add: Enqueue_def split: run_queue.split)

lemma copy_queued:
  assumes "share_inv N s" "copy s = (Inr (a, m), s')"
  shows "queued s' = queued s"
    and "t \<in> set (tables s) \<Longrightarrow> contents (heap s') t k = contents (heap s) t k"
proof -
  obtain al n where s': "s' = s\<lparr>malloc := al, next_mach := n, heap := heap (retain (pages s) s)\<rparr>"
    using copy_ok [OF _ assms(2)] assms(1) unfolding share_inv_def by blast
  show "queued s' = queued s" by (simp add: s' queued_def)
  show "t \<in> set (tables s) \<Longrightarrow> contents (heap s') t k = contents (heap s) t k"
    using retain_contents [of N s "free_pages s" "tables s"] share_invD(1) [OF assms(1)]
    by (simp add: s' heap_inv_def)
qed

lemma queued_table: "(a, m) \<in> set (queued s) \<Longrightarrow> pages m \<in> set (tables s)"
  by (force simp: tables_def)

interpretation isolated: mem_invariant "isolated s0" for s0
proof unfold_locales
  fix n k s assume "isolated s0 n s" "n \<le> k"
  then show "isolated s0 k s" unfolding isolated_def using share_mono by (meson le_less_trans)
next
  fix n s addr assume I: "isolated s0 n s"
  note S = isolated_sharing [OF I]
  show "isolated s0 n (snd (ref addr s))"
  proof (rule isolatedI [OF sharing.ref [OF S]])
    fix a m k assume n: "n < 2 ^ 31 - 1" "(a, m) \<in> set (queued s0)"
    note d = isolatedD [OF I n(1)]
    from ref_others [OF d(1), of addr] d(2,3) [OF n(2)]
    show "(a, m) \<in> set (queued (snd (ref addr s))) \<and>
      contents (heap (snd (ref addr s))) (pages m) k = contents (heap s0) (pages m) k"
      by (cases "ref addr s") (auto simp: others_same_def)
  qed
next
  fix n s addr l s' v assume I: "isolated s0 n s" and r: "ref addr s = (Inr l, s')"
  note S = isolated_sharing [OF I]
  show "kept (isolated s0 n) (store_to l v s')" unfolding kept_def
  proof (intro allI impI)
    fix t assume st: "store_to l v s' = Some t"
    then have St: "sharing n t" using sharing.ref_store [OF S r] by (simp add: kept_def)
    show "isolated s0 n t"
    proof (rule isolatedI [OF St])
      fix a m k assume n: "n < 2 ^ 31 - 1" "(a, m) \<in> set (queued s0)"
      note d = isolatedD [OF I n(1)] and inv = share_invD [OF isolatedD(1) [OF I n(1)]]
      note t = ref_store_poke [OF inv(1) r st]
      let ?f = "\<lambda>d. set_bytes d (page_off addr) (put_u32 v)"
      have f: "length (?f d) = pageSize" if "length d = pageSize" for d using that t by simp
      have "others_same s t" "queued t = queued s"
        using poke_ok(3,4) [OF inv f, of "\<lambda>d. d" "page_index addr"] t by (auto simp: queued_def)
      with d(2,3) [OF n(2)] show "(a, m) \<in> set (queued t) \<and>
        contents (heap t) (pages m) k = contents (heap s0) (pages m) k"
        by (auto simp: others_same_def)
    qed
  qed
next
  fix n s e s' assume I: "isolated s0 n s" and c: "copy s = (Inl e, s')"
  have "heap s' = heap s" "queued s' = queued s"
    using copy_error_state [OF c] by (auto simp: queued_def)
  with isolatedD(2,3) [OF I] show "isolated s0 n s'"
    by (intro isolatedI sharing.copy_error [OF isolated_sharing [OF I] c]) simp
next
  fix n s a m s' assume I: "isolated s0 n s" and c: "copy s = (Inr (a, m), s')"
  show "isolated s0 (Suc n) s'"
  proof (rule isolatedI [OF sharing.copy [OF isolated_sharing [OF I] c]])
    fix b q k assume n: "Suc n < 2 ^ 31 - 1" "(b, q) \<in> set (queued s0)"
    then have n': "n < 2 ^ 31 - 1" by simp
    note d = isolatedD [OF I n']
    show "(b, q) \<in> set (queued s') \<and> contents (heap s') (pages q) k = contents (heap s0) (pages q) k"
      using d(2,3) [OF n(2)] copy_queued [OF d(1) c] queued_table by metis
  qed
next
  fix n s a m s' x y
  assume I: "isolated s0 n s" and c: "copy s = (Inr (a, m), s')"
  let ?m = "m\<lparr>ip := x, csp := y\<rparr>"
  show "isolated s0 (Suc n) (snd (Enqueue (a, ?m) s'))"
  proof (rule isolatedI [OF sharing.enqueue [OF isolated_sharing [OF I] c]])
    fix b q k assume n: "Suc n < 2 ^ 31 - 1" "(b, q) \<in> set (queued s0)"
    then have n': "n < 2 ^ 31 - 1" by simp
    note d = isolatedD [OF I n']
    have "(b, q) \<in> set (queued s')" using d(2) [OF n(2)] copy_queued(1) [OF d(1) c] by simp
    moreover have "contents (heap s') (pages q) k = contents (heap s0) (pages q) k"
      using d(2,3) [OF n(2)] copy_queued(2) [OF d(1) c] queued_table by metis
    ultimately show "(b, q) \<in> set (queued (snd (Enqueue (a, ?m) s'))) \<and>
      contents (heap (snd (Enqueue (a, ?m) s'))) (pages q) k = contents (heap s0) (pages q) k"
      using queued_Enqueue by auto
  qed
qed (simp_all add: isolated_def queued_def)

subsection \<open>An example\<close>

text \<open>
  A machine that shares its page 1 with a queued one, about to execute \<open>storeTo @0x60\<close> at address
  64 with 7 on its stack: the write makes a copy of the page.
\<close>

definition demo :: vm where
  "demo = (blank 64)\<lparr>pages := [None, Some 0], psp := 0, pa := 7,
     heap := [\<lparr>rc = 2, dat = 0xe0 # 0x0a # replicate 62 0\<rparr>],
     runq := RunQ 10 [(1, (cur (blank 64))\<lparr>pages := [None, Some 0]\<rparr>)]\<rparr>"

lemma demo_fields:
  "ip demo = 64" "cbp demo = 60" "limit demo = 0" "pa demo = 7" "caches demo = [[]]" "opc demo = 0"
  "psp demo = 0" "pages demo = [None, Some 0]" "err demo = None" "palloc demo = DefaultPages"
  "heap demo = [\<lparr>rc = 2, dat = 0xe0 # 0x0a # replicate 62 0\<rparr>]"
  "queued demo = [(1, (cur (blank 64))\<lparr>pages := [None, Some 0]\<rparr>)]"
  by (simp_all add: demo_def blank_def queued_def)

lemma share_demo: "share_inv 2 demo"
proof -
  have "heap_inv 2 demo"
    by (simp add: heap_inv_def heap_ok_def demo_def blank_def tables_def queued_def free_pages_def
        cur_def mach.defs pageSize_def)
  then show ?thesis
    by (simp add: share_inv_def)
      (simp add: demo_def blank_def tables_def queued_def tab_inj_def arrays_nil_def all_nil_def
        cur_def mach.defs less_Suc_eq numeral_eq_Suc)
qed

lemma demo_addr: "page_index 64 = 1" "page_off 64 = 0" "page_index 96 = 1" "page_off 96 = 32"
  by (simp_all add: page_index_def page_off_def)

lemma read_demo: "read 64 demo = (66, 0x8a, 96, None)"
proof -
  have "replicate 6 x = [x, x, x, x, x, x]" for x :: u8 by (simp add: numeral_eq_Suc)
  then have "fetchBytes 64 (replicate 6 0) demo = (6, [0xe0, 0x0a, 0, 0, 0, 0])"
    by (simp add: fetchBytes_def demo_addr fetch_loop.simps page_of_def demo_fields nth_Cons')
  then show ?thesis
    by (simp add: read_def readVarCode_def validate_def hasImm_def opCodeWithImm_def opcode_code_def
        Let_def ops_def opdef_defs imm_kind_def imm_kind_defs imm_required_def)
qed

lemma storeto_code: "op_of 0x0a = Some OpStoreto" "opcode_code 0x8a = 0x0a" "hasImm 0x8a"
  by (simp_all add: op_of_def all_ops_def opcode_code_def hasImm_def opCodeWithImm_def)

lemmas step_eval = step_def Let_def get_def set_op_def exec_def exec_stack_def exec_memory_def
  popping_def pop_def drop_m_def seterr_def pspInit_def store_def ref_def AllocPage_def
  store_to_def pageSize_def upd_page_def zero_page_def one_sless set_bytes_def put_u32_def

lemma step_demo:
  "\<exists>s'. step demo = Some s' \<and> pages s' = [None, Some 1] \<and> dat (heap s' ! 1) ! 32 = 7 \<and>
     dat (heap s' ! 0) ! 32 = 0 \<and> rc (heap s' ! 0) = 1"
  by (simp add: step_eval read_demo storeto_code demo_addr demo_fields nth_append)

subsection \<open>Properties of a step\<close>

text \<open>
  Every step keeps the sharing invariant: no reference count is too small, no page in use is on
  the free list, and a recycled page array holds no stale page.
\<close>
theorem step_sharing:
  assumes "share_inv n s" "n + 1 < 2 ^ 31 - 1" "step s = Some s'"
  shows "share_inv (n + 1) s'"
proof -
  have "sharing n s" using assms(1) by (simp add: sharing_def)
  then have "sharing (Suc n) s'" using sharing.steps.step [of s n] assms(3) by (simp add: kept_def sharing_def)
  with assms(2) show ?thesis by (simp add: sharing_def)
qed

theorem step_sharing_witness: "\<exists>s'. step demo = Some s' \<and> share_inv (2 + 1) s'"
  using step_demo step_sharing [OF share_demo] by fastforce

text \<open>
  C8: a fork that succeeds queues one new machine, at the target address, with the registers and the
  memory of the machine that forked; that machine itself goes on unchanged.
\<close>
theorem fork_snapshot:
  assumes "share_inv n s" "fork off s = (None, s')"
  shows "\<exists>na m. queued s' = queued s @ [(na, m)] \<and> ip m = ip s + off \<and> psp m = psp s \<and>
    csp m = csp s \<and> pa m = pa s \<and> count m = count s \<and> limit m = limit s \<and> err m = err s \<and>
    memory s' m = byte_at s \<and> byte_at s' = byte_at s \<and> cur s' = cur s"
proof -
  from assms(2) obtain na m t where c: "copy s = (Inr (na, m), t)"
    and e: "Enqueue (na, m\<lparr>ip := ip s + off\<rparr>) t = (None, s')"
    by (auto simp: fork_def Let_def split: if_splits sum.splits prod.splits)
  obtain al n where t: "t = s\<lparr>malloc := al, next_mach := n, heap := heap (retain (pages s) s)\<rparr>"
    and m: "m = (cur s)\<lparr>spare := spare m\<rparr>"
    using copy_ok [OF _ c] assms(1) unfolding share_inv_def by blast
  obtain cap q where q: "runq t = RunQ cap q" "s' = t\<lparr>runq := RunQ cap (q @ [(na, m\<lparr>ip := ip s + off\<rparr>)])\<rparr>"
    using e by (auto simp: Enqueue_def split: run_queue.splits if_splits)
  have "contents (heap t) (pages s) k = contents (heap s) (pages s) k" for k
    using copy_queued(2) [OF assms(1) c] by (simp add: tables_def)
  then have mem: "byte_of (heap t) (pages s) = byte_of (heap s) (pages s)"
    by (simp add: byte_of_def fun_eq_iff)
  have f: "psp m = psp s" "csp m = csp s" "pa m = pa s" "count m = count s" "limit m = limit s"
    "err m = err s" "pages m = pages s"
    by (subst m, simp add: cur_def mach.defs)+
  have "queued s' = queued s @ [(na, m\<lparr>ip := ip s + off\<rparr>)]"
    using q copy_queued(1) [OF assms(1) c] by (simp add: queued_def)
  moreover have "cur s' = cur s" "heap s' = heap t" "pages s' = pages s"
    by (simp_all add: q(2) t cur_def mach.defs)
  ultimately show ?thesis using mem f by (auto simp: memory_def byte_at_def fun_eq_iff)
qed

theorem fork_snapshot_witness:
  "\<exists>s' na m. fork 36 demo = (None, s') \<and> queued s' = queued demo @ [(na, m)] \<and> ip m = 100 \<and>
     memory s' m = byte_at demo"
proof -
  have "fork 36 demo = (None, snd (fork 36 demo))"
    by (simp add: fork_def Let_def copy_def AllocMach_def Enqueue_def demo_def blank_def upd_page_def)
  from fork_snapshot [OF share_demo this] show ?thesis
    using \<open>fork 36 demo = (None, snd (fork 36 demo))\<close> by (auto simp: demo_fields)
qed

end
