(* ===== verification/Run.thy ===== *)
theory Run
  imports Isolation
begin

text \<open>
  Running a machine: \<open>run\<close> of \<open>vm.go\<close>, and \<open>Run\<close>, \<open>Step\<close>, \<open>HaltCode\<close> and \<open>Err\<close> of \<open>api.go\<close>.

  The handler is a parameter: a function of the ended machine and of a state of the handler's own.
  A loop gets fuel; its outcome is a panic, no result within the fuel, or a result.
\<close>

datatype 'a outcome = Panic | Timeout | Done 'a

type_synonym ('e, 'h) handler = "vm \<Rightarrow> 'h \<Rightarrow> 'e option \<times> 'h"

definition halted :: "vm \<Rightarrow> u32 \<times> bool" where
  "halted s = (if err s = Some ErrHalted then (pa s, True) else (0, False))"

text \<open>
  \<open>run\<close>: step while there is no error, then hand the machine to the handler, and continue with the
  next queued machine if the handler agrees.  The first machine to end it all is the result.
\<close>

fun run :: "('e, 'h) handler \<Rightarrow> nat \<Rightarrow> 'h \<Rightarrow> vm \<Rightarrow> ('e option \<times> 'h \<times> vm) outcome" where
  "run H 0 h s = Timeout"
| "run H (Suc fuel) h s =
     (if err s = None then
        (case step s of None \<Rightarrow> Panic | Some s \<Rightarrow> run H fuel h s)
      else
        (case H s h of
           (Some e, h) \<Rightarrow> Done (Some e, h, s)
         | (None, h) \<Rightarrow>
             (case Dequeue s of
                (None, s) \<Rightarrow> Done (None, h, s)
              | (Some (a, n), s) \<Rightarrow> run H fuel h (switch a n (free s)))))"

text \<open>\<open>Run\<close> copies the machine that ended into the one it was called on.\<close>

definition Run :: "('e, 'h) handler \<Rightarrow> nat \<Rightarrow> 'h \<Rightarrow> vm \<Rightarrow> ('e option \<times> 'h \<times> vm) outcome" where
  "Run H fuel h s =
     (case run H fuel h s of
        Done (e, h, n) \<Rightarrow> Done (e, h, if self n \<noteq> self s then n\<lparr>self := self s\<rparr> else n)
      | Panic \<Rightarrow> Panic | Timeout \<Rightarrow> Timeout)"

text \<open>
  \<open>Err\<close>: a halt with a code other than 0 is an error \<open>HALT(code)\<close>; every error comes with the
  instruction pointer.  (The tables of halt errors are a cache.)
\<close>

datatype api_err = MachError u32 "u32 + merr"

definition Err :: "vm \<Rightarrow> api_err option" where
  "Err s =
     (let (code, h) = halted s
      in if h \<and> code = 0 then None
         else if h then Some (MachError (ip s) (Inl code))
         else case err s of None \<Rightarrow> None | Some e \<Rightarrow> Some (MachError (ip s) (Inr e)))"

definition HaltCode :: "vm \<Rightarrow> u32 \<times> bool" where
  "HaltCode = halted"

definition Step :: "vm \<Rightarrow> (api_err option \<times> vm) option" where
  "Step s =
     do {
       s \<leftarrow> (if err s = None then step s else Some s);
       Some (Err s, s)
     }"

text \<open>The handler that a machine has unless one is given.\<close>

definition defaultHandler :: "(api_err, unit) handler" where
  "defaultHandler s h = (Err s, h)"

subsection \<open>The steps of a run\<close>

text \<open>The machines of a run as a transition system.\<close>

inductive sched :: "vm \<Rightarrow> vm \<Rightarrow> bool" where
  stepped: "err s = None \<Longrightarrow> step s = Some s' \<Longrightarrow> sched s s'"
| resumed: "err s \<noteq> None \<Longrightarrow> Dequeue s = (Some (a, n), t) \<Longrightarrow> sched s (switch a n (free t))"

inductive_cases schedE: "sched s s'"

text \<open>\<open>sched_n n s s'\<close>: \<open>s'\<close> is reached from \<open>s\<close> in at most \<open>n\<close> transitions.\<close>

inductive sched_n :: "nat \<Rightarrow> vm \<Rightarrow> vm \<Rightarrow> bool" where
  start: "sched_n n s s"
| more: "sched_n n s t \<Longrightarrow> sched t u \<Longrightarrow> sched_n (Suc n) s u"

lemma sched_n_Suc: "sched_n n s t \<Longrightarrow> sched_n (Suc n) s t"
  by (induction rule: sched_n.induct) (auto intro: sched_n.intros)

lemma sched_n_front: "sched_n n t u \<Longrightarrow> sched s t \<Longrightarrow> sched_n (Suc n) s u"
  by (induction rule: sched_n.induct) (auto intro: sched_n.intros)

lemma run_cases:
  assumes "run H (Suc fuel) h s = r"
  obtains (panic) "err s = None" "step s = None" "r = Panic"
  | (exec) t where "err s = None" "step s = Some t" "r = run H fuel h t"
  | (error) e h' where "err s \<noteq> None" "H s h = (Some e, h')" "r = Done (Some e, h', s)"
  | (last) h' where "err s \<noteq> None" "H s h = (None, h')" "fst (Dequeue s) = None" "r = Done (None, h', s)"
  | (resume) h' a n t where "err s \<noteq> None" "H s h = (None, h')" "Dequeue s = (Some (a, n), t)"
      "r = run H fuel h' (switch a n (free t))"
proof (cases "err s = None")
  case True
  with assms that(1,2) show thesis by (cases "step s") auto
next
  case False
  obtain x h' where H: "H s h = (x, h')" by fastforce
  show thesis
  proof (cases x)
    case (Some e)
    with False H assms that(3) show thesis by auto
  next
    case None
    obtain y t where d: "Dequeue s = (y, t)" by fastforce
    show thesis
    proof (cases y)
      case None
      with d have "t = s" by (auto simp: Dequeue_def split: run_queue.splits if_splits)
      with d None \<open>x = None\<close> H False assms that(4) show thesis by auto
    next
      case (Some n)
      with d \<open>x = None\<close> H False assms that(5) show thesis by (cases n) auto
    qed
  qed
qed

lemma run_reaches:
  "run H fuel h s = Done (e, h', s') \<Longrightarrow> sched_n fuel s s' \<and> err s' \<noteq> None"
proof (induction fuel arbitrary: h s)
  case (Suc fuel)
  from Suc.prems show ?case
  proof (cases rule: run_cases)
    case (exec t)
    with Suc.IH [of h t] show ?thesis by (auto intro: sched_n_front sched.stepped)
  next
    case (resume h1 a n t)
    from resume(1,3) have "sched s (switch a n (free t))" by (rule sched.resumed)
    moreover have "sched_n fuel (switch a n (free t)) s' \<and> err s' \<noteq> None"
      using Suc.IH resume(4) by metis
    ultimately show ?thesis by (auto intro: sched_n_front)
  qed (auto intro: sched_n.start)
qed simp

subsection \<open>Giving pages back\<close>

lemma heap_ok_release1:
  assumes ok: "heap_ok N (heap s) (free_pages s) ((Some p # t) # ts)"
    and u: "u = upd_page p (rc_update (\<lambda>r. r - 1)) s"
    and v: "v = (if rc (heap u ! p) \<le>s 0 then FreePage p u else u)"
  shows "heap_ok N (heap v) (free_pages v) (t # ts)"
    and "v = s\<lparr>heap := heap v, palloc := palloc v\<rparr>"
proof -
  let ?ts = "(Some p # t) # ts"
  have p0: "0 < refs ?ts p" by simp
  then have p: "p < length (heap s)" "0 < refs ?ts p" using ok unfolding heap_ok_def by blast+
  have r: "int (refs ?ts p) \<le> sint (rc (heap s ! p))" using ok p(1) unfolding heap_ok_def by blast
  have rN: "length (dat (heap s ! p)) = pageSize" "sint (rc (heap s ! p)) \<le> int N"
    using ok p(1) unfolding heap_ok_def by blast+
  have r': "p \<notin> set (free_pages s)" using ok p0 unfolding heap_ok_def by force
  have dec: "sint (rc (heap s ! p) - 1) = sint (rc (heap s ! p)) - 1"
  proof (cases "sint (rc (heap s ! p)) = 1")
    case True
    have "rc (heap s ! p) = word_of_int (sint (rc (heap s ! p)))" by simp
    also have "\<dots> = 1" by (simp only: True) simp
    finally show ?thesis by simp
  next
    case False
    with p(2) r show ?thesis by (intro sint_dec) linarith
  qed
  show fr: "v = s\<lparr>heap := heap v, palloc := palloc v\<rparr>"
    by (simp add: v u FreePage_def upd_page_def split: page_alloc.split)
  have hv: "heap v = heap u" by (simp add: v FreePage_def split: page_alloc.split)
  have fv: "free_pages v = free_pages s \<or> free_pages v = free_pages s @ [p] \<and> sint (rc (heap s ! p)) - 1 \<le> 0"
    using p(1) dec
    by (auto simp: v u FreePage_def upd_page_def free_pages_def word_sle_eq split: page_alloc.split)
  have cnt: "refs ?ts q = refs (t # ts) q + (if q = p then 1 else 0)" for q by simp
  have "int (refs (t # ts) q) \<le> sint (rc (heap v ! q)) \<and> sint (rc (heap v ! q)) \<le> int N \<and>
      length (dat (heap v ! q)) = pageSize" if "q < length (heap s)" for q
  proof (cases "q = p")
    case True
    then show ?thesis using r rN p(1) cnt [of p] dec by (simp add: hv u)
  next
    case False
    have "int (refs ?ts q) \<le> sint (rc (heap s ! q)) \<and> sint (rc (heap s ! q)) \<le> int N \<and>
      length (dat (heap s ! q)) = pageSize" using ok that unfolding heap_ok_def by blast
    then show ?thesis using False cnt [of q] by (simp add: hv u)
  qed
  moreover have "q < length (heap s)" if "0 < refs (t # ts) q" for q
    using ok that cnt [of q] unfolding heap_ok_def by auto
  moreover have "q < length (heap s) \<and> refs (t # ts) q = 0" if "q \<in> set (free_pages v)" for q
  proof (cases "q = p")
    case True
    with that r' fv have "sint (rc (heap s ! p)) - 1 \<le> 0" by auto
    with True r cnt [of p] p show ?thesis by simp
  next
    case False
    with that fv have "q \<in> set (free_pages s)" by auto
    then show ?thesis using ok cnt [of q] unfolding heap_ok_def by auto
  qed
  moreover have "distinct (free_pages v)" using fv r' ok unfolding heap_ok_def by auto
  ultimately show "heap_ok N (heap v) (free_pages v) (t # ts)"
    unfolding heap_ok_def by (simp add: hv u)
qed

lemma heap_ok_release:
  assumes "heap_ok N (heap s) (free_pages s) (t # ts)"
  shows "heap_ok N (heap (release t s)) (free_pages (release t s)) ([] # ts) \<and>
    release t s = s\<lparr>heap := heap (release t s), palloc := palloc (release t s)\<rparr>"
  using assms
proof (induction t arbitrary: s)
  case (Cons x t)
  show ?case
  proof (cases x)
    case None
    have "heap_ok N (heap s) (free_pages s) (t # ts)"
      using Cons.prems None by (simp add: heap_ok_def)
    from Cons.IH [OF this] show ?thesis by (simp only: None release.simps)
  next
    case (Some p)
    define u where "u = upd_page p (rc_update (\<lambda>r. r - 1)) s"
    define v where "v = (if rc (heap u ! p) \<le>s 0 then FreePage p u else u)"
    have e: "release (x # t) s = release t v" by (simp add: Some Let_def u_def v_def)
    note one = heap_ok_release1 [OF Cons.prems [unfolded Some] u_def v_def]
    note IH = Cons.IH [OF one(1)]
    have eq: "v\<lparr>heap := h, palloc := al\<rparr> = s\<lparr>heap := h, palloc := al\<rparr>" for h al
      by (subst one(2)) simp
    have "release t v = v\<lparr>heap := heap (release t v), palloc := palloc (release t v)\<rparr>"
      by (rule IH [THEN conjunct2])
    also have "\<dots> = s\<lparr>heap := heap (release t v), palloc := palloc (release t v)\<rparr>" by (rule eq)
    finally show ?thesis unfolding e by (rule conjI [OF IH [THEN conjunct1]])
  qed
qed simp

lemma free_mach_of_set: "set (free_machs_of (free_mach_of al x)) \<subseteq> insert x (set (free_machs_of al))"
  by (induction al x rule: free_mach_of.induct) auto

lemma switch_fields [simp]:
  "pages (switch a m s) = pages m" "spare (switch a m s) = spare m" "heap (switch a m s) = heap s"
  "palloc (switch a m s) = palloc s" "malloc (switch a m s) = malloc s" "runq (switch a m s) = runq s"
  "err (switch a m s) = err m" "count (switch a m s) = count m" "limit (switch a m s) = limit m"
  "caches (switch a m s) = caches s" "outs (switch a m s) = outs s" "self (switch a m s) = a"
  "next_mach (switch a m s) = next_mach s"
  by (cases s; cases m; simp add: switch_def mach.defs)+

lemma Dequeue_queued:
  assumes "Dequeue s = (Some (a, n), t)"
  shows "queued s = queued t @ [(a, n)]" "t = s\<lparr>runq := runq t\<rparr>"
proof -
  obtain cap q where q: "runq s = RunQ cap q" "q \<noteq> []"
    using assms by (auto simp: Dequeue_def split: run_queue.splits if_splits)
  then have "(a, n) = last q" "t = s\<lparr>runq := RunQ cap (butlast q)\<rparr>"
    using assms by (simp_all add: Dequeue_def last_conv_nth butlast_conv_take)
  moreover have "q = butlast q @ [last q]" using q(2) by simp
  ultimately show "queued s = queued t @ [(a, n)]" "t = s\<lparr>runq := runq t\<rparr>"
    by (simp_all add: queued_def q(1))
qed

lemma share_resume:
  assumes "share_inv N s" and d: "Dequeue s = (Some (a, n), t)"
  shows "share_inv N (switch a n (free t))"
proof -
  note inv = assms(1) [unfolded share_inv_def] and q = Dequeue_queued [OF d]
  let ?ts = "map (\<lambda>(a, m). pages m) (queued t)"
  have f: "pages t = pages s" "heap t = heap s" "free_pages t = free_pages s" "spare t = spare s" "malloc t = malloc s"
    by (subst q(2), simp add: free_pages_def)+
  have "heap_ok N (heap t) (free_pages t) (pages t # pages n # ?ts)"
    by (rule heap_ok_subset [where ts = "tables s"])
      (use inv in \<open>simp_all add: heap_inv_def f tables_def q(1)\<close>)
  note r = heap_ok_release [OF this]
  define u where "u = release (pages t) t"
  have u: "heap_ok N (heap u) (free_pages u) ([] # pages n # ?ts)"
    "u = t\<lparr>heap := heap u, palloc := palloc u\<rparr>"
    using r by (simp_all add: u_def)
  have uf: "pages u = pages t" "spare u = spare t" "malloc u = malloc t" "runq u = runq t"
    by (subst u(2), simp)+
  let ?arr = "replicate (length (pages t)) None @ spare t"
  let ?w = "switch a n (free t)"
  have w: "heap ?w = heap u" "free_pages ?w = free_pages u" "queued ?w = queued t" "pages ?w = pages n"
    "spare ?w = spare n" "free_machs ?w = free_machs_of (free_mach_of (malloc t) (self u, ?arr))"
    using uf by (simp_all add: free_def Let_def FreeMach_def free_pages_def queued_def u_def [symmetric])
  have "tables ?w = pages n # ?ts" by (simp add: tables_def w)
  moreover have "heap_ok N (heap ?w) (free_pages ?w) (pages n # ?ts)"
    unfolding w by (rule heap_ok_subset [OF u(1)]) simp
  moreover have "\<forall>t \<in> set (pages n # ?ts). tab_inj t"
    using inv by (auto simp: tables_def q(1))
  moreover have "arrays_nil ?w"
  proof -
    have "all_nil ?arr" using inv by (auto simp: arrays_nil_def all_nil_def f)
    moreover have "\<forall>(b, arr) \<in> set (free_machs ?w). (b, arr) \<in> set (free_machs s) \<or> arr = ?arr"
      using free_mach_of_set [of "malloc t" "(self u, ?arr)"] unfolding w f by auto
    ultimately show ?thesis using inv by (fastforce simp: arrays_nil_def w q(1))
  qed
  ultimately show ?thesis using inv by (simp add: share_inv_def heap_inv_def)
qed

lemma share_sched:
  assumes "share_inv n s" "n + 1 < 2 ^ 31 - 1" "sched s s'"
  shows "share_inv (n + 1) s'"
  using assms(3)
proof (cases rule: sched.cases)
  case stepped
  have "kept (sharing (Suc n)) (step s)"
    by (rule sharing.steps.step) (simp_all add: sharing_def assms(1))
  with stepped have "sharing (Suc n) s'" by simp
  with assms(2) show ?thesis by (simp add: sharing_def)
next
  case (resumed a m t)
  then show ?thesis using share_mono [OF share_resume [OF assms(1)]] by simp
qed

lemma share_sched_n:
  "sched_n k s s' \<Longrightarrow> share_inv n s \<Longrightarrow> n + k < 2 ^ 31 - 1 \<Longrightarrow> share_inv (n + k) s'"
proof (induction rule: sched_n.induct)
  case (start k s)
  then show ?case by (auto intro: share_mono)
next
  case (more k s t u)
  then show ?case using share_sched [of "n + k" t u] by simp
qed

text \<open>
  C4: a run keeps the sharing invariant through every operation of every machine, and every end
  of a machine, whose pages are given back.
\<close>
theorem run_sharing:
  assumes "share_inv n s" "n + fuel < 2 ^ 31 - 1" "run H fuel h s = Done (e, h', s')"
  shows "share_inv (n + fuel) s'"
  using run_reaches [OF assms(3)] share_sched_n assms(1,2) by blast

text \<open>The smallest program: a machine over empty memory crashes at once.\<close>

lemma share_blank: "share_inv 1 (blank b)"
  by (simp add: share_inv_def heap_inv_def heap_ok_def blank_def tables_def queued_def
      free_pages_def tab_inj_def arrays_nil_def all_nil_def)

lemma read_blank: "read 64 (blank 64) = (65, 0, 0, None)"
proof -
  have "replicate 6 x = [x, x, x, x, x, x]" for x :: u8 by (simp add: numeral_eq_Suc)
  then have "fetchBytes 64 (replicate 6 0) (blank 64) = (6, [0, 0, 0, 0, 0, 0])"
    by (simp add: fetchBytes_def demo_addr fetch_loop.simps page_of_def blank_def pageSize_def)
  then show ?thesis
    by (simp add: read_def readVarCode_def validate_def hasImm_def opCodeWithImm_def opcode_code_def
        Let_def ops_def opdef_defs imm_kind_def imm_kind_defs imm_required_def)
qed

lemma step_blank: "\<exists>s. step (blank 64) = Some s \<and> err s = Some ErrCrashed \<and> runq s = NoQueue \<and> ip s = 65"
proof -
  have f: "ip (blank 64) = 64" "cbp (blank 64) = 60" "limit (blank 64) = 0" "caches (blank 64) = [[]]"
    "opc (blank 64) = 0" "runq (blank 64) = NoQueue" by (simp_all add: blank_def)
  show ?thesis
    by (simp add: step_def Let_def get_def set_op_def f read_blank exec_def exec_stack_def opcode_code_def
        opCodeWithImm_def hasImm_def op_of_def all_ops_def)
qed

lemma run_blank:
  "\<exists>s. run defaultHandler 2 () (blank 64) = Done (Some (MachError 65 (Inr ErrCrashed)), (), s)"
proof -
  obtain s where s: "step (blank 64) = Some s" "err s = Some ErrCrashed" "ip s = 65" using step_blank by blast
  have "err (blank 64) = None" by (simp add: blank_def)
  with s show ?thesis
    by (simp add: numeral_2_eq_2 defaultHandler_def Err_def halted_def)
qed

theorem run_sharing_witness:
  "\<exists>e s. run defaultHandler 2 () (blank 64) = Done (e, (), s) \<and> share_inv (1 + 2) s"
  using run_blank run_sharing [OF share_blank, of 2 defaultHandler "()" 64] by fastforce

end
