(* ===== verification/Frames.thy ===== *)
theory Frames
  imports Isolation
begin

text \<open>
  What the operations leave alone, whatever the state of the memory: each changes the memory, the
  registers it is about, and nothing else.
\<close>

subsection \<open>Frames of the primitives\<close>

lemma ref_frame:
  assumes "ref addr s = (r, s')"
  shows "\<exists>h al ps sp. s' = s\<lparr>heap := h, palloc := al, pages := ps, spare := sp\<rparr>"
proof -
  obtain p t where al: "AllocPage s = (p, t)" by fastforce
  have t: "t = s\<lparr>heap := heap t, palloc := palloc t\<rparr>" by (rule AllocPage_state [OF al])
  obtain q u where al': "AllocPage (grow_pages (page_index addr) s) = (q, u)" by fastforce
  have u: "u = (grow_pages (page_index addr) s)\<lparr>heap := heap u, palloc := palloc u\<rparr>"
    by (rule AllocPage_state [OF al'])
  have g: "\<exists>ps sp. grow_pages i s = s\<lparr>pages := ps, spare := sp\<rparr>" for i
    by (rule exI [of _ "pages (grow_pages i s)"], rule exI [of _ "spare (grow_pages i s)"])
      (simp add: grow_pages_def)
  have frT: "\<exists>h al ps sp. t\<lparr>heap := h', pages := ps'\<rparr> =
      s\<lparr>heap := h, palloc := al, pages := ps, spare := sp\<rparr>" for h' ps'
    by (subst t, rule exI [of _ h'], rule exI [of _ "palloc t"], rule exI [of _ ps'],
        rule exI [of _ "spare s"]) simp
  have frU: "\<exists>h al ps sp. u\<lparr>heap := h', pages := ps'\<rparr> =
      s\<lparr>heap := h, palloc := al, pages := ps, spare := sp\<rparr>" for h' ps'
  proof -
    obtain ps sp where "grow_pages (page_index addr) s = s\<lparr>pages := ps, spare := sp\<rparr>" using g by blast
    then have "u\<lparr>heap := h', pages := ps'\<rparr> =
        s\<lparr>heap := h', palloc := palloc u, pages := ps', spare := sp\<rparr>"
      by (subst u) simp
    then show ?thesis by blast
  qed
  have frS: "\<exists>h al ps sp. s = s\<lparr>heap := h, palloc := al, pages := ps, spare := sp\<rparr>"
    by (rule exI [of _ "heap s"], rule exI [of _ "palloc s"], rule exI [of _ "pages s"],
        rule exI [of _ "spare s"]) simp
  show ?thesis
    using assms frS frT frU
    by (auto simp: ref_def Let_def al al' upd_page_def split: if_splits option.splits)
qed

lemma store_to_frame:
  "store_to l v s = Some s' \<Longrightarrow> \<exists>h x. s' = s\<lparr>heap := h, pa := x\<rparr>"
  by (auto simp: store_to_def upd_page_def split: loc.splits if_splits)
    (rule exI [of _ "heap s"], auto, rule exI, rule exI [of _ "pa s"], simp)

lemma retain_frame: "\<exists>h. retain t s = s\<lparr>heap := h\<rparr>"
  using retain_heap by blast

lemma copy_frame:
  assumes "copy s = (Inr (a, m), s')"
  shows "\<exists>al n h. s' = s\<lparr>malloc := al, next_mach := n, heap := h\<rparr>"
    and "\<exists>ps sp. m = (cur s)\<lparr>pages := ps, spare := sp\<rparr>"
    and "limit m = limit s" "count m = count s"
proof -
  obtain r al n where al: "alloc_mach_of (malloc s) (next_mach s) = (r, al, n)" by (metis surj_pair)
  with assms obtain arr where r: "r = Inr (a, arr)"
    by (cases r) (auto simp: copy_def AllocMach_def Let_def split: prod.splits)
  let ?s = "s\<lparr>malloc := al, next_mach := n\<rparr>"
  have "s' = retain (pages s) ?s" using assms by (auto simp: copy_def AllocMach_def al r Let_def)
  with retain_frame [of "pages s" ?s] show "\<exists>al n h. s' = s\<lparr>malloc := al, next_mach := n, heap := h\<rparr>"
    by metis
  have "m = (cur ?s)\<lparr>pages := pages m, spare := spare m\<rparr>"
    using assms by (auto simp: copy_def AllocMach_def al r Let_def)
  moreover have "cur ?s = cur s" by (simp add: cur_def mach.defs)
  ultimately have m: "m = (cur s)\<lparr>pages := pages m, spare := spare m\<rparr>" by simp
  then show "\<exists>ps sp. m = (cur s)\<lparr>pages := ps, spare := sp\<rparr>" by blast
  show "limit m = limit s" "count m = count s"
    by (subst m, simp add: cur_def mach.defs)+
qed

subsection \<open>Registers\<close>

definition frame :: "vm \<Rightarrow> vm \<Rightarrow> bool" where
  "frame s s' \<longleftrightarrow> pbp s' = pbp s \<and> cbp s' = cbp s \<and> ip s' = ip s \<and> err s' = err s \<and>
     count s' = count s \<and> limit s' = limit s \<and> runq s' = runq s \<and> self s' = self s \<and>
     caches s' = caches s \<and> opc s' = opc s"

lemma frame_refl [simp]: "frame s s"
  by (simp add: frame_def)

lemma frame_trans: "frame s t \<Longrightarrow> frame t u \<Longrightarrow> frame s u"
  by (simp add: frame_def)

lemma frame_regs [simp]:
  "frame s (t\<lparr>pa := x\<rparr>) = frame s t" "frame s (t\<lparr>psp := x\<rparr>) = frame s t"
  "frame s (t\<lparr>csp := x\<rparr>) = frame s t" "frame s (t\<lparr>heap := h\<rparr>) = frame s t"
  by (simp_all add: frame_def)

lemma ref_regs: "ref a s = (r, s') \<Longrightarrow> frame s s' \<and> psp s' = psp s \<and> csp s' = csp s \<and> pa s' = pa s"
  by (auto dest!: ref_frame simp: frame_def)

lemma ref_LocMem: "ref a s \<noteq> (Inr LocPA, s')"
  by (auto simp: ref_def Let_def split: if_splits prod.splits option.splits)

lemma store_regs:
  assumes "store a v s = Some (e, s')"
  shows "frame s s' \<and> psp s' = psp s \<and> csp s' = csp s \<and> pa s' = pa s"
proof -
  obtain r t where r: "ref a s = (r, t)" by fastforce
  note f = ref_regs [OF r]
  show ?thesis
  proof (cases r)
    case (Inl e)
    with r assms f show ?thesis by (auto simp: store_def)
  next
    case (Inr l)
    then obtain p off where "l = LocMem p off" using r ref_LocMem by (cases l) auto
    with r Inr assms f show ?thesis
      by (auto simp: store_def store_to_def upd_page_def split: if_splits Option.bind_splits)
  qed
qed

lemma push_regs:
  assumes "push v s = Some (e, s')"
  shows "frame s s' \<and> csp s' = csp s \<and> (psp s' = psp s \<or> psp s' = psp s + 4)"
proof (cases "store (psp s) (pa s) s")
  case None
  with assms show ?thesis by (auto simp: push_def Let_def split: if_splits)
next
  case (Some r)
  obtain e' t where r: "r = (e', t)" by fastforce
  from Some r have f: "frame s t" "csp t = csp s" "psp t = psp s" using store_regs by auto
  from assms Some r show ?thesis
    by (simp add: push_def Let_def split: if_splits) (use f in auto)
qed

lemma drop_regs:
  assumes "drop_m s = Some (e, s')"
  shows "frame s s' \<and> csp s' = csp s \<and> (psp s' = psp s \<or> psp s' = psp s - 4)"
  using assms
  by (auto simp: drop_m_def Let_def split: if_splits Option.bind_splits prod.splits)

lemma cpush_regs:
  assumes "cpush v s = Some (e, s')"
  shows "frame s s' \<and> psp s' = psp s \<and> (csp s' = csp s \<or> csp s' = csp s - 4)"
proof (cases "store (csp s) v s")
  case None
  with assms show ?thesis by (auto simp: cpush_def Let_def split: if_splits)
next
  case (Some r)
  obtain e' t where r: "r = (e', t)" by fastforce
  from Some r have f: "frame s t" "psp t = psp s" "csp t = csp s" using store_regs by auto
  from assms Some r show ?thesis
    by (simp add: cpush_def Let_def split: if_splits) (use f in auto)
qed

lemma cpop_regs:
  assumes "cpop s = Some (r, s')"
  shows "frame s s' \<and> psp s' = psp s \<and> (csp s' = csp s \<or> csp s' = csp s + 4)"
  using cpop_csp [OF assms] by auto

lemma store_to_regs:
  "store_to l v s = Some s' \<Longrightarrow> frame s s' \<and> psp s' = psp s \<and> csp s' = csp s"
  by (auto dest!: store_to_frame)

end
