(* ===== verification/Queueing.thy ===== *)
theory Queueing
  imports Frames
begin

text \<open>
  What the run queue of a traced machine sees: \<open>machTracer.Enqueue\<close> of \<open>api.go\<close> calls \<open>Queue\<close> of the tracer with the
  machine, as it is in the middle of its step, and with the machine that it then enqueues.

  Each definition follows the operation of \<open>Control\<close> and \<open>Exec\<close> that it is named after, up to its call of
  \<open>m.ctx.Enqueue(n)\<close>, and returns the arguments: none if the operation returns before, or panics.
\<close>

type_synonym queue_calls = "(vm \<times> nat \<times> mach) list"

definition fork_queues :: "u32 \<Rightarrow> vm \<Rightarrow> queue_calls" where
  "fork_queues off s =
     (let a = ip s + off
      in if a \<ge> pbp s \<and> a \<le> cbp s then []
         else case copy s of
           (Inl e, s) \<Rightarrow> []
         | (Inr (na, n), s) \<Rightarrow> [(s, na, n\<lparr>ip := a\<rparr>)])"

definition cfork_queues :: "vm \<Rightarrow> queue_calls" where
  "cfork_queues s =
     (case copy s of
        (Inl e, s) \<Rightarrow> []
      | (Inr (na, n), s) \<Rightarrow>
          (case cpop (switch na n s) of
             None \<Rightarrow> []
           | Some ((a, e), t) \<Rightarrow>
               if e \<noteq> None then []
               else (let (e, t) = jumpTo a t in if e \<noteq> None then [] else [(switch (self s) (cur s) t, na, cur t)])))"

definition branch_queues :: "u32 \<Rightarrow> vm \<Rightarrow> queue_calls" where
  "branch_queues off s =
     (let a = ip s + off
      in if a \<ge> pbp s \<and> a \<le> cbp s then []
         else case copy s of
           (Inl e, s) \<Rightarrow> []
         | (Inr n, s) \<Rightarrow> [(s\<lparr>ip := a\<rparr>, n)])"

definition cbranch_queues :: "vm \<Rightarrow> queue_calls" where
  "cbranch_queues s =
     (case copy s of
        (Inl e, s) \<Rightarrow> []
      | (Inr n, s) \<Rightarrow>
          (case cpop s of
             None \<Rightarrow> []
           | Some ((a, e), s) \<Rightarrow> if e \<noteq> None then [] else [(s, n)]))"

definition popping_queues :: "(u32 \<Rightarrow> vm \<Rightarrow> queue_calls) \<Rightarrow> vm \<Rightarrow> queue_calls" where
  "popping_queues f s =
     (case pop s of None \<Rightarrow> [] | Some ((v, e), s) \<Rightarrow> if e \<noteq> None then [] else f v s)"

definition exec_queues :: "u8 \<Rightarrow> u32 \<Rightarrow> vm \<Rightarrow> queue_calls" where
  "exec_queues code arg s =
     (case (op_of (opcode_code code), hasImm code) of
        (Some OpFork, False) \<Rightarrow> popping_queues fork_queues s
      | (Some OpFnz, False) \<Rightarrow> popping_queues (\<lambda>v s. if v \<noteq> 0 then cfork_queues s else []) s
      | (Some OpFz, False) \<Rightarrow> popping_queues (\<lambda>v s. if v = 0 then cfork_queues s else []) s
      | (Some OpFork, True) \<Rightarrow> fork_queues arg s
      | (Some OpFnz, True) \<Rightarrow> popping_queues (\<lambda>v s. if v \<noteq> 0 then fork_queues arg s else []) s
      | (Some OpFz, True) \<Rightarrow> popping_queues (\<lambda>v s. if v = 0 then fork_queues arg s else []) s
      | (Some OpBranch, False) \<Rightarrow> popping_queues branch_queues s
      | (Some OpBnz, False) \<Rightarrow>
          (case pop s of None \<Rightarrow> [] | Some ((v, e), s) \<Rightarrow> if e \<noteq> None \<and> v \<noteq> 0 then cbranch_queues s else [])
      | (Some OpBz, False) \<Rightarrow> popping_queues (\<lambda>v s. if v = 0 then cbranch_queues s else []) s
      | (Some OpBranch, True) \<Rightarrow> branch_queues arg s
      | (Some OpBnz, True) \<Rightarrow> popping_queues (\<lambda>v s. if v \<noteq> 0 then branch_queues arg s else []) s
      | (Some OpBz, True) \<Rightarrow> popping_queues (\<lambda>v s. if v = 0 then branch_queues arg s else []) s
      | _ \<Rightarrow> [])"

definition step_queues :: "vm \<Rightarrow> queue_calls" where
  "step_queues s =
     (if limit s \<noteq> 0 \<and> count s \<ge> limit s then []
      else
        (let s = (if limit s \<noteq> 0 then s\<lparr>count := count s + 1\<rparr> else s);
             ck = ip s - cbp s
         in case get ck s of
           Some oc \<Rightarrow> exec_queues (co_code oc) (co_arg oc) (s\<lparr>ip := co_ip oc\<rparr>)
         | None \<Rightarrow>
             (let (end, code, arg, e) = read (ip s) s;
                  s = s\<lparr>err := e\<rparr>
              in if e \<noteq> None then []
                 else case set_op ck \<lparr>co_ip = end, co_code = code, co_arg = arg\<rparr> s of
                   None \<Rightarrow> []
                 | Some s \<Rightarrow> exec_queues code arg (s\<lparr>ip := end\<rparr>))))"

subsection \<open>The calls are those of the step\<close>

text \<open>What is queued in the end is what was, and the machine that \<open>Queue\<close> was told of, if the queue takes it.\<close>

definition place :: "vm \<Rightarrow> nat \<times> run_queue" where
  "place s = (self s, runq s)"

definition queueing :: "queue_calls \<Rightarrow> vm \<Rightarrow> vm \<Rightarrow> bool" where
  "queueing cs s s' \<longleftrightarrow>
     (case cs of
        [] \<Rightarrow> place s' = place s
      | [(m, n)] \<Rightarrow> place m = place s \<and> place s' = place (snd (Enqueue n m))
      | _ \<Rightarrow> False)"

lemma queueing_simps [simp]:
  "queueing [] s s' \<longleftrightarrow> place s' = place s"
  "queueing [(m, n)] s s' \<longleftrightarrow> place m = place s \<and> place s' = place (snd (Enqueue n m))"
  by (simp_all add: queueing_def)

lemma place_same: "place s' = place s \<Longrightarrow> self s' = self s \<and> queued s' = queued s"
  by (simp add: place_def queued_def)

lemma place_frame: "frame s s' \<Longrightarrow> place s' = place s"
  by (simp add: frame_def place_def queued_def)

interpretation unqueued: quiet_invariant "\<lambda>n s. place s = q" for q
proof unfold_locales
  fix n s x
  assume q: "place s = q"
  show "place (s\<lparr>pa := x\<rparr>) = q" using q by (simp add: place_def queued_def)
  show "place (s\<lparr>err := e\<rparr>) = q" for e using q by (simp add: place_def queued_def)
  show "place (snd (jumpTo a s)) = q" for a using q by (simp add: jumpTo_def place_def queued_def)
  show "keeps (\<lambda>s. place s = q) (push v s)" for v
    unfolding keeps_def using push_regs place_frame q by metis
  show "keeps (\<lambda>s. place s = q) (drop_m s)" unfolding keeps_def using drop_regs place_frame q by metis
  show "keeps (\<lambda>s. place s = q) (cpush v s)" for v unfolding keeps_def using cpush_regs place_frame q by metis
  show "keeps (\<lambda>s. place s = q) (cpop s)" unfolding keeps_def using cpop_regs place_frame q by metis
  show "keeps (\<lambda>s. place s = q) (store a v s)" for a v
    unfolding keeps_def using store_regs place_frame q by metis
  show ref: "place (snd (ref a s)) = q" for a
    using ref_regs [of a s "fst (ref a s)" "snd (ref a s)"] place_frame q by auto
  show "kept (\<lambda>s. place s = q) (store_to l v s')" if "ref a s = (Inr l, s')" for a l v s'
    using ref [of a] that store_to_regs place_frame unfolding kept_def by (metis snd_conv)
qed

lemma place_copy: "copy s = (r, s') \<Longrightarrow> place s' = place s"
proof (cases r)
  case (Inl e)
  then show "copy s = (r, s') \<Longrightarrow> place s' = place s" by (auto dest!: copy_error_state simp: place_def queued_def)
next
  case (Inr m)
  then show "copy s = (r, s') \<Longrightarrow> place s' = place s" by (cases m) (auto dest!: copy_frame(1) simp: place_def queued_def)
qed

lemma queueing_cong: "place s = place t \<Longrightarrow> place s' = place t' \<Longrightarrow> queueing cs s s' = queueing cs t t'"
  by (auto simp: queueing_def split: list.splits)

lemma place_jumpTo: "place (snd (jumpTo a s)) = place s"
  by (simp add: jumpTo_def place_def queued_def)

lemma place_regs [simp]: "place (s\<lparr>ip := x\<rparr>) = place s" "place (s\<lparr>err := e\<rparr>) = place s" "place (s\<lparr>csp := x\<rparr>) = place s"
  "place (s\<lparr>count := n\<rparr>) = place s"
  by (simp_all add: place_def queued_def)

lemma fork_queueing: "queueing (fork_queues off s) s (snd (fork off s))"
  using place_copy
  by (auto simp: fork_queues_def fork_def Let_def split: prod.split sum.split)

lemma branch_queueing: "queueing (branch_queues off s) s (snd (branch off s))"
  using place_copy
  by (auto simp: branch_queues_def branch_def Let_def split: prod.split sum.split)

lemma cfork_queueing:
  assumes "cfork s = Some (e, s')"
  shows "queueing (cfork_queues s) s s'"
proof (cases s rule: copy_cases)
  case (error x t)
  with assms place_copy [OF error] show ?thesis by (simp add: cfork_def cfork_queues_def)
next
  case (copied a m t)
  note q = place_copy [OF copied]
  show ?thesis
  proof (rule cpop_cases [of "switch a m t"])
    assume "cpop (switch a m t) = None"
    with assms show ?thesis by (simp add: cfork_def copied)
  next
    fix r assume "cpop (switch a m t) = Some (r, switch a m t)"
    with assms q show ?thesis
      by (cases r) (auto simp: cfork_def cfork_queues_def copied jumpTo_def Let_def switch_back split: if_splits)
  next
    fix r assume "cpop (switch a m t) = Some (r, (switch a m t)\<lparr>csp := csp (switch a m t) + 4\<rparr>)"
    with assms q show ?thesis
      by (cases r) (auto simp: cfork_def cfork_queues_def copied jumpTo_def Let_def switch_back split: if_splits)
  qed
qed

lemma cbranch_queueing:
  assumes "cbranch s = Some (e, s')"
  shows "queueing (cbranch_queues s) s s'"
proof (cases s rule: copy_cases)
  case (error x t)
  with assms place_copy [OF error] show ?thesis by (simp add: cbranch_def cbranch_queues_def)
next
  case (copied a m t)
  then obtain x y u where c: "cpop t = Some ((x, y), u)" using assms by (cases "cpop t") (auto simp: cbranch_def)
  have "place u = place t" using cpop_regs [OF c] by (intro place_frame) simp
  then have "place u = place s" using place_copy [OF copied] by simp
  moreover have "s' = snd (Enqueue (a, m) u) \<or> s' = snd (jumpTo x (snd (Enqueue (a, m) u)))" if "y = None"
    using assms that by (auto simp: cbranch_def copied c split: prod.splits if_splits)
  ultimately show ?thesis
    using assms by (cases y) (auto simp: cbranch_queues_def copied c place_jumpTo cbranch_def)
qed

lemma popping_queueing:
  assumes "popping f s = Some s'" and f: "\<And>v t e u. f v t = Some (e, u) \<Longrightarrow> queueing (g v t) t u"
  shows "queueing (popping_queues g s) s s'"
proof -
  obtain v e t where p: "pop s = Some ((v, e), t)" using assms(1) by (cases "pop s") (auto simp: popping_def)
  have t: "place t = place s" using keepsD [OF unqueued.pop [OF refl] p] .
  show ?thesis
  proof (cases e)
    case (Some x)
    with assms(1) p t show ?thesis by (auto simp: popping_def popping_queues_def)
  next
    case None
    then obtain x u where u: "f v t = Some (x, u)" "s' = u\<lparr>err := x\<rparr>"
      using assms(1) by (cases "f v t") (auto simp: popping_def p seterr_def)
    have "queueing (g v t) s s' = queueing (g v t) t u" using t by (intro queueing_cong) (simp_all add: u(2))
    with f [OF u(1)] None p show ?thesis by (simp add: popping_queues_def)
  qed
qed

lemma seterr_queueing: "seterr (Some r) = Some s' \<Longrightarrow> queueing cs s (snd r) \<Longrightarrow> queueing cs s s'"
proof (cases r)
  case (Pair e u)
  assume "seterr (Some r) = Some s'" "queueing cs s (snd r)"
  then have u: "s' = u\<lparr>err := e\<rparr>" "queueing cs s u" by (simp_all add: Pair seterr_def)
  have "queueing cs s s' = queueing cs s u" by (rule queueing_cong) (simp_all add: u(1))
  with u(2) show ?thesis by simp
qed

lemma fork_queued: "fork off s = (e, u) \<Longrightarrow> queueing (fork_queues off s) s u"
  using fork_queueing [of off s] by simp

lemma branch_queued: "branch off s = (e, u) \<Longrightarrow> queueing (branch_queues off s) s u"
  using branch_queueing [of off s] by simp

lemmas queued_ops = fork_queued branch_queued cfork_queueing cbranch_queueing

lemma bnz_queueing:
  assumes "do { ((v, e), s) \<leftarrow> pop s; if e \<noteq> None \<and> v \<noteq> 0 then seterr (cbranch s) else Some (s\<lparr>err := e\<rparr>) } = Some s'"
  shows "queueing (case pop s of None \<Rightarrow> [] | Some ((v, e), s) \<Rightarrow> if e \<noteq> None \<and> v \<noteq> 0 then cbranch_queues s else []) s s'"
proof -
  obtain v e t where p: "pop s = Some ((v, e), t)" using assms by (cases "pop s") auto
  have t: "place t = place s" using keepsD [OF unqueued.pop [OF refl] p] .
  show ?thesis
  proof (cases "e \<noteq> None \<and> v \<noteq> 0")
    case True
    then obtain x u where u: "cbranch t = Some (x, u)" "s' = u\<lparr>err := x\<rparr>"
      using assms p by (cases "cbranch t") (auto simp: seterr_def)
    have "queueing (cbranch_queues t) s s' = queueing (cbranch_queues t) t u" using t by (intro queueing_cong) (simp_all add: u(2))
    with cbranch_queueing [OF u(1)] True p show ?thesis by simp
  next
    case False
    with assms p t show ?thesis by (auto split: if_splits)
  qed
qed

lemma exec_queueing:
  assumes "exec code arg s = Some s'"
  shows "queueing (exec_queues code arg s) s s'"
proof (cases "forks code")
  case False
  have "place s' = place s" using unqueued.quiet [OF refl False, where arg = arg and s = s] assms by simp
  moreover have "exec_queues code arg s = []" using False
    by (auto simp: forks_def exec_queues_def split: option.split opcode.split bool.split)
  ultimately show ?thesis by simp
next
  case True
  with assms have x: "exec_fork code arg s = Some s'" by (simp add: exec_forks)
  consider "op_of (opcode_code code) = Some OpFork" | "op_of (opcode_code code) = Some OpFnz" | "op_of (opcode_code code) = Some OpFz"
    | "op_of (opcode_code code) = Some OpBranch" | "op_of (opcode_code code) = Some OpBnz" | "op_of (opcode_code code) = Some OpBz"
    using True by (auto simp: forks_def)
  then show ?thesis
  proof cases
    case 1
    with x show ?thesis by (cases "hasImm code")
      (auto simp: exec_fork_def exec_queues_def intro: popping_queueing seterr_queueing fork_queueing queued_ops)
  next
    case 2
    with x show ?thesis by (cases "hasImm code")
      (auto simp: exec_fork_def exec_queues_def intro: queued_ops elim!: popping_queueing split: if_splits)
  next
    case 3
    with x show ?thesis by (cases "hasImm code")
      (auto simp: exec_fork_def exec_queues_def intro: queued_ops elim!: popping_queueing split: if_splits)
  next
    case 4
    with x show ?thesis by (cases "hasImm code")
      (auto simp: exec_fork_def exec_branch_def exec_queues_def intro: popping_queueing seterr_queueing branch_queueing queued_ops)
  next
    case 5
    show ?thesis
    proof (cases "hasImm code")
      case True
      with x 5 show ?thesis
        by (auto simp: exec_fork_def exec_branch_def exec_queues_def intro: queued_ops elim!: popping_queueing split: if_splits)
    next
      case False
      have "do { ((v, e), s) \<leftarrow> pop s; if e \<noteq> None \<and> v \<noteq> 0 then seterr (cbranch s) else Some (s\<lparr>err := e\<rparr>) } = Some s'"
        using x 5 False by (simp add: exec_fork_def exec_branch_def)
      from bnz_queueing [OF this] show ?thesis using 5 False by (simp add: exec_queues_def)
    qed
  next
    case 6
    with x show ?thesis by (cases "hasImm code")
      (auto simp: exec_fork_def exec_branch_def exec_queues_def intro: queued_ops elim!: popping_queueing split: if_splits)
  qed
qed

lemma step_queueing:
  assumes "step s = Some s'"
  shows "queueing (step_queues s) s s'"
proof -
  define t where "t = (if limit s \<noteq> 0 then s\<lparr>count := count s + 1\<rparr> else s)"
  have t: "place t = place s" by (simp add: t_def)
  show ?thesis
  proof (cases "limit s \<noteq> 0 \<and> count s \<ge> limit s")
    case True
    with assms show ?thesis by (auto simp: step_def step_queues_def)
  next
    case lim: False
    show ?thesis
    proof (cases "get (ip t - cbp t) t")
      case (Some oc)
      let ?t = "t\<lparr>ip := co_ip oc\<rparr>"
      have "exec (co_code oc) (co_arg oc) ?t = Some s'"
        using assms unfolding step_def if_not_P [OF lim] t_def [symmetric] Let_def by (simp add: Some)
      moreover have "queueing cs s s' = queueing cs ?t s'" for cs by (rule queueing_cong) (simp_all add: t)
      moreover have "step_queues s = exec_queues (co_code oc) (co_arg oc) ?t"
        unfolding step_queues_def if_not_P [OF lim] t_def [symmetric] Let_def by (simp add: Some)
      ultimately show ?thesis using exec_queueing by simp
    next
      case None
      obtain en code a e where r: "read (ip t) t = (en, code, a, e)" by (metis prod_cases4)
      have st: "step s = (if e \<noteq> None then Some (t\<lparr>err := e\<rparr>) else do {
            u \<leftarrow> set_op (ip t - cbp t) \<lparr>co_ip = en, co_code = code, co_arg = a\<rparr> (t\<lparr>err := e\<rparr>);
            exec code a (u\<lparr>ip := en\<rparr>) })"
        unfolding step_def if_not_P [OF lim] t_def [symmetric] Let_def by (simp add: None r)
      have qs: "step_queues s = (if e \<noteq> None then [] else
            case set_op (ip t - cbp t) \<lparr>co_ip = en, co_code = code, co_arg = a\<rparr> (t\<lparr>err := e\<rparr>) of
              None \<Rightarrow> [] | Some u \<Rightarrow> exec_queues code a (u\<lparr>ip := en\<rparr>))"
        unfolding step_queues_def if_not_P [OF lim] t_def [symmetric] Let_def by (simp add: None r)
      show ?thesis
      proof (cases "e = None")
        case False
        with assms st qs t show ?thesis by auto
      next
        case True
        then obtain u where u: "set_op (ip t - cbp t) \<lparr>co_ip = en, co_code = code, co_arg = a\<rparr> (t\<lparr>err := e\<rparr>) = Some u"
          "exec code a (u\<lparr>ip := en\<rparr>) = Some s'"
          using assms st by (auto split: Option.bind_splits)
        have "place u = place t" using u(1) by (auto simp: set_op_def Let_def place_def queued_def split: if_splits)
        then have "queueing cs s s' = queueing cs (u\<lparr>ip := en\<rparr>) s'" for cs by (intro queueing_cong) (simp_all add: t)
        with exec_queueing [OF u(2)] True u(1) qs show ?thesis by simp
      qed
    qed
  qed
qed

lemma self_Enqueue: "self (snd (Enqueue n m)) = self m"
  by (auto simp: Enqueue_def split: run_queue.splits prod.splits)

lemma place_Enqueue:
  "place (snd (Enqueue n m)) = (self m, case runq m of NoQueue \<Rightarrow> NoQueue
    | RunQ c q \<Rightarrow> RunQ c (if length q = c then q else q @ [n]))"
  by (auto simp: Enqueue_def place_def split: run_queue.split)

text \<open>
  C23: in a step \<open>Queue\<close> is called at most once, and before the run queue is asked, so also for a machine that it then
  refuses.  Without a call the step leaves the run queue alone; with one the queue gets the very machine of the call
  behind the others, and if it is full, or there is none, then nothing.
\<close>
theorem step_queues_all:
  assumes "step s = Some s'"
  shows "self s' = self s \<and> (case step_queues s of
      [] \<Rightarrow> runq s' = runq s
    | [(m, n)] \<Rightarrow> self m = self s \<and> runq m = runq s \<and>
        runq s' = (case runq s of NoQueue \<Rightarrow> NoQueue
          | RunQ c q \<Rightarrow> RunQ c (if length q = c then q else q @ [n]))
    | _ \<Rightarrow> False)"
  using step_queueing [OF assms] by (auto simp: queueing_def place_Enqueue split: list.splits) (auto simp: place_def)

text \<open>A machine about to execute \<open>fork +36\<close> at address 64, the last operation that its limit allows.\<close>

definition forking :: vm where
  "forking = (blank 64)\<lparr>pages := [None, Some 0], heap := [\<lparr>rc = 1, dat = 0xa4 # 0x40 # replicate 62 0\<rparr>],
     limit := 1, runq := RunQ 1 []\<rparr>"

lemma forking_fields:
  "ip forking = 64" "cbp forking = 60" "pbp forking = 0" "limit forking = 1" "count forking = 0" "opc forking = 0"
  "self forking = 0" "malloc forking = DefaultMachs" "next_mach forking = 1" "runq forking = RunQ 1 []" "err forking = None"
  "pages forking = [None, Some 0]" "heap forking = [\<lparr>rc = 1, dat = 0xa4 # 0x40 # replicate 62 0\<rparr>]" "caches forking = [[]]"
  by (simp_all add: forking_def blank_def)

lemma read_forking: "read 64 (forking\<lparr>count := c\<rparr>) = (66, 0xc0, 36, None)" "read 64 forking = (66, 0xc0, 36, None)"
proof -
  have "replicate 6 x = [x, x, x, x, x, x]" for x :: u8 by (simp add: numeral_eq_Suc)
  then have "fetchBytes 64 (replicate 6 0) (forking\<lparr>count := c\<rparr>) = (6, [0xa4, 0x40, 0, 0, 0, 0])" for c
    by (simp add: fetchBytes_def demo_addr fetch_loop.simps page_of_def forking_fields nth_Cons')
  then show r: "read 64 (forking\<lparr>count := c\<rparr>) = (66, 0xc0, 36, None)" for c
    by (simp add: read_def readVarCode_def validate_def hasImm_def opCodeWithImm_def opcode_code_def
        Let_def ops_def opdef_defs imm_kind_def imm_kind_defs imm_required_def)
  show "read 64 forking = (66, 0xc0, 36, None)" using r [of "count forking"] by simp
qed

lemma fork_code: "op_of 0x40 = Some OpFork" "opcode_code 0xc0 = 0x40" "hasImm 0xc0"
  by (simp_all add: op_of_def all_ops_def opcode_code_def hasImm_def opCodeWithImm_def)

lemmas fork_eval = Let_def forking_fields read_forking get_def set_op_def fork_code copy_def AllocMach_def Enqueue_def
  fork_def fork_queues_def exec_queues_def step_queues_def upd_page_def cur_def mach.defs

lemma step_forking:
  "\<exists>s' m. step forking = Some s' \<and> ip s' = 66 \<and> err s' = None \<and> limit s' = 1 \<and> count s' = 1 \<and> self s' = 0 \<and>
     runq s' = RunQ 1 [(1, m)] \<and> ip m = 102 \<and> err m = None \<and> limit m = 1 \<and> count m = 1"
  by (simp add: step_def exec_def exec_stack_def exec_memory_def exec_math_def exec_boolean_def exec_bitwise_def
      exec_bitvector_def exec_cstack_def exec_jump_def exec_call_def exec_fork_def seterr_def fork_eval)

lemma queues_forking: "\<exists>m n. step_queues forking = [(m, 1, n)] \<and> self m = 0"
  by (simp add: fork_eval)

theorem step_queues_all_witness:
  "\<exists>s' m n. step forking = Some s' \<and> step_queues forking = [(m, 1, n)] \<and> runq m = RunQ 1 [] \<and> runq s' = RunQ 1 [(1, n)]"
proof -
  obtain s' k where s': "step forking = Some s'" "runq s' = RunQ 1 [(1, k)]" using step_forking by blast
  obtain m n where q: "step_queues forking = [(m, 1, n)]" using queues_forking by blast
  from step_queues_all [OF s'(1)] q have "runq m = RunQ 1 []" "runq s' = RunQ 1 [(1, n)]"
    by (simp_all add: forking_fields)
  with s'(1) q show ?thesis by blast
qed

end
