(* ===== verification/Trace.thy ===== *)
theory Trace
  imports Run Queueing
begin

text \<open>
  Tracing: \<open>Trace\<close> of \<open>api.go\<close>, an instrumented copy of the run loop, and how it differs from \<open>run\<close>.

  A tracer is the record of its methods over a state of its own (\<open>'t\<close>); all the tracers of a trace
  share one state.  A \<open>*Mach\<close> that a method is passed is the state in which that machine runs.  The
  call of \<open>Queue\<close> is that of \<open>machTracer\<close>, the wrapped run queue, in the middle of a step: every machine that the
  trace runs is taken to be wrapped, as it is when the run queue is empty at the start (theory \<open>Wrapping\<close>).
\<close>

record ('t, 'e, 'v) tracer =
  Context :: "vm \<Rightarrow> string \<Rightarrow> 't \<Rightarrow> 'v option \<times> bool"
  Begin :: "vm \<Rightarrow> 't \<Rightarrow> 't"
  Before :: "vm \<Rightarrow> u32 \<Rightarrow> Op \<Rightarrow> 't \<Rightarrow> 't"
  After :: "vm \<Rightarrow> u32 \<Rightarrow> Op \<Rightarrow> 't \<Rightarrow> 't"
  Queue :: "vm \<Rightarrow> nat \<times> mach \<Rightarrow> 't \<Rightarrow> 't"
  End :: "vm \<Rightarrow> 't \<Rightarrow> 't"
  Handle :: "vm \<Rightarrow> 'e option \<Rightarrow> 't \<Rightarrow> 't"

definition queue_all :: "('t, 'e, 'v) tracer \<Rightarrow> queue_calls \<Rightarrow> 't \<Rightarrow> 't" where
  "queue_all T cs = fold (\<lambda>(m, n). Queue T m n) cs"

text \<open>
  The loop after \<open>t.Begin(m)\<close>.  An error of the decode ends the machine as an error of the step does.
\<close>

fun trace ::
  "('t, 'e, 'v) tracer \<Rightarrow> ('e, 'h) handler \<Rightarrow> nat \<Rightarrow> 'h \<Rightarrow> 't \<Rightarrow> vm \<Rightarrow> ('e option \<times> 'h \<times> 't \<times> vm) outcome" where
  "trace T H 0 h t s = Timeout"
| "trace T H (Suc fuel) h t s =
     (if err s = None then
        (let (end', code, arg, e) = read (ip s) s;
             readOp = \<lparr>Code = opcode_code code, Arg = arg, Have = hasImm code\<rparr>
         in if e \<noteq> None then trace T H fuel h t (s\<lparr>err := e\<rparr>)
            else
              (let t = Before T s (ip s) readOp t
               in case step s of
                    None \<Rightarrow> Panic
                  | Some s' \<Rightarrow>
                      (let t = queue_all T (step_queues s) t
                       in trace T H fuel h (if err s' \<noteq> None then t else After T s' (ip s') readOp t) s')))
      else
        (let t = End T s t
         in case H s h of
              (Some e, h) \<Rightarrow> Done (Some e, h, Handle T s (Some e) t, s)
            | (None, h) \<Rightarrow>
                (let t = Handle T s None t
                 in case Dequeue s of
                      (None, s) \<Rightarrow> Done (None, h, t, s)
                    | (Some (a, n), s) \<Rightarrow>
                        (let s = switch a n (free s) in trace T H fuel h (Begin T s t) s))))"

definition Trace ::
  "('t, 'e, 'v) tracer \<Rightarrow> ('e, 'h) handler \<Rightarrow> nat \<Rightarrow> 'h \<Rightarrow> 't \<Rightarrow> vm \<Rightarrow> ('e option \<times> 'h \<times> 't \<times> vm) outcome" where
  "Trace T H fuel h t s =
     (case trace T H fuel h (Begin T s t) s of
        Done (e, h, t, n) \<Rightarrow> Done (e, h, t, if self n \<noteq> self s then n\<lparr>self := self s\<rparr> else n)
      | Panic \<Rightarrow> Panic | Timeout \<Rightarrow> Timeout)"

subsection \<open>What a tracer can change\<close>

text \<open>The outcome without the tracer's state.\<close>

fun untraced :: "('e option \<times> 'h \<times> 't \<times> vm) outcome \<Rightarrow> ('e option \<times> 'h \<times> vm) outcome" where
  "untraced (Done (e, h, t, s)) = Done (e, h, s)"
| "untraced Panic = Panic"
| "untraced Timeout = Timeout"

lemma trace_independent: "untraced (trace T H fuel h t s) = untraced (trace T' H fuel h t' s)"
proof (induction fuel arbitrary: h t t' s)
  case (Suc fuel)
  obtain en code arg e where r: "read (ip s) s = (en, code, arg, e)" by (metis prod_cases4)
  obtain x h1 where H: "H s h = (x, h1)" by fastforce
  obtain d s1 where D: "Dequeue s = (d, s1)" by fastforce
  show ?case
  proof (cases "err s = None")
    case True
    then show ?thesis
      by (simp add: r Let_def del: untraced.simps split: option.split)
        (auto intro: Suc.IH)
  next
    case False
    then show ?thesis
      by (cases x; cases d) (auto simp: H D Let_def intro: Suc.IH)
  qed
qed simp

lemma untraced_Trace:
  "untraced (Trace T H fuel h t s) = (case untraced (trace T H fuel h (Begin T s t) s) of
      Done (e, h, n) \<Rightarrow> Done (e, h, if self n \<noteq> self s then n\<lparr>self := self s\<rparr> else n)
    | Panic \<Rightarrow> Panic | Timeout \<Rightarrow> Timeout)"
  by (cases "trace T H fuel h (Begin T s t) s" rule: untraced.cases) (simp_all add: Trace_def)

text \<open>
  A tracer only observes: whatever its methods do and record, the machine that a trace ends with,
  the error and the handler's state are the same as under any other tracer.
\<close>
theorem Trace_observes:
  "untraced (Trace T H fuel h t s) = untraced (Trace T' H fuel h t' s)"
  unfolding untraced_Trace by (subst trace_independent [where T' = T' and t' = "Begin T' s t'"]) (rule refl)

subsection \<open>Tracing and running\<close>

text \<open>\<open>decodes s\<close>: every machine that \<open>s\<close> comes to run decodes its next operation.\<close>

definition decodes :: "vm \<Rightarrow> bool" where
  "decodes s \<longleftrightarrow> (\<forall>n t. sched_n n s t \<longrightarrow> err t = None \<longrightarrow> snd (snd (snd (read (ip t) t))) = None)"

lemma decodes_sched: "decodes s \<Longrightarrow> sched s t \<Longrightarrow> decodes t"
  unfolding decodes_def using sched_n_front by blast

lemma trace_run:
  "decodes s \<Longrightarrow> untraced (trace T H fuel h t s) = run H fuel h s"
proof (induction fuel arbitrary: h t s)
  case (Suc fuel)
  obtain en code arg e where r: "read (ip s) s = (en, code, arg, e)" by (metis prod_cases4)
  obtain x h1 where H: "H s h = (x, h1)" by fastforce
  obtain d s1 where D: "Dequeue s = (d, s1)" by fastforce
  show ?case
  proof (cases "err s = None")
    case True
    have "e = None" using Suc.prems True sched_n.start r by (fastforce simp: decodes_def)
    show ?thesis
    proof (cases "step s")
      case None
      with True \<open>e = None\<close> show ?thesis by (simp add: r Let_def)
    next
      case (Some s')
      then have "decodes s'" using Suc.prems True by (blast intro: decodes_sched sched.stepped)
      with True Some \<open>e = None\<close> show ?thesis by (simp add: r Let_def Suc.IH)
    qed
  next
    case False
    then obtain e0 where e0: "err s = Some e0" by blast
    show ?thesis
    proof (cases "x = None \<and> d \<noteq> None")
      case True
      then obtain a n where d: "d = Some (a, n)" by auto
      have "decodes (switch a n (free s1))"
        using Suc.prems False D d by (blast intro: decodes_sched sched.resumed)
      with e0 True show ?thesis by (simp add: H D d Let_def Suc.IH)
    next
      case F: False
      with e0 show ?thesis by (cases x; cases d) (auto simp: H D Let_def)
    qed
  qed
qed simp

text \<open>
  C19: a trace does what a run does, step for step, as long as every machine it comes to run decodes
  its next operation.
\<close>
theorem Trace_runs:
  assumes "decodes s"
  shows "untraced (Trace T H fuel h t s) = Run H fuel h s"
  unfolding untraced_Trace trace_run [OF assms] Run_def by (simp split: outcome.split)

definition halting :: vm where
  "halting = (blank 64)\<lparr>pages := [None, Some 0], heap := [\<lparr>rc = 1, dat = 0x7f # replicate 63 0\<rparr>]\<rparr>"

lemma read_halting: "read 64 halting = (65, 0x7f, 0, None)"
proof -
  have "replicate 6 x = [x, x, x, x, x, x]" for x :: u8 by (simp add: numeral_eq_Suc)
  then have "fetchBytes 64 (replicate 6 0) halting = (6, [0x7f, 0, 0, 0, 0, 0])"
    by (simp add: fetchBytes_def demo_addr fetch_loop.simps page_of_def halting_def nth_Cons')
  then show ?thesis
    by (simp add: read_def readVarCode_def validate_def hasImm_def opCodeWithImm_def opcode_code_def
        Let_def ops_def opdef_defs imm_kind_def imm_kind_defs imm_required_def)
qed

lemma halt_code: "op_of 0x7f = Some OpHalt" "opcode_code 0x7f = 0x7f" "\<not> hasImm 0x7f"
  by (simp_all add: op_of_def all_ops_def opcode_code_def hasImm_def opCodeWithImm_def)

lemma step_halting: "step halting = Some t \<Longrightarrow> err t = Some ErrHalted \<and> runq t = NoQueue"
proof -
  have "ip halting = 64" "limit halting = 0" "cbp halting = 60" "caches halting = [[]]" "opc halting = 0"
    "runq halting = NoQueue" by (simp_all add: halting_def blank_def)
  then show "step halting = Some t \<Longrightarrow> err t = Some ErrHalted \<and> runq t = NoQueue"
    by (auto simp: step_def get_def set_op_def read_halting Let_def exec_def exec_stack_def exec_memory_def
        exec_math_def exec_boolean_def exec_bitwise_def exec_bitvector_def exec_cstack_def exec_jump_def
        exec_call_def exec_fork_def exec_branch_def exec_halt_def halt_code)
qed

lemma halting_reach:
  "sched_n n s u \<Longrightarrow> s = halting \<Longrightarrow> u = halting \<or> (err u \<noteq> None \<and> runq u = NoQueue)"
proof (induction rule: sched_n.induct)
  case (more n s t u)
  from \<open>sched t u\<close> show ?case
  proof (cases rule: sched.cases)
    case stepped
    with more.IH more.prems step_halting [of u] show ?thesis by auto
  next
    case (resumed a n t')
    with more.IH more.prems show ?thesis by (auto simp: Dequeue_def halting_def blank_def)
  qed
qed simp

text \<open>A trace with no methods.\<close>

definition silent :: "('t, 'e, 'v) tracer" where
  "silent = \<lparr>Context = \<lambda>a k t. (None, False), Begin = \<lambda>s t. t, Before = \<lambda>s i p t. t,
     After = \<lambda>s i p t. t, Queue = \<lambda>a b t. t, End = \<lambda>s t. t, Handle = \<lambda>s e t. t\<rparr>"

theorem Trace_runs_witness:
  "untraced (Trace silent defaultHandler 3 () () halting) = Run defaultHandler 3 () halting"
proof -
  have "u = halting \<or> (err u \<noteq> None \<and> runq u = NoQueue)" if "sched_n n halting u" for n u
    using halting_reach [OF that refl] .
  moreover have "ip halting = 64" by (simp add: halting_def blank_def)
  ultimately have "decodes halting" unfolding decodes_def by (metis read_halting snd_conv)
  from Trace_runs [OF this] show ?thesis .
qed

text \<open>
  But it decodes before it looks at the limit: at the limit of its operations, before an operation
  that does not decode, a run ends with the limit error and a trace with the decode error.
\<close>
theorem Trace_limit_differs:
  assumes "err s = None" "limit s \<noteq> 0" "limit s \<le> count s" "snd (snd (snd (read (ip s) s))) = Some e"
    "queued s = []"
  shows "\<exists>x h1 n y t1 h2 m. Run H (Suc (Suc fuel)) h s = Done (x, h1, n) \<and> err n = Some ErrLimit \<and>
    Trace T H (Suc (Suc fuel)) h t s = Done (y, h2, t1, m) \<and> err m = Some e"
proof -
  let ?n = "s\<lparr>err := Some ErrLimit\<rparr>" and ?m = "s\<lparr>err := Some e\<rparr>"
  obtain en code arg where r: "read (ip s) s = (en, code, arg, Some e)" using assms(4) by (metis prod.collapse)
  obtain x h1 where H1: "H ?n h = (x, h1)" by fastforce
  obtain y h2 where H2: "H ?m h = (y, h2)" by fastforce
  have D: "Dequeue ?n = (None, ?n)" "Dequeue ?m = (None, ?m)"
    using assms(5) by (auto simp: Dequeue_def queued_def split: run_queue.splits)
  have "step s = Some ?n" using assms(2,3) by (simp add: step_def)
  then have "Run H (Suc (Suc fuel)) h s = Done (x, h1, ?n)"
    using assms(1) D(1) by (cases x) (simp_all add: Run_def H1)
  moreover obtain t1 where "Trace T H (Suc (Suc fuel)) h t s = Done (y, h2, t1, ?m)"
    using assms(1) D(2) by (cases y) (auto simp: Trace_def r H2 Let_def)
  ultimately show ?thesis by auto
qed

definition stuck :: vm where
  "stuck = (blank 64)\<lparr>limit := 1, count := 1, ip := 128, pages := [None, None, Some 0],
     heap := [\<lparr>rc = 1, dat = replicate 64 0xff\<rparr>]\<rparr>"

lemma read_stuck: "snd (snd (snd (read 128 stuck))) = Some ErrVarIntTooBig"
proof -
  have "replicate 6 x = [x, x, x, x, x, x]" for x :: u8 by (simp add: numeral_eq_Suc)
  moreover have "page_index 128 = 2" "page_off 128 = 0" by (simp_all add: page_index_def page_off_def)
  ultimately have "fetchBytes 128 (replicate 6 0) stuck = (6, [0xff, 0xff, 0xff, 0xff, 0xff, 0xff])"
    by (simp add: fetchBytes_def fetch_loop.simps page_of_def stuck_def)
  then show ?thesis by (simp add: read_def readVarCode_def Let_def)
qed

theorem Trace_limit_differs_witness:
  "\<exists>x n y t m. Run defaultHandler 2 () stuck = Done (x, (), n) \<and> err n = Some ErrLimit \<and>
    Trace silent defaultHandler 2 () () stuck = Done (y, (), t, m) \<and> err m = Some ErrVarIntTooBig"
proof -
  have f: "err stuck = None" "limit stuck \<noteq> 0" "limit stuck \<le> count stuck" "queued stuck = []" "ip stuck = 128"
    by (simp_all add: stuck_def blank_def queued_def)
  have "snd (snd (snd (read (ip stuck) stuck))) = Some ErrVarIntTooBig" using read_stuck f(5) by simp
  from Trace_limit_differs [OF f(1-3) this f(4), of defaultHandler 0 "()" silent "()"]
  show ?thesis by (simp add: numeral_2_eq_2)
qed

end
