(* ===== verification/Actions.thy ===== *)
theory Actions
  imports Trace
begin

text \<open>
  Trace predicates (\<open>x/action\<close>): the actions, the predicates with their test, and the notation in
  which the command line states them, with the round trip between the two.
\<close>

subsection \<open>Actions\<close>

datatype (plugins only:) trace_action =
  TraceBegin | TraceEnd | TraceQueue | TraceBefore | TraceAfter | TraceHandle

fun action_String :: "trace_action \<Rightarrow> string" where
  "action_String TraceBegin = ''begin''"
| "action_String TraceEnd = ''end''"
| "action_String TraceQueue = ''queue''"
| "action_String TraceBefore = ''before''"
| "action_String TraceAfter = ''after''"
| "action_String TraceHandle = ''handle''"

definition all_actions :: "trace_action list" where
  "all_actions = [TraceBegin, TraceEnd, TraceQueue, TraceBefore, TraceAfter, TraceHandle]"

text \<open>\<open>TraceAction.Set\<close>; \<^const>\<open>None\<close> is the error for any other name.\<close>

definition action_Set :: "string \<Rightarrow> trace_action option" where
  "action_Set s = map_of (map (\<lambda>a. (action_String a, a)) all_actions) s"

subsection \<open>Predicates\<close>

datatype (plugins only: size) pred =
  PAct trace_action | PIsIP u32 | PIsOPName string | PAnyOPName "string list"
| PAny "pred list" | PAll "pred list" | PFixed bool | PTestFunc "trace_action \<Rightarrow> u32 \<Rightarrow> Op \<Rightarrow> bool"

abbreviation Never :: pred where "Never \<equiv> PFixed False"
abbreviation Always :: pred where "Always \<equiv> PFixed True"

definition Any :: "pred list \<Rightarrow> pred option" where
  "Any ps = (case ps of [] \<Rightarrow> None | [p] \<Rightarrow> Some p | _ \<Rightarrow> Some (PAny ps))"

definition All :: "pred list \<Rightarrow> pred option" where
  "All ps = (case ps of [] \<Rightarrow> None | [p] \<Rightarrow> Some p | _ \<Rightarrow> Some (PAll ps))"

text \<open>\<open>Test\<close>; an operation whose code is not in the table of names panics there and matches no name here.\<close>

fun Test :: "pred \<Rightarrow> trace_action \<Rightarrow> u32 \<Rightarrow> Op \<Rightarrow> bool" where
  "Test (PAct ta) act i op = (act = ta)"
| "Test (PIsIP a) act i op = (i = a)"
| "Test (PIsOPName nm) act i op = (op_Name op = Some nm)"
| "Test (PAnyOPName nms) act i op = list_ex (\<lambda>nm. op_Name op = Some nm) nms"
| "Test (PAny ps) act i op = list_ex (\<lambda>p. Test p act i op) ps"
| "Test (PAll ps) act i op = list_all (\<lambda>p. Test p act i op) ps"
| "Test (PFixed b) act i op = b"
| "Test (PTestFunc f) act i op = f act i op"

subsection \<open>Notation\<close>

text \<open>The classes \<open>\w\<close>, \<open>[0-9]\<close> and \<open>[0-9a-fA-F]\<close> of the pattern.\<close>

definition is_digit :: "char \<Rightarrow> bool" where
  "is_digit c \<longleftrightarrow> c \<in> set ''0123456789''"

definition is_hex :: "char \<Rightarrow> bool" where
  "is_hex c \<longleftrightarrow> c \<in> set ''0123456789abcdefABCDEF''"

definition is_word :: "char \<Rightarrow> bool" where
  "is_word c \<longleftrightarrow> c \<in> set ''0123456789abcdefghijklmnopqrstuvwxyzABCDEFGHIJKLMNOPQRSTUVWXYZ_''"

text \<open>\<open>strings.Split\<close> by one character, and \<open>strings.Join\<close>.\<close>

fun split_on :: "char \<Rightarrow> string \<Rightarrow> string list" where
  "split_on sep [] = [[]]"
| "split_on sep (c # cs) =
     (if c = sep then [] # split_on sep cs
      else (c # hd (split_on sep cs)) # tl (split_on sep cs))"

fun join :: "string \<Rightarrow> string list \<Rightarrow> string" where
  "join sep [] = []"
| "join sep [s] = s"
| "join sep (s # ss) = s @ sep @ join sep ss"

text \<open>The value of a digit of either base, and \<open>strconv.ParseUint\<close> with its limit of 32 bits.\<close>

definition digit_value :: "char \<Rightarrow> nat" where
  "digit_value c =
     (let n = of_char c :: nat
      in if n < 58 then n - 48 else if n < 71 then n - 55 else n - 87)"

definition number :: "nat \<Rightarrow> string \<Rightarrow> nat" where
  "number b s = foldl (\<lambda>n c. n * b + digit_value c) 0 s"

definition ParseUint :: "nat \<Rightarrow> string \<Rightarrow> u32 option" where
  "ParseUint b s = (if number b s < 2 ^ 32 then Some (of_nat (number b s)) else None)"

text \<open>
  What the pattern captures: the action, then an address or names of operations, if any.  The pattern
  is unambiguous, because none of its separators is a word character.
\<close>

datatype target = NoTarget | Dec string | Hex string | OpNames "string list"

definition match_target :: "string \<Rightarrow> target option" where
  "match_target r =
     (case r of
        [] \<Rightarrow> Some NoTarget
      | c # d \<Rightarrow>
          if c = CHR ''@'' then
            (if d \<noteq> [] \<and> list_all is_digit d then Some (Dec d)
             else if take 2 d = ''0x'' \<and> drop 2 d \<noteq> [] \<and> list_all is_hex (drop 2 d) then Some (Hex (drop 2 d))
             else None)
          else if c = CHR '':'' then
            (let nms = split_on (CHR '','') d
             in if list_all (\<lambda>nm. nm \<noteq> [] \<and> list_all is_word nm) nms then Some (OpNames nms) else None)
          else None)"

definition find_parts :: "string \<Rightarrow> (string \<times> target) option" where
  "find_parts s = map_option (\<lambda>t. (takeWhile is_word s, t)) (match_target (dropWhile is_word s))"

datatype parse_error = NotAPredicate | InvalidTraceAction | OutOfRange

definition target_preds :: "target \<Rightarrow> parse_error + pred list" where
  "target_preds t =
     (case t of
        NoTarget \<Rightarrow> Inr []
      | Dec d \<Rightarrow> (case ParseUint 10 d of None \<Rightarrow> Inl OutOfRange | Some a \<Rightarrow> Inr [PIsIP a])
      | Hex d \<Rightarrow> (case ParseUint 16 d of None \<Rightarrow> Inl OutOfRange | Some a \<Rightarrow> Inr [PIsIP a])
      | OpNames nms \<Rightarrow> Inr [if length nms = 1 then PIsOPName (hd nms) else PAnyOPName nms])"

definition ParsePredicate :: "string \<Rightarrow> parse_error + pred" where
  "ParsePredicate s =
     (if s = [] then Inr Never
      else case find_parts s of
        None \<Rightarrow> Inl NotAPredicate
      | Some (a, t) \<Rightarrow>
          (case (if a = [] then Inr [] else case action_Set a of
                   None \<Rightarrow> Inl InvalidTraceAction | Some act \<Rightarrow> Inr [PAct act]) of
             Inl e \<Rightarrow> Inl e
           | Inr ps \<Rightarrow>
               (case target_preds t of
                  Inl e \<Rightarrow> Inl e
                | Inr qs \<Rightarrow> Inr (case All (ps @ qs) of Some p \<Rightarrow> p | None \<Rightarrow> Never))))"

text \<open>\<open>%#x\<close> of a number.\<close>

definition hex_digit :: "nat \<Rightarrow> char" where
  "hex_digit n = ''0123456789abcdef'' ! n"

fun hex_string :: "nat \<Rightarrow> string" where
  "hex_string n = (if n < 16 then [hex_digit n] else hex_string (n div 16) @ [hex_digit (n mod 16)])"

declare hex_string.simps [simp del]

text \<open>\<^const>\<open>None\<close> stands for a text with \<open>!TYPE(VAL)\<close>, which is printed but not parsed.\<close>

fun PredicateString :: "pred \<Rightarrow> string option" where
  "PredicateString (PFixed b) = (if b then None else Some [])"
| "PredicateString (PAct ta) = Some (action_String ta)"
| "PredicateString (PIsIP a) = Some (''@0x'' @ hex_string (unat a))"
| "PredicateString (PIsOPName nm) = Some ('':'' @ nm)"
| "PredicateString (PAnyOPName nms) = Some ('':'' @ join '','' nms)"
| "PredicateString (PAll [PAct ta, p]) =
     (case PredicateString p of Some s \<Rightarrow> if s \<noteq> [] then Some (action_String ta @ s) else None | None \<Rightarrow> None)"
| "PredicateString _ = None"

subsection \<open>The command line flag\<close>

text \<open>\<open>strings.Fields\<close> on ASCII text.\<close>

definition is_space :: "char \<Rightarrow> bool" where
  "is_space c \<longleftrightarrow> c \<in> {CHR 0x20, CHR 0x09, CHR 0x0a, CHR 0x0b, CHR 0x0c, CHR 0x0d}"

function fields :: "string \<Rightarrow> string list" where
  "fields s =
     (let r = dropWhile is_space s
      in if r = [] then []
         else takeWhile (\<lambda>c. \<not> is_space c) r # fields (dropWhile (\<lambda>c. \<not> is_space c) r))"
  by pat_completeness auto
termination
proof (relation "measure length", goal_cases)
  case (2 s r)
  then have "r \<noteq> []" by blast
  then obtain c cs where r: "r = c # cs" by (meson neq_Nil_conv)
  have "\<not> is_space c" using 2 r by (metis hd_dropWhile list.sel(1))
  then have "length (dropWhile (\<lambda>c. \<not> is_space c) r) \<le> length cs" by (simp add: r length_dropWhile_le)
  also have "length cs < length r" by (simp add: r)
  also have "length r \<le> length s" using 2 by (simp add: length_dropWhile_le)
  finally show ?case by simp
qed simp

declare fields.simps [simp del]

text \<open>\<open>PredicateFlag\<close> is its list of predicates; a field that does not parse stops \<open>Set\<close>.\<close>

definition flag_add :: "string \<Rightarrow> pred list \<Rightarrow> parse_error option \<times> pred list" where
  "flag_add s ps = (case ParsePredicate s of Inl e \<Rightarrow> (Some e, ps) | Inr p \<Rightarrow> (None, ps @ [p]))"

fun add_fields :: "string list \<Rightarrow> pred list \<Rightarrow> parse_error option \<times> pred list" where
  "add_fields [] ps = (None, ps)"
| "add_fields (s # ss) ps =
     (case flag_add s ps of (Some e, ps) \<Rightarrow> (Some e, ps) | (None, ps) \<Rightarrow> add_fields ss ps)"

definition flag_Set :: "string \<Rightarrow> pred list \<Rightarrow> parse_error option \<times> pred list" where
  "flag_Set s ps = add_fields (fields s) ps"

definition flag_Build :: "pred list \<Rightarrow> pred" where
  "flag_Build ps = (case Any ps of Some p \<Rightarrow> p | None \<Rightarrow> Never)"

definition flag_String :: "pred list \<Rightarrow> string option" where
  "flag_String ps =
     (if list_all (\<lambda>p. PredicateString p \<noteq> None) ps
      then Some (join '' '' (map (the \<circ> PredicateString) ps)) else None)"

subsection \<open>Round trip\<close>

lemma split_join:
  assumes "ss \<noteq> []" "\<forall>s \<in> set ss. sep \<notin> set s"
  shows "split_on sep (join [sep] ss) = ss"
  using assms
proof (induction "[sep]" ss rule: join.induct)
  case (2 s)
  then have "sep \<notin> set s" by simp
  then show ?case by (induction s) auto
next
  case (3 s t ss)
  then have IH: "split_on sep (join [sep] (t # ss)) = t # ss" and "sep \<notin> set s" by simp_all
  from this(2) have "split_on sep (s @ sep # join [sep] (t # ss)) = s # t # ss"
    by (induction s) (auto simp: IH)
  then show ?case by simp
qed simp

lemma digit_value_hex: "n < 16 \<Longrightarrow> digit_value (hex_digit n) = n \<and> is_hex (hex_digit n)"
proof -
  have "\<forall>n < 16. digit_value (hex_digit n) = n \<and> is_hex (hex_digit n)"
    by (simp add: All_less_Suc numeral_eq_Suc hex_digit_def digit_value_def is_hex_def)
  then show "n < 16 \<Longrightarrow> digit_value (hex_digit n) = n \<and> is_hex (hex_digit n)" by blast
qed

lemma hex_string_all: "list_all is_hex (hex_string n) \<and> hex_string n \<noteq> [] \<and> number 16 (hex_string n) = n"
proof (induction n rule: hex_string.induct)
  case (1 n)
  show ?case
  proof (cases "n < 16")
    case True
    then show ?thesis using digit_value_hex [OF True]
      by (subst (1 2 3) hex_string.simps) (simp add: number_def)
  next
    case False
    have m: "n mod 16 < 16" by simp
    have "hex_string n = hex_string (n div 16) @ [hex_digit (n mod 16)]"
      using False by (subst hex_string.simps) simp
    with "1.IH" [OF False] digit_value_hex [OF m] show ?thesis by (simp add: number_def)
  qed
qed

text \<open>The predicates that \<open>PredicateString\<close> prints in full.\<close>

definition op_word :: "string \<Rightarrow> bool" where
  "op_word nm \<longleftrightarrow> nm \<noteq> [] \<and> list_all is_word nm"

fun plain :: "pred \<Rightarrow> bool" where
  "plain (PIsIP a) = True"
| "plain (PIsOPName nm) = op_word nm"
| "plain (PAnyOPName nms) = (2 \<le> length nms \<and> list_all op_word nms)"
| "plain _ = False"

fun printable :: "pred \<Rightarrow> bool" where
  "printable (PFixed b) = (\<not> b)"
| "printable (PAct ta) = True"
| "printable (PAll ps) = (case ps of [PAct ta, p] \<Rightarrow> plain p | _ \<Rightarrow> False)"
| "printable p = plain p"

lemma comma_not_word: "op_word nm \<Longrightarrow> CHR '','' \<notin> set nm"
proof -
  have "\<not> is_word (CHR '','')" by (simp add: is_word_def)
  then show "op_word nm \<Longrightarrow> CHR '','' \<notin> set nm" by (auto simp: op_word_def list_all_iff)
qed

lemma match_plain:
  assumes "plain p"
  obtains c d t where "PredicateString p = Some (c # d)" "\<not> is_word c" "match_target (c # d) = Some t"
    "target_preds t = Inr [p]"
  using assms
proof (cases p rule: plain.cases)
  case (1 a)
  let ?h = "hex_string (unat a)"
  have h: "list_all is_hex ?h" "?h \<noteq> []" "number 16 ?h = unat a" using hex_string_all by blast+
  have "match_target (''@0x'' @ ?h) = Some (Hex ?h)" using h by (simp add: match_target_def is_digit_def)
  moreover have "number 16 ?h < 2 ^ 32" unfolding h(3) using unsigned_less [of a] by simp
  then have "target_preds (Hex ?h) = Inr [p]" by (simp add: target_preds_def ParseUint_def h(3) 1)
  moreover have "PredicateString p = Some (CHR ''@'' # ''0x'' @ ?h)" by (simp add: 1)
  ultimately show thesis using that [of "CHR ''@''" "''0x'' @ ?h" "Hex ?h"] by (simp add: is_word_def)
next
  case (2 nm)
  then have "split_on (CHR '','') nm = [nm]"
    using split_join [of "[nm]" "CHR '',''"] assms comma_not_word by simp
  then have "match_target (CHR '':'' # nm) = Some (OpNames [nm])"
    using assms 2 by (simp add: match_target_def op_word_def)
  then show thesis using that [of "CHR '':''" nm "OpNames [nm]"] 2 by (simp add: target_preds_def is_word_def)
next
  case (3 nms)
  have w: "list_all op_word nms" "2 \<le> length nms" using assms 3 by simp_all
  have "split_on (CHR '','') (join '','' nms) = nms"
    using w comma_not_word by (intro split_join) (auto simp: list_all_iff)
  then have "match_target (CHR '':'' # join '','' nms) = Some (OpNames nms)"
    using w by (simp add: match_target_def op_word_def [abs_def])
  then show thesis using that [of "CHR '':''" "join '','' nms" "OpNames nms"] 3 w(2)
    by (simp add: target_preds_def is_word_def)
qed simp_all

lemma action_word: "list_all is_word (action_String a)" "action_String a \<noteq> []" "action_Set (action_String a) = Some a"
  by (cases a; simp add: is_word_def action_Set_def all_actions_def)+

lemma parts_after_word:
  assumes "list_all is_word a" "\<not> is_word c"
  shows "find_parts (a @ c # d) = map_option (\<lambda>t. (a, t)) (match_target (c # d))"
  using assms by (simp add: find_parts_def list_all_iff)

text \<open>
  C28: the notation round-trips: what \<open>PredicateString\<close> prints for a predicate that the notation has,
  \<open>ParsePredicate\<close> parses back to the same predicate.
\<close>
theorem predicate_roundtrip:
  assumes "printable p"
  shows "\<exists>s. PredicateString p = Some s \<and> ParsePredicate s = Inr p"
proof -
  have pl: "\<exists>s. PredicateString p = Some s \<and> ParsePredicate s = Inr p" if "plain p"
  proof -
    from that obtain c d t where m: "PredicateString p = Some (c # d)" "\<not> is_word c"
      "match_target (c # d) = Some t" "target_preds t = Inr [p]" by (rule match_plain)
    with parts_after_word [of "[]" c d] show ?thesis by (simp add: ParsePredicate_def All_def)
  qed
  show ?thesis
  proof (cases p rule: printable.cases)
    case (2 ta)
    have "find_parts (action_String ta) = Some (action_String ta, NoTarget)"
      using action_word(1) [of ta]
      by (simp add: find_parts_def list_all_iff dropWhile_eq_Nil_conv [THEN iffD2]) (simp add: match_target_def)
    then show ?thesis using action_word(2,3) [of ta]
      by (simp add: 2 ParsePredicate_def target_preds_def All_def)
  next
    case (3 ps)
    with assms obtain ta q where ps: "ps = [PAct ta, q]" "plain q"
      by (auto split: list.splits pred.splits)
    obtain c d t where m: "PredicateString q = Some (c # d)" "\<not> is_word c" "match_target (c # d) = Some t"
      "target_preds t = Inr [q]" by (rule match_plain [OF ps(2)])
    with parts_after_word [OF action_word(1), of c ta d] action_word(2,3) [of ta] show ?thesis
      by (simp add: 3 ps ParsePredicate_def All_def)
  qed (use assms pl in \<open>auto simp: ParsePredicate_def\<close>)
qed

theorem predicate_roundtrip_witness:
  "\<exists>s. PredicateString (PAll [PAct TraceBefore, PAnyOPName [''call'', ''ret'']]) = Some s \<and>
    ParsePredicate s = Inr (PAll [PAct TraceBefore, PAnyOPName [''call'', ''ret'']])"
  by (rule predicate_roundtrip) (simp add: op_word_def is_word_def)

end
