(* ===== verification/Tracers.thy ===== *)
theory Tracers
  imports Actions
begin

text \<open>
  The tracers of \<open>x/tracer\<close>: counting operations, naming machines, several tracers at once, and a
  tracer behind a predicate.  Machines are told apart by their addresses.
\<close>

subsection \<open>Counting\<close>

definition countTracer :: "(nat \<rightharpoonup> int, 'e, int) tracer" where
  "countTracer =
     \<lparr>Context = \<lambda>m key ct. if key \<noteq> ''count'' then (None, False) else (ct (self m), True),
      Begin = \<lambda>m ct. ct,
      Before = \<lambda>m i op ct. ct(self m \<mapsto> (case ct (self m) of None \<Rightarrow> 0 | Some c \<Rightarrow> c) + 1),
      After = \<lambda>m i op ct. ct,
      Queue = \<lambda>m n ct. ct(fst n \<mapsto> (case ct (self m) of None \<Rightarrow> 0 | Some c \<Rightarrow> c)),
      End = \<lambda>m ct. ct,
      Handle = \<lambda>m e ct. ct(self m := None)\<rparr>"

subsection \<open>Naming\<close>

text \<open>An id is the triple of tree, parent and self.\<close>

type_synonym mach_id = "int \<times> int \<times> int"

record ids =
  nextID :: int
  id_of :: "nat \<rightharpoonup> mach_id"

definition idTracer :: "(ids, 'e, mach_id) tracer" where
  "idTracer =
     \<lparr>Context = \<lambda>m key it. if key \<noteq> ''id'' then (None, False) else (id_of it (self m), True),
      Begin = \<lambda>m it.
        (if id_of it (self m) = None
         then \<lparr>nextID = nextID it + 1, id_of = (id_of it)(self m \<mapsto> (nextID it + 1, 0, nextID it + 1))\<rparr>
         else it),
      Before = \<lambda>m i op it. it,
      After = \<lambda>m i op it. it,
      Queue = \<lambda>m n it.
        (let it = it\<lparr>id_of := (id_of it)(fst n := None)\<rparr>
         in case id_of it (self m) of
              None \<Rightarrow> it
            | Some (tree, parent, slf) \<Rightarrow>
                \<lparr>nextID = nextID it + 1, id_of = (id_of it)(fst n \<mapsto> (tree, slf, nextID it + 1))\<rparr>),
      End = \<lambda>m it. it,
      Handle = \<lambda>m e it. it\<lparr>id_of := (id_of it)(self m := None)\<rparr>\<rparr>"

subsection \<open>Several tracers\<close>

fun first_context :: "('t, 'e, 'v) tracer list \<Rightarrow> vm \<Rightarrow> string \<Rightarrow> 't \<Rightarrow> 'v option \<times> bool" where
  "first_context [] m key t = (None, False)"
| "first_context (T # Ts) m key t =
     (let (v, def) = Context T m key t in if def then (v, def) else first_context Ts m key t)"

definition tracers :: "('t, 'e, 'v) tracer list \<Rightarrow> ('t, 'e, 'v) tracer" where
  "tracers Ts =
     \<lparr>Context = first_context Ts,
      Begin = \<lambda>m. fold (\<lambda>T. Begin T m) Ts,
      Before = \<lambda>m i op. fold (\<lambda>T. Before T m i op) Ts,
      After = \<lambda>m i op. fold (\<lambda>T. After T m i op) Ts,
      Queue = \<lambda>m n. fold (\<lambda>T. Queue T m n) Ts,
      End = \<lambda>m. fold (\<lambda>T. End T m) Ts,
      Handle = \<lambda>m e. fold (\<lambda>T. Handle T m e) (rev Ts)\<rparr>"

text \<open>A \<open>Tracer\<close> value: nil, a list of tracers, or another tracer.\<close>

datatype 'a tracer_value = NilTracer | Single 'a | Tracers "'a list"

fun parts_of :: "'a tracer_value \<Rightarrow> 'a list" where
  "parts_of NilTracer = []"
| "parts_of (Single T) = [T]"
| "parts_of (Tracers Ts) = Ts"

definition Multi :: "'a tracer_value list \<Rightarrow> 'a tracer_value" where
  "Multi ts = (case ts of [] \<Rightarrow> NilTracer | [t] \<Rightarrow> t | _ \<Rightarrow> Tracers (concat (map parts_of ts)))"

text \<open>The tracer that a value is; nil is none, and a call of its methods panics.\<close>

fun tracer_of :: "('t, 'e, 'v) tracer tracer_value \<Rightarrow> ('t, 'e, 'v) tracer option" where
  "tracer_of NilTracer = None"
| "tracer_of (Single T) = Some T"
| "tracer_of (Tracers Ts) = Some (tracers Ts)"

text \<open>\<open>Trace\<close> with a value: it calls \<open>Begin\<close> first.\<close>

definition Trace_value :: "('t, 'e, 'v) tracer tracer_value \<Rightarrow> ('e, 'h) handler \<Rightarrow> nat \<Rightarrow> 'h \<Rightarrow> 't \<Rightarrow> vm \<Rightarrow>
    ('e option \<times> 'h \<times> 't \<times> vm) outcome" where
  "Trace_value v H fuel h t s = (case tracer_of v of None \<Rightarrow> Panic | Some T \<Rightarrow> Trace T H fuel h t s)"

subsection \<open>Filters and functions\<close>

definition empty_op :: Op where
  "empty_op = \<lparr>Code = 0, Arg = 0, Have = False\<rparr>"

definition filtered :: "('t, 'e, 'v) tracer \<Rightarrow> pred \<Rightarrow> ('t, 'e, 'v) tracer" where
  "filtered T p =
     \<lparr>Context = Context T,
      Begin = \<lambda>m t. if Test p TraceBegin 0 empty_op then Begin T m t else t,
      Before = \<lambda>m i op t. if Test p TraceBefore i op then Before T m i op t else t,
      After = \<lambda>m i op t. if Test p TraceAfter i op then After T m i op t else t,
      Queue = \<lambda>m n t. if Test p TraceQueue 0 empty_op then Queue T m n t else t,
      End = \<lambda>m t. if Test p TraceEnd 0 empty_op then End T m t else t,
      Handle = \<lambda>m e t. if Test p TraceHandle 0 empty_op then Handle T m e t else t\<rparr>"

definition Filtered :: "('t, 'e, 'v) tracer \<Rightarrow> pred option \<Rightarrow> ('t, 'e, 'v) tracer tracer_value" where
  "Filtered T p =
     (case p of
        None \<Rightarrow> NilTracer
      | Some (PFixed b) \<Rightarrow> if b then Single T else NilTracer
      | Some p \<Rightarrow> Single (filtered T p))"

definition FuncTracer :: "(vm \<Rightarrow> 't \<Rightarrow> 't) \<Rightarrow> ('t, 'e, 'v) tracer" where
  "FuncTracer f =
     \<lparr>Context = \<lambda>m key t. (None, False), Begin = f, Before = \<lambda>m i op. f m, After = \<lambda>m i op. f m,
      Queue = \<lambda>m n. f m, End = f, Handle = \<lambda>m e. f m\<rparr>"

subsection \<open>Properties\<close>

text \<open>The calls that a tracer may get, in any order.\<close>

datatype 'e event =
  EvBegin vm | EvBefore vm u32 Op | EvAfter vm u32 Op | EvQueue vm "nat \<times> mach" | EvEnd vm | EvHandle vm "'e option"

fun notify :: "('t, 'e, 'v) tracer \<Rightarrow> 'e event \<Rightarrow> 't \<Rightarrow> 't" where
  "notify T (EvBegin m) = Begin T m"
| "notify T (EvBefore m i op) = Before T m i op"
| "notify T (EvAfter m i op) = After T m i op"
| "notify T (EvQueue m n) = Queue T m n"
| "notify T (EvEnd m) = End T m"
| "notify T (EvHandle m e) = Handle T m e"

text \<open>Every id has been drawn from the counter, and no two machines have the same.\<close>

definition ids_ok :: "ids \<Rightarrow> bool" where
  "ids_ok it \<longleftrightarrow> 0 \<le> nextID it \<and>
     (\<forall>a t p s. id_of it a = Some (t, p, s) \<longrightarrow> 0 < t \<and> t \<le> s \<and> 0 \<le> p \<and> p < s \<and> s \<le> nextID it) \<and>
     (\<forall>a b t p s t' p'. id_of it a = Some (t, p, s) \<longrightarrow> id_of it b = Some (t', p', s) \<longrightarrow> a = b)"

lemma ids_okI:
  assumes "0 \<le> nextID it"
    "\<And>a t p s. id_of it a = Some (t, p, s) \<Longrightarrow> 0 < t \<and> t \<le> s \<and> 0 \<le> p \<and> p < s \<and> s \<le> nextID it"
    "\<And>a b t p s t' p'. id_of it a = Some (t, p, s) \<Longrightarrow> id_of it b = Some (t', p', s) \<Longrightarrow> a = b"
  shows "ids_ok it"
  unfolding ids_ok_def using assms by blast

lemma ids_ok_bounds:
  "ids_ok it \<Longrightarrow> id_of it a = Some (t, p, s) \<Longrightarrow> 0 < t \<and> t \<le> s \<and> 0 \<le> p \<and> p < s \<and> s \<le> nextID it"
  unfolding ids_ok_def by blast

lemma ids_ok_distinct:
  "ids_ok it \<Longrightarrow> id_of it a = Some (t, p, s) \<Longrightarrow> id_of it b = Some (t', p', s) \<Longrightarrow> a = b"
  unfolding ids_ok_def by blast

lemma ids_ok_next: "ids_ok it \<Longrightarrow> 0 \<le> nextID it"
  unfolding ids_ok_def by blast

lemma ids_ok_drop:
  assumes "ids_ok it"
  shows "ids_ok (it\<lparr>id_of := (id_of it)(a := None)\<rparr>)"
proof (rule ids_okI)
  show "0 \<le> nextID (it\<lparr>id_of := (id_of it)(a := None)\<rparr>)" using ids_ok_next [OF assms] by simp
next
  fix b t p s
  assume "id_of (it\<lparr>id_of := (id_of it)(a := None)\<rparr>) b = Some (t, p, s)"
  then have "id_of it b = Some (t, p, s)" by (simp split: if_split_asm)
  then show "0 < t \<and> t \<le> s \<and> 0 \<le> p \<and> p < s \<and> s \<le> nextID (it\<lparr>id_of := (id_of it)(a := None)\<rparr>)"
    using ids_ok_bounds [OF assms] by simp
next
  fix b c t p s t' p'
  assume "id_of (it\<lparr>id_of := (id_of it)(a := None)\<rparr>) b = Some (t, p, s)"
    and "id_of (it\<lparr>id_of := (id_of it)(a := None)\<rparr>) c = Some (t', p', s)"
  then have "id_of it b = Some (t, p, s)" "id_of it c = Some (t', p', s)" by (simp_all split: if_split_asm)
  then show "b = c" by (rule ids_ok_distinct [OF assms])
qed

lemma ids_ok_new:
  assumes ok: "ids_ok it" and new: "0 < t" "t \<le> nextID it + 1" "0 \<le> p" "p \<le> nextID it"
  shows "ids_ok \<lparr>nextID = nextID it + 1, id_of = (id_of it)(a \<mapsto> (t, p, nextID it + 1))\<rparr>" (is "ids_ok ?it")
proof (rule ids_okI)
  show "0 \<le> nextID ?it" using ids_ok_next [OF ok] by simp
next
  fix b t' p' s
  assume b: "id_of ?it b = Some (t', p', s)"
  show "0 < t' \<and> t' \<le> s \<and> 0 \<le> p' \<and> p' < s \<and> s \<le> nextID ?it"
  proof (cases "b = a")
    case True
    then show ?thesis using b new by simp
  next
    case False
    then show ?thesis using b ids_ok_bounds [OF ok, of b t' p' s] by simp
  qed
next
  fix b c t' p' s t'' p''
  assume b: "id_of ?it b = Some (t', p', s)" and c: "id_of ?it c = Some (t'', p'', s)"
  have old: "s \<le> nextID it" if "id_of ?it d = Some (t', p', s)" "d \<noteq> a" for d t' p'
    using that ids_ok_bounds [OF ok, of d t' p' s] by simp
  show "b = c"
  proof (cases "s = nextID it + 1")
    case True
    then have "b = a" "c = a" using old [OF b] old [OF c] by auto
    then show ?thesis by simp
  next
    case False
    then have "b \<noteq> a" "c \<noteq> a" using b c by auto
    then show ?thesis using b c ids_ok_distinct [OF ok] by simp
  qed
qed

lemma ids_begin: "ids_ok it \<Longrightarrow> ids_ok (Begin idTracer m it)"
  using ids_ok_new [of it "nextID it + 1" 0 "self m"] ids_ok_next [of it] by (simp add: idTracer_def)

lemma ids_queue:
  assumes "ids_ok it"
  shows "ids_ok (Queue idTracer m n it)"
proof -
  let ?it = "it\<lparr>id_of := (id_of it)(fst n := None)\<rparr>"
  have ok: "ids_ok ?it" using assms by (rule ids_ok_drop)
  show ?thesis
  proof (cases "id_of ?it (self m)")
    case None
    then show ?thesis using ok by (simp add: idTracer_def Let_def)
  next
    case (Some x)
    obtain tr pa sl where x: "x = (tr, pa, sl)" by (cases x)
    have "0 < tr \<and> tr \<le> sl \<and> 0 \<le> pa \<and> pa < sl \<and> sl \<le> nextID ?it"
      using Some x by (simp only: ids_ok_bounds [OF ok])
    then show ?thesis using ids_ok_new [OF ok, of tr sl "fst n"] Some x
      by (simp add: idTracer_def Let_def)
  qed
qed

lemma notify_ids: "ids_ok it \<Longrightarrow> ids_ok (notify idTracer ev it)"
  by (cases ev) (simp_all add: ids_begin ids_queue, simp_all add: idTracer_def ids_ok_drop)

text \<open>
  C32: whatever calls the id tracer gets, in whatever order, the ids of the machines it knows are
  distinct, each younger than its parent and no younger than its tree.
\<close>
theorem ids_unique:
  "ids_ok (fold (notify idTracer) evs \<lparr>nextID = 0, id_of = Map.empty\<rparr>)"
proof -
  have "ids_ok it \<Longrightarrow> ids_ok (fold (notify idTracer) evs it)" for it
    by (induction evs arbitrary: it) (simp_all add: notify_ids)
  moreover have "ids_ok \<lparr>nextID = 0, id_of = Map.empty\<rparr>" by (rule ids_okI) simp_all
  ultimately show ?thesis .
qed

text \<open>The order in which a list of tracers gets an event.\<close>

fun in_order :: "'e event \<Rightarrow> 'a list \<Rightarrow> 'a list" where
  "in_order (EvHandle m e) xs = rev xs"
| "in_order ev xs = xs"

lemma notify_tracers: "notify (tracers Ts) ev = fold (\<lambda>T. notify T ev) (in_order ev Ts)"
  by (cases ev) (simp_all add: tracers_def)

lemma in_order_single [simp]: "in_order ev [x] = [x]"
  by (cases ev) simp_all

lemma notify_tracer_of:
  "fold (\<lambda>T. notify T ev) (in_order ev (parts_of v)) t = (case tracer_of v of None \<Rightarrow> t | Some T \<Rightarrow> notify T ev t)"
proof (cases v)
  case NilTracer
  then show ?thesis by (cases ev) simp_all
qed (simp_all add: notify_tracers)

lemma fold_in_order_concat:
  "(\<And>x. g x = fold f (in_order ev (h x))) \<Longrightarrow>
    fold f (in_order ev (concat (map h xs))) = fold g (in_order ev xs)"
  by (cases ev; induction xs) (simp_all add: fold_append)

lemma fold_map_filter: "fold (\<lambda>v t. case f v of None \<Rightarrow> t | Some T \<Rightarrow> g T t) vs t = fold g (List.map_filter f vs) t"
  by (induction vs arbitrary: t) (auto simp: List.map_filter_def split: option.splits)

lemma in_order_map_filter: "in_order ev (List.map_filter f vs) = List.map_filter f (in_order ev vs)"
  by (cases ev) (simp_all add: List.map_filter_def rev_map rev_filter)

text \<open>
  Nesting does not matter: a tracer made of two tracers or more, flattened where they are themselves made of
  several, makes the same calls in the same order as the list of those that are not nil, also of \<open>Handle\<close>, which goes
  backwards.
\<close>
theorem Multi_flat:
  "\<exists>T. tracer_of (Multi (v # w # vs)) = Some T \<and>
    (\<forall>ev t. notify T ev t = notify (tracers (List.map_filter tracer_of (v # w # vs))) ev t)"
proof -
  let ?vs = "v # w # vs"
  have "notify (tracers (concat (map parts_of ?vs))) ev t = notify (tracers (List.map_filter tracer_of ?vs)) ev t" for ev t
  proof -
    let ?g = "\<lambda>x t. case tracer_of x of None \<Rightarrow> t | Some T \<Rightarrow> notify T ev t"
    have "?g x = fold (\<lambda>T. notify T ev) (in_order ev (parts_of x))" for x
      by (rule ext) (rule notify_tracer_of [symmetric])
    from fold_in_order_concat [of ?g, OF this]
    have "fold (\<lambda>T. notify T ev) (in_order ev (concat (map parts_of ?vs))) t = fold ?g (in_order ev ?vs) t" by (rule fun_cong)
    then show ?thesis by (simp only: notify_tracers fold_map_filter in_order_map_filter)
  qed
  then show ?thesis by (intro exI [of _ "tracers (concat (map parts_of ?vs))"]) (simp add: Multi_def)
qed

text \<open>A filter that lets nothing through is nil: \<open>Trace\<close> panics on it, instead of making no calls.\<close>

lemma Filtered_nil: "p = None \<or> p = Some (PFixed False) \<Longrightarrow> Trace_value (Filtered T p) H fuel h t s = Panic"
  by (auto simp: Trace_value_def Filtered_def)

lemma Filtered_Trace: "p \<noteq> PFixed False \<Longrightarrow>
  Trace_value (Filtered T (Some p)) H fuel h t s = Trace (if p = PFixed True then T else filtered T p) H fuel h t s"
  by (cases p) (auto simp: Trace_value_def Filtered_def)

end
