(* ===== verification/Loading.thy ===== *)
theory Loading
  imports Exec
begin

text \<open>
  Programs in memory: the bytes that \<open>storeBytes\<close> has written are mapped, so that \<open>read\<close> decodes
  an encoded operation where it was stored.
\<close>

lemma page_of_poke:
  assumes "heap_inv N s" "1 \<le> N"
  shows "page_of (poke i f s) k = None \<longleftrightarrow> k \<noteq> i \<and> page_of s k = None"
proof -
  obtain p s' where w: "writable i s = (p, s')" by fastforce
  have "owns i p s s'" by (rule writable_ok(2) [OF assms w])
  then have "page_of s' k = None \<longleftrightarrow> k \<noteq> i \<and> page_of s k = None"
    by (cases "k = i") (auto simp: owns_def page_of_def)
  moreover have "page_of (upd_page p g s') k = page_of s' k" for g by (simp add: page_of_def)
  ultimately show ?thesis by (simp add: poke_def w)
qed

lemma store_loop_maps:
  assumes "heap_inv N s" "1 \<le> N" "j < pageSize"
  shows "(page_of s m \<noteq> None \<or> (\<exists>k < length bs. m = (i * pageSize + j + k) div pageSize)) \<longrightarrow>
    page_of (store_loop i j bs s) m \<noteq> None"
  using assms(1,3)
proof (induction "length bs" arbitrary: bs i j s rule: less_induct)
  case less
  define n where "n = min (pageSize - j) (length bs)"
  define t where "t = poke i (\<lambda>d. set_bytes d j (take n bs)) s"
  have eq: "store_loop i j bs s = (if n < length bs then store_loop (Suc i) 0 (drop n bs) t else t)"
    unfolding n_def t_def by (subst store_loop_poke) (simp add: Let_def)
  have t: "heap_inv N t"
    unfolding t_def by (rule poke_ok(1) [OF less.prems(1) assms(2)]) (use less.prems(2) in \<open>auto simp: n_def\<close>)
  have pt: "page_of t k = None \<longleftrightarrow> k \<noteq> i \<and> page_of s k = None" for k
    unfolding t_def by (rule page_of_poke [OF less.prems(1) assms(2)])
  have first: "(i * pageSize + j + k) div pageSize = i" if "k < pageSize - j" for k
    using that less.prems(2) by (simp add: add.assoc)
  show ?case
  proof (cases "n < length bs")
    case False
    have "(i * pageSize + j + k) div pageSize = i" if "k < length bs" for k
      using first [of k] that False by (simp add: n_def)
    with False show ?thesis by (auto simp: eq pt)
  next
    case True
    then have n: "n = pageSize - j" "0 < n" using less.prems(2) by (auto simp: n_def)
    have IH: "(page_of t m \<noteq> None \<or> (\<exists>k < length (drop n bs). m = (Suc i * pageSize + 0 + k) div pageSize)) \<longrightarrow>
        page_of (store_loop (Suc i) 0 (drop n bs) t) m \<noteq> None"
      by (rule less.hyps [OF _ t]) (use n True in \<open>auto simp: pageSize_pos\<close>)
    have "page_of t m \<noteq> None \<or> (\<exists>k < length (drop n bs). m = (Suc i * pageSize + 0 + k) div pageSize)"
      if "k < length bs" "m = (i * pageSize + j + k) div pageSize" for k
    proof (cases "k < n")
      case True
      with first [of k] that(2) n show ?thesis by (simp add: pt)
    next
      case False
      then have "i * pageSize + j + k = Suc i * pageSize + 0 + (k - n)"
        using n(1) less.prems(2) by simp
      with that False show ?thesis by (intro disjI2 exI [of _ "k - n"]) auto
    qed
    moreover have "page_of t m \<noteq> None" if "page_of s m \<noteq> None" using that by (simp add: pt)
    ultimately have "page_of (store_loop (Suc i) 0 (drop n bs) t) m \<noteq> None"
      if "page_of s m \<noteq> None \<or> (\<exists>k < length bs. m = (i * pageSize + j + k) div pageSize)"
      using that IH by blast
    with True show ?thesis by (simp only: eq if_True) blast
  qed
qed

lemma storeBytes_maps:
  assumes "heap_inv N s" "1 \<le> N" "k < length bs"
  shows "page_of (storeBytes addr bs s) ((unat addr + k) div pageSize) \<noteq> None"
  using store_loop_maps [OF assms(1,2) page_off_less, of "(unat addr + k) div pageSize" bs "page_index addr" addr]
    assms(3) by (auto simp: storeBytes_def addr_split)

lemma fetched_prefix:
  assumes "\<forall>k < n. page_of s ((a + k) div pageSize) \<noteq> None" "n \<le> length bs"
  shows "take n (fetched s a 0 bs) = map (\<lambda>k. byte_at s (a + k)) [0..<n]"
proof -
  have "\<not> unseen s a 0 k" if "k < n" for k
  proof
    assume u: "unseen s a 0 k"
    with assms(1) that have k: "0 < k" "(a + k) mod pageSize = 0"
      "page_of s ((a + k) div pageSize - 1) = None" by (auto simp: unseen_def)
    then have "(a + (k - 1)) div pageSize = (a + k) div pageSize - 1"
      by (cases k) (simp_all add: pageSize_def div_Suc)
    with k assms(1) that show False by (metis less_imp_diff_less)
  qed
  with assms(2) show ?thesis by (simp add: fetched_def take_map)
qed

text \<open>What \<open>read\<close> sees of bytes that were stored.\<close>

lemma readVarCode_prefix:
  assumes "readVarCode (take n bs) = (k, a, c, True)"
  shows "readVarCode bs = (k, a, c, True)"
proof -
  have "k \<le> length (take n bs)" using readVarCode_okD [OF assms, of "[]"] by simp
  then have "min k n = k" by simp
  then have "take k (take n bs) @ drop k bs = bs" by (simp add: min.commute)
  with readVarCode_okD [OF assms, of "drop k bs"] show ?thesis by metis
qed

lemma read_stored:
  assumes "\<forall>k < n. page_of s ((unat addr + k) div pageSize) \<noteq> None"
    "readVarCode (map (\<lambda>k. byte_at s (unat addr + k)) [0..<n]) = (k, a, c, True)"
  shows "read addr s = (addr + of_nat k, c, a, validate c a)"
proof -
  let ?m = "min n 6" and ?f = "fetched s (unat addr) 0 (replicate 6 0)"
  have f: "fetchBytes addr (replicate 6 0) s = (6, ?f)" by (simp add: fetchBytes_eq)
  have l: "length ?f = 6" by (simp add: fetched_def)
  have "take ?m ?f = map (\<lambda>k. byte_at s (unat addr + k)) [0..<?m]"
    using assms(1) by (intro fetched_prefix) auto
  also have "\<dots> = take 6 (map (\<lambda>k. byte_at s (unat addr + k)) [0..<n])"
    by (rule nth_equalityI) auto
  finally have tk: "take ?m ?f = take 6 (map (\<lambda>k. byte_at s (unat addr + k)) [0..<n])" .
  have k6: "k \<le> 6" using readVarCode_okD [OF assms(2), of "[]"] by (simp add: MaxVarCodeLen_def)
  have "readVarCode (take k (map (\<lambda>k. byte_at s (unat addr + k)) [0..<n]) @
      drop k (take 6 (map (\<lambda>k. byte_at s (unat addr + k)) [0..<n]))) = (k, a, c, True)"
    using readVarCode_okD [OF assms(2)] by blast
  also have "take k (map (\<lambda>k. byte_at s (unat addr + k)) [0..<n]) @
      drop k (take 6 (map (\<lambda>k. byte_at s (unat addr + k)) [0..<n])) = take ?m ?f"
    unfolding tk using k6 by (metis append_take_drop_id min.absorb1 take_take)
  finally have "readVarCode ?f = (k, a, c, True)" by (rule readVarCode_prefix)
  with l show ?thesis by (simp add: read_def f)
qed

subsection \<open>Encoding, loading and decoding an operation\<close>

text \<open>The bytes of an encoded operation, in a buffer of just the size that it needs.\<close>

definition op_bytes :: "Op \<Rightarrow> u8 list" where
  "op_bytes op = fst (op_EncodeInto op (replicate (varCodeLength (Arg op) (op_byte op)) 0))"

lemma op_bytes_eq: "op_bytes op = rev (var_tmp (Arg op) (op_byte op))"
  by (simp add: op_bytes_def op_EncodeInto_def putVarCode_fits)

lemma length_op_bytes: "length (op_bytes op) = varCodeLength (Arg op) (op_byte op)"
  by (simp add: op_bytes_eq length_var_tmp)

lemma read_op_bytes:
  "readVarCode (op_bytes op @ rest) =
     (length (op_bytes op), if hasImm (op_byte op) then Arg op else 0, op_byte op, True)"
  by (simp add: length_op_bytes) (simp add: op_bytes_eq readVarCode_def read_var_tmp hasImm_def opCodeWithImm_def)

lemma read_loaded:
  assumes "\<forall>k < length (op_bytes op @ rest). page_of s ((unat addr + k) div pageSize) \<noteq> None"
    "map (\<lambda>k. byte_at s (unat addr + k)) [0..<length (op_bytes op @ rest)] = op_bytes op @ rest"
  shows "read addr s = (addr + of_nat (length (op_bytes op)), op_byte op,
     if hasImm (op_byte op) then Arg op else 0,
     validate (op_byte op) (if hasImm (op_byte op) then Arg op else 0))"
  using read_stored [OF assms(1)] read_op_bytes [of op rest] by (simp only: assms(2))

lemma bytes_stored:
  assumes "heap_inv N s" "1 \<le> N"
  shows "map (\<lambda>k. byte_at (storeBytes addr bs s) (unat addr + k)) [0..<length bs] = bs"
  using storeBytes_ok(2) [OF assms] by (auto intro!: nth_equalityI)

lemma read_encoded:
  assumes "heap_inv N s" "1 \<le> N"
  shows "read addr (storeBytes addr (op_bytes op @ rest) s) =
    (addr + of_nat (length (op_bytes op)), op_byte op, if hasImm (op_byte op) then Arg op else 0,
     validate (op_byte op) (if hasImm (op_byte op) then Arg op else 0))"
  by (rule read_loaded [OF _ bytes_stored [OF assms]]) (use storeBytes_maps [OF assms] in blast)

lemma fold_table_inv:
  "fold (\<lambda>(j, d) m. m(f d \<mapsto> g j)) (enumerate k xs) m x = Some v \<Longrightarrow>
   m x = Some v \<or> (\<exists>i < length xs. f (xs ! i) = x \<and> v = g (k + i))"
proof (induction xs arbitrary: k m)
  case (Cons d xs)
  from Cons.IH [of "Suc k" "m(f d \<mapsto> g k)"] Cons.prems
  consider "(m(f d \<mapsto> g k)) x = Some v" | i where "i < length xs" "f (xs ! i) = x" "v = g (Suc k + i)"
    by auto
  then show ?case
  proof cases
    case 1
    then show ?thesis by (cases "x = f d") auto
  next
    case 2
    then show ?thesis by (intro disjI2 exI [of _ "Suc i"]) simp
  qed
qed simp

lemma no_required_imm: "list_all (\<lambda>d. \<not> imm_required (od_imm d)) ops"
  by (simp add: ops_def opdef_defs imm_required_def imm_kind_defs)

lemma opName2Code_SomeD:
  assumes "opName2Code nm = Some c"
  shows "unat c < 128 \<and> od_name (ops ! unat c) = nm"
proof -
  obtain i where i: "i < length ops" "od_name (ops ! i) = nm" "c = of_nat i"
    using fold_table_inv [of od_name of_nat 0 ops Map.empty nm c] assms by (auto simp: opName2Code_def)
  moreover have "unat (of_nat i :: u8) = i" using i(1) by (simp add: unat_of_nat)
  ultimately show ?thesis by simp
qed

lemma low_code:
  fixes c :: u8
  assumes "unat c < 128"
  shows "opcode_code c = c" "\<not> hasImm c" "opcode_code (c OR 0x80) = c" "hasImm (c OR 0x80)"
proof -
  have b: "\<not> bit c 7"
  proof
    assume "bit c 7"
    then have "bit (unat c) 7" by (simp add: bit_unsigned_iff)
    then have "odd (unat c div 2 ^ 7)" unfolding bit_iff_odd .
    moreover have "unat c div 2 ^ 7 = 0" using assms by simp
    ultimately show False by simp
  qed
  then have 0: "c AND 0x80 = 0" by (simp only: and_0x80_eq_0) simp
  then show "\<not> hasImm c" by (simp add: hasImm_def opCodeWithImm_def)
  have 7: "m \<noteq> 7" if "bit c m" for m using b that by auto
  show "opcode_code c = c" "opcode_code (c OR 0x80) = c"
    unfolding opcode_code_def opCodeWithImm_def
    by (rule bit_word_eqI, simp only: bit_and_iff bit_or_iff bit_not_iff bit_0x80 possible_bit_word,
        use 7 in blast)+
  show "hasImm (c OR 0x80)"
    by (simp only: hasImm_def opCodeWithImm_def and_0x80_eq_0) (simp only: bit_or_iff bit_0x80, simp)
qed

lemma resolved_valid:
  assumes "ResolveOp nm arg have = Inr op" "nm \<noteq> []"
  shows "validate (op_byte op) (if hasImm (op_byte op) then Arg op else 0) = None"
    "hasImm (op_byte op) \<longleftrightarrow> have" "Arg op = arg" "Have op = have"
proof -
  obtain c where c: "opName2Code nm = Some c" "op = \<lparr>Code = c, Arg = arg, Have = have\<rparr>"
    "have \<Longrightarrow> imm_kind (od_imm (ops ! unat c)) \<noteq> opImmNone"
    using assms(1) by (auto simp: ResolveOp_def split: option.splits if_splits)
  note d = opName2Code_SomeD [OF c(1)] and l = low_code [of c]
  have "\<not> imm_required (od_imm (ops ! unat c))"
    using no_required_imm d by (simp add: list_all_length)
  then show "validate (op_byte op) (if hasImm (op_byte op) then Arg op else 0) = None"
    using d l c(3) assms(2) by (simp add: validate_def op_byte_def c(2) Let_def)
  show "hasImm (op_byte op) \<longleftrightarrow> have" using d l by (simp add: op_byte_def c(2))
  show "Arg op = arg" "Have op = have" by (simp_all add: c(2))
qed

lemma resolve_push: "ResolveOp ''push'' arg True = Inr \<lparr>Code = 0x02, Arg = arg, Have = True\<rparr>"
proof -
  have "od_name (ops ! unat (op_code OpPush)) = ''push''" by (simp add: ops_def opdef_defs)
  then have "opName2Code ''push'' = Some (op_code OpPush)"
    using fold_table [of 2 ops od_name "of_nat :: nat \<Rightarrow> u8" 0 Map.empty]
    by (simp add: opName2Code_def ops_def opdef_defs)
  then show ?thesis by (simp add: ResolveOp_def ops_def opdef_defs imm_kind_def imm_kind_defs)
qed

text \<open>
  C18: what \<open>ResolveOp\<close> builds for a name, \<open>EncodeInto\<close> encodes and \<open>storeBytes\<close> loads, the machine
  decodes again, at any address and whatever follows: the same code, the same argument, no error,
  and the address after it.
\<close>
theorem resolve_encode_decode:
  assumes "heap_inv N s" "1 \<le> N" "ResolveOp nm arg have = Inr op" "nm \<noteq> []"
  shows "read addr (storeBytes addr (op_bytes op @ rest) s) =
    (addr + of_nat (length (op_bytes op)), op_byte op, if have then arg else 0, None)"
  using read_encoded [OF assms(1,2)] resolved_valid [OF assms(3,4)] by simp

theorem resolve_encode_decode_witness:
  "read 62 (storeBytes 62 (op_bytes \<lparr>Code = 0x02, Arg = 300, Have = True\<rparr> @ [7]) (blank 64)) =
    (65, 0x82, 300, None)"
proof -
  let ?op = "\<lparr>Code = 0x02, Arg = 300, Have = True\<rparr>"
  have "length (op_bytes ?op) = 3"
    by (simp add: length_op_bytes varCodeLength_def op_byte_def arg_digits.simps)
  with resolve_encode_decode [OF heap_inv_blank order.refl resolve_push, of 62 300 "[7]" 64]
  show ?thesis by (simp add: op_byte_def)
qed

end
