(* ===== verification/Termination.thy ===== *)
theory Termination
  imports Run Frames
begin

text \<open>
  A run ends when the machine has a limit on its operations.  Every operation of a machine counts,
  and a copy starts with the count of its parent; a step makes at most one copy.  A machine with
  \<open>r\<close> operations left therefore accounts for less than \<open>3 * 2^r\<close> transitions, its copies included.
\<close>

subsection \<open>What a step can add to the work that is left\<close>

text \<open>The machines that have been queued since the queue was \<open>q\<close>.\<close>

definition spawned :: "u64 \<Rightarrow> u64 \<Rightarrow> (nat \<times> mach) list \<Rightarrow> nat \<Rightarrow> vm \<Rightarrow> bool" where
  "spawned L c q n s \<longleftrightarrow> limit s = L \<and> count s = c \<and>
     (\<exists>ms. queued s = q @ ms \<and> length ms \<le> n \<and> (\<forall>(a, m) \<in> set ms. limit m = L \<and> count m = c))"

lemma spawned_cong:
  "limit s' = limit s \<Longrightarrow> count s' = count s \<Longrightarrow> queued s' = queued s \<Longrightarrow>
   spawned L c q n s' = spawned L c q n s"
  by (simp add: spawned_def)

interpretation spawned: mem_invariant "spawned L c q" for L c q
proof unfold_locales
  fix n k s assume "spawned L c q n s" "n \<le> k"
  then show "spawned L c q k s" unfolding spawned_def using le_trans by blast
next
  fix n s addr assume "spawned L c q n s"
  moreover obtain r s' where r: "ref addr s = (r, s')" by fastforce
  ultimately show "spawned L c q n (snd (ref addr s))"
    using ref_frame [OF r] by (auto simp: spawned_def queued_def)
next
  fix n s addr l s' v assume I: "spawned L c q n s" and r: "ref addr s = (Inr l, s')"
  then have "spawned L c q n s'" using ref_frame [OF r] by (auto simp: spawned_def queued_def)
  then show "kept (spawned L c q n) (store_to l v s')"
    by (auto simp: kept_def dest!: store_to_frame) (simp add: spawned_def queued_def)
next
  fix n s e s' assume "spawned L c q n s" "copy s = (Inl e, s')"
  then show "spawned L c q n s'" using copy_error_state [of s e s'] by (auto simp: spawned_def queued_def)
next
  fix n s a m s' assume "spawned L c q n s" "copy s = (Inr (a, m), s')"
  then show "spawned L c q (Suc n) s'"
    using copy_frame(1) [of s a m s'] by (fastforce simp: spawned_def queued_def)
next
  fix n s a m s' x y assume I: "spawned L c q n s" and cp: "copy s = (Inr (a, m), s')"
  then have I': "spawned L c q n s'"
    using copy_frame(1) [of s a m s'] by (auto simp: spawned_def queued_def)
  let ?m = "m\<lparr>ip := x, csp := y\<rparr>"
  obtain ms where ms: "queued s' = q @ ms" "length ms \<le> n" "\<forall>(a, m) \<in> set ms. limit m = L \<and> count m = c"
    using I' by (auto simp: spawned_def)
  have lc: "limit ?m = L" "count ?m = c" using I copy_frame(3,4) [OF cp] by (simp_all add: spawned_def)
  show "spawned L c q (Suc n) (snd (Enqueue (a, ?m) s'))"
  proof (cases "fst (Enqueue (a, ?m) s')")
    case None
    then have q': "queued (snd (Enqueue (a, ?m) s')) = q @ (ms @ [(a, ?m)])"
      using ms(1) by (auto simp: Enqueue_def queued_def split: run_queue.splits if_splits)
    have "limit (snd (Enqueue (a, ?m) s')) = L" "count (snd (Enqueue (a, ?m) s')) = c"
      using I' by (auto simp: spawned_def Enqueue_def split: run_queue.split)
    with q' ms lc show ?thesis unfolding spawned_def by (intro conjI exI [of _ "ms @ [(a, ?m)]"]) auto
  next
    case (Some e)
    then have "snd (Enqueue (a, ?m) s') = s'" by (auto simp: Enqueue_def split: run_queue.splits if_splits)
    with I' show ?thesis by (auto simp: spawned_def)
  qed
qed (simp_all add: spawned_def queued_def)

definition weight :: "'a mach_scheme \<Rightarrow> nat" where
  "weight m = (if err m = None then 3 * 2 ^ (unat (limit m) - unat (count m)) - 1 else 1)"

definition work :: "vm \<Rightarrow> nat" where
  "work s = weight s + sum_list (map (\<lambda>(a, m). weight m) (queued s))"

definition limited :: "vm \<Rightarrow> bool" where
  "limited s \<longleftrightarrow> limit s \<noteq> 0 \<and> (\<forall>(a, m) \<in> set (queued s). limit m \<noteq> 0)"

lemma weight_le: "weight m \<le> 3 * 2 ^ (unat (limit m) - unat (count m)) - 1"
proof -
  have "(1 :: nat) \<le> 2 ^ (unat (limit m) - unat (count m))" by simp
  then have "(1 :: nat) \<le> 3 * 2 ^ (unat (limit m) - unat (count m)) - 1" by arith
  then show ?thesis unfolding weight_def by simp
qed

lemma sum_weights:
  assumes "\<forall>(a, m) \<in> set ms. limit m = L \<and> count m = c" "length ms \<le> 1"
  shows "sum_list (map (\<lambda>(a, m). weight m) ms) \<le> 3 * 2 ^ (unat L - unat c) - 1"
proof (cases ms)
  case (Cons x xs)
  then have "xs = []" using assms(2) by simp
  with Cons assms(1) weight_le [of "snd x"] show ?thesis by (cases x) auto
qed simp

lemma step_work:
  assumes "limited s" "err s = None" "step s = Some s'"
  shows "limited s' \<and> work s' < work s"
proof (cases "limit s \<le> count s")
  case True
  with assms have "s' = s\<lparr>err := Some ErrLimit\<rparr>" by (simp add: step_def limited_def)
  then have "queued s' = queued s" "weight s' = 1" "limit s' = limit s"
    by (simp_all add: queued_def weight_def)
  moreover have "weight s = 2" using assms(2) True by (simp add: weight_def word_le_nat_alt)
  ultimately show ?thesis using assms(1) by (simp add: limited_def work_def)
next
  case False
  define L c q where "L = limit s" "c = count s + 1" "q = queued s"
  have L: "L \<noteq> 0" using assms(1) by (simp add: L_c_q_def limited_def)
  have "kept (spawned L c q (Suc 0)) (step s)"
    by (rule spawned.steps.step) (use False L in \<open>auto simp: spawned_def L_c_q_def queued_def\<close>)
  with assms(3) obtain ms where s': "limit s' = L" "count s' = c" "queued s' = q @ ms" "length ms \<le> 1"
    "\<forall>(a, m) \<in> set ms. limit m = L \<and> count m = c"
    by (auto simp: spawned_def)
  have cs: "unat c = unat (count s) + 1" "unat (count s) < unat L"
  proof -
    have lt: "count s < limit s" using False by simp
    then show cL: "unat (count s) < unat L" by (simp add: L_c_q_def word_less_nat_alt)
    have "unat L < 18446744073709551616" using unsigned_less [of L] by simp
    with cL show "unat c = unat (count s) + 1" by (simp add: L_c_q_def(2) unat_word_ariths)
  qed
  define k where "k = unat L - unat c"
  have k: "unat (limit s) - unat (count s) = Suc k" using cs by (simp add: k_def L_c_q_def)
  have "weight s' \<le> 3 * 2 ^ k - 1" using weight_le [of s'] s' by (simp add: k_def)
  moreover have "sum_list (map (\<lambda>(a, m). weight m) ms) \<le> 3 * 2 ^ k - 1"
    using sum_weights [OF s'(5,4)] by (simp add: k_def)
  moreover have "weight s = 3 * 2 ^ Suc k - 1" using assms(2) by (simp add: weight_def k)
  moreover have "(1 :: nat) \<le> 2 ^ k" by simp
  ultimately have "weight s' + sum_list (map (\<lambda>(a, m). weight m) ms) < weight s" unfolding power_Suc by linarith
  moreover have "limited s'"
    using assms(1) s' L by (auto simp: limited_def L_c_q_def)
  ultimately show ?thesis by (simp add: work_def s'(3)) (simp add: L_c_q_def)
qed

lemma resume_work:
  assumes "limited s" "err s \<noteq> None" "Dequeue s = (Some (a, n), t)"
  shows "limited (switch a n (free t)) \<and> work (switch a n (free t)) < work s"
proof -
  note q = Dequeue_queued [OF assms(3)]
  have rq: "runq (release us u) = runq u" for us u
    by (induction us u rule: release.induct) (simp_all add: Let_def FreePage_def split: page_alloc.split)
  have "runq (free t) = runq t"
    by (simp add: free_def Let_def FreeMach_def rq)
  then have qs: "queued (switch a n (free t)) = queued t" by (simp add: queued_def)
  have w: "weight (switch a n u) = weight n" for u by (simp add: weight_def)
  have "weight s = 1" using assms(2) by (auto simp: weight_def)
  then show ?thesis using assms(1) by (simp add: limited_def work_def qs q(1) w)
qed

lemma run_not_timeout: "limited s \<Longrightarrow> work s < fuel \<Longrightarrow> run H fuel h s \<noteq> Timeout"
proof (induction fuel arbitrary: h s)
  case (Suc fuel)
  show ?case
  proof (cases rule: run_cases [where H = H and fuel = fuel and h = h and s = s, OF refl])
    case (2 t)
    with step_work [OF Suc.prems(1)] Suc.prems(2) Suc.IH [of t h] show ?thesis by force
  next
    case (5 h' a n t)
    with resume_work [OF Suc.prems(1)] Suc.prems(2) Suc.IH [of "switch a n (free t)" h'] show ?thesis by force
  qed simp_all
qed simp

lemma run_more_fuel: "run H f h s \<noteq> Timeout \<Longrightarrow> f \<le> g \<Longrightarrow> run H g h s = run H f h s"
proof (induction f arbitrary: g h s)
  case (Suc f)
  then obtain k where k: "g = Suc k" "f \<le> k" by (cases g) auto
  show ?case
  proof (cases rule: run_cases [where H = H and fuel = f and h = h and s = s, OF refl])
    case (2 t)
    with Suc.prems(1) have "run H f h t \<noteq> Timeout" by simp
    from Suc.IH [OF this k(2)] 2 show ?thesis by (simp add: k(1))
  next
    case (5 h' a n t)
    with Suc.prems(1) have "run H f h' (switch a n (free t)) \<noteq> Timeout" by simp
    from Suc.IH [OF this k(2)] 5(1-3) show ?thesis by (auto simp: k(1))
  next
    case (4 h')
    then have "Dequeue s = (None, s)"
      by (auto simp: Dequeue_def split: run_queue.splits if_splits)
    with 4(1,2) show ?thesis by (auto simp: k(1))
  next
    case (3 e h')
    then show ?thesis by (auto simp: k(1))
  qed (simp add: k(1))
qed simp

text \<open>
  C2: a machine with a limit on its operations always finishes, whatever the program, the
  handler and the machines in its queue: with more fuel than \<open>work\<close> the run does not time out, and its
  outcome no longer depends on the fuel.
\<close>
theorem run_terminates:
  assumes "limited s"
  shows "\<exists>r. r \<noteq> Timeout \<and> (\<forall>fuel > work s. run H fuel h s = r)"
  using run_not_timeout [OF assms, of "Suc (work s)"] run_more_fuel [of H "Suc (work s)" h s]
  by (metis Suc_leI lessI)

theorem run_terminates_witness:
  "\<exists>r. r \<noteq> Timeout \<and> (\<forall>fuel > 95. run defaultHandler fuel () ((blank 64)\<lparr>limit := 5\<rparr>) = r)"
proof -
  have "limited ((blank 64)\<lparr>limit := 5\<rparr>)" "work ((blank 64)\<lparr>limit := 5\<rparr>) = 95"
    by (simp_all add: limited_def work_def weight_def queued_def blank_def)
  with run_terminates [of "(blank 64)\<lparr>limit := 5\<rparr>" defaultHandler "()"] show ?thesis by simp
qed

end
