(* ===== verification/Caches.thy ===== *)
theory Caches
  imports Frames
begin

text \<open>
  What a step does to the machines in the run queue.  Their memory is theirs, although they share pages; the
  array of decoded operations (\<open>opCache\<close> of \<open>vm.go\<close>) is not: \<open>*n = *m\<close> of \<open>copy\<close> shares it, and \<open>set\<close> writes into it.
\<close>

subsection \<open>The arrays of decoded operations\<close>

text \<open>What \<open>get\<close> finds at an index in an array.\<close>

definition decoded :: "vm \<Rightarrow> nat \<Rightarrow> nat \<Rightarrow> cachedOp option" where
  "decoded s i k =
     (let cos = caches s ! i in if k < length cos \<and> co_ip (cos ! k) \<noteq> 0 then Some (cos ! k) else None)"

lemma get_decoded: "get k s = decoded s (opc s) (unat k)"
  by (simp add: get_def decoded_def)

lemma caches_frame: "frame s s' \<Longrightarrow> caches s' = caches s"
  by (simp add: frame_def)

lemma caches_copy: "copy s = (r, s') \<Longrightarrow> caches s' = caches s"
proof (cases r)
  case (Inl e)
  then show "copy s = (r, s') \<Longrightarrow> caches s' = caches s" by (auto dest!: copy_error_state)
next
  case (Inr x)
  then show "copy s = (r, s') \<Longrightarrow> caches s' = caches s" by (cases x) (auto dest!: copy_frame(1))
qed

lemma caches_Enqueue [simp]: "caches (snd (Enqueue n s)) = caches s"
  by (simp add: Enqueue_def split: run_queue.split)

lemma caches_jumpTo [simp]: "caches (snd (jumpTo a s)) = caches s"
  by (simp add: jumpTo_def)

lemma caches_switch [simp]: "caches (switch a m s) = caches s"
  by (cases s; cases m; simp add: switch_def mach.defs)

interpretation cached: exec_invariant "\<lambda>n (s :: vm). caches s = cs" for cs
proof unfold_locales
  fix n x and s :: vm
  assume q: "caches s = cs"
  show "caches (s\<lparr>pa := x\<rparr>) = cs" "caches (s\<lparr>err := e\<rparr>) = cs" "caches (snd (jumpTo a s)) = cs" for e a
    using q by simp_all
  show "keeps (\<lambda>s. caches s = cs) (push v s)" for v unfolding keeps_def using push_regs caches_frame q by metis
  show "keeps (\<lambda>s. caches s = cs) (drop_m s)" unfolding keeps_def using drop_regs caches_frame q by metis
  show "keeps (\<lambda>s. caches s = cs) (cpush v s)" for v unfolding keeps_def using cpush_regs caches_frame q by metis
  show cpop: "keeps (\<lambda>s. caches s = cs) (cpop s)" unfolding keeps_def using cpop_regs caches_frame q by metis
  show "keeps (\<lambda>s. caches s = cs) (store a v s)" for a v unfolding keeps_def using store_regs caches_frame q by metis
  show ref: "caches (snd (ref a s)) = cs" for a
    using ref_regs [of a s "fst (ref a s)" "snd (ref a s)"] caches_frame q by auto
  show "kept (\<lambda>s. caches s = cs) (store_to l v s')" if "ref a s = (Inr l, s')" for a l v s'
    using ref [of a] that store_to_regs caches_frame unfolding kept_def by (metis snd_conv)
  show "caches (snd (fork off s)) = cs" for off
    using q by (auto simp: fork_def Let_def dest!: caches_copy split: sum.split prod.split)
  show "caches (snd (branch off s)) = cs" for off
    using q by (auto simp: branch_def Let_def dest!: caches_copy split: sum.split prod.split)
  show "keeps (\<lambda>s. caches s = cs) (cfork s)"
  proof (cases s rule: copy_cases)
    case (copied a m t)
    have t: "caches t = cs" using caches_copy [OF copied] q by simp
    show ?thesis
    proof (rule cpop_cases [of "switch a m t"])
      fix r assume "cpop (switch a m t) = Some (r, switch a m t)"
      then show ?thesis by (cases r) (simp add: cfork_def copied jumpTo_def Let_def keeps_pair t)
    next
      fix r assume "cpop (switch a m t) = Some (r, (switch a m t)\<lparr>csp := csp (switch a m t) + 4\<rparr>)"
      then show ?thesis by (cases r) (simp add: cfork_def copied jumpTo_def Let_def keeps_pair t)
    qed (simp add: cfork_def copied)
  qed (use q caches_copy in \<open>auto simp: cfork_def\<close>)
  show "keeps (\<lambda>s. caches s = cs) (cbranch s)"
  proof (cases s rule: copy_cases)
    case (copied a m t)
    have t: "caches t = cs" using caches_copy [OF copied] q by simp
    have e: "caches (snd (Enqueue (a, m) u)) = caches u" for u by simp
    show ?thesis
    proof (rule cpop_cases [of t])
      fix r assume "cpop t = Some (r, t)"
      then show ?thesis using e [of t]
        by (cases r; cases "Enqueue (a, m) t") (simp add: cbranch_def copied jumpTo_def Let_def keeps_pair t)
    next
      fix r assume "cpop t = Some (r, t\<lparr>csp := csp t + 4\<rparr>)"
      then show ?thesis using e [of "t\<lparr>csp := csp t + 4\<rparr>"]
        by (cases r; cases "Enqueue (a, m) (t\<lparr>csp := csp t + 4\<rparr>)")
          (simp add: cbranch_def copied jumpTo_def Let_def keeps_pair t)
    qed (simp add: cbranch_def copied)
  qed (use q caches_copy in \<open>auto simp: cbranch_def\<close>)
qed

lemma exec_caches: "exec code arg s = Some s' \<Longrightarrow> caches s' = caches s"
  using cached.exec [of s "caches s" code arg] by (simp add: kept_def)

lemma fetch_loop_same: "pages t = pages s \<Longrightarrow> heap t = heap s \<Longrightarrow> fetch_loop t i j bs n = fetch_loop s i j bs n"
proof (induction s i j bs n rule: fetch_loop.induct)
  case (1 s i j bs n)
  have p: "page_of t k = page_of s k" for k using "1.prems" by (simp add: page_of_def)
  show ?case
  proof (cases "n < length bs")
    case True
    obtain i1 j1 where ij: "(if 0x3f < j then (Suc i, j mod 64) else (i, j)) = (i1, j1)" by fastforce
    note u = fetch_loop.simps [of _ i j bs n]
    show ?thesis
    proof (cases "page_of s i1")
      case None
      then show ?thesis using "1.IH"(1) [OF True refl ij [symmetric] None refl _ "1.prems"]
        by (simp add: u [of s] u [of t] True ij p Let_def)
    next
      case (Some q)
      then show ?thesis using "1.IH"(2) [OF True refl ij [symmetric] Some "1.prems"]
        by (simp add: u [of s] u [of t] True ij p "1.prems")
    qed
  next
    case False
    then show ?thesis by (simp add: fetch_loop.simps [of _ i j bs n])
  qed
qed

lemma read_same: "pages t = pages s \<Longrightarrow> heap t = heap s \<Longrightarrow> read a t = read a s"
  by (simp add: read_def fetchBytes_def fetch_loop_same [of t s])

text \<open>What \<open>set\<close> does to the arrays: it enters the operation, into a new array or into the one that is shared.\<close>

lemma set_op_decoded:
  assumes "set_op k co s = Some s'" "i < length (caches s)"
  shows "i < length (caches s') \<and>
    (decoded s' i l = decoded s i l \<or> i = opc s \<and> l = unat k \<and> decoded s' i l = (if co_ip co = 0 then None else Some co))"
proof (cases "length (caches s ! opc s) \<le> unat k")
  case True
  then obtain cos where "caches s' = caches s @ [cos]"
    using assms(1) by (auto simp: set_op_def Let_def split: if_splits)
  with assms(2) have "i < length (caches s')" "caches s' ! i = caches s ! i" by (simp_all add: nth_append)
  then show ?thesis by (simp add: decoded_def)
next
  case False
  then have "caches s' = (caches s)[opc s := (caches s ! opc s)[unat k := co]]"
    using assms(1) by (auto simp: set_op_def Let_def)
  then have "length (caches s') = length (caches s)"
    "caches s' ! i = (if i = opc s then (caches s ! i)[unat k := co] else caches s ! i)"
    using assms(2) by (simp_all add: nth_list_update)
  then show ?thesis using False assms(2) by (auto simp: decoded_def nth_list_update Let_def)
qed

lemma step_decoded:
  assumes "step s = Some s'" "i < length (caches s)"
  shows "i < length (caches s') \<and>
    (decoded s' i k = decoded s i k \<or>
     decoded s i k = None \<and> i = opc s \<and> k = unat (ip s - cbp s) \<and>
       (\<exists>en code arg. read (ip s) s = (en, code, arg, None) \<and>
          decoded s' i k = Some \<lparr>co_ip = en, co_code = code, co_arg = arg\<rparr>))"
proof -
  define t where "t = (if limit s \<noteq> 0 then s\<lparr>count := count s + 1\<rparr> else s)"
  have t: "ip t = ip s" "cbp t = cbp s" "opc t = opc s" "caches t = caches s" "pages t = pages s" "heap t = heap s"
    by (simp_all add: t_def)
  have same: "decoded u i k = decoded s i k" if "caches u = caches s" for u :: vm using that by (simp add: decoded_def)
  obtain en code arg e where r: "read (ip s) s = (en, code, arg, e)" by (metis prod_cases4)
  have rt: "read (ip s) t = (en, code, arg, e)" using read_same [OF t(5,6)] r by simp
  consider "limit s \<noteq> 0 \<and> limit s \<le> count s" | oc where "\<not> (limit s \<noteq> 0 \<and> limit s \<le> count s)" "get (ip s - cbp s) t = Some oc"
    | "\<not> (limit s \<noteq> 0 \<and> limit s \<le> count s)" "get (ip s - cbp s) t = None" by (cases "get (ip s - cbp s) t") blast+
  then show ?thesis
  proof cases
    case 1
    have "s' = s\<lparr>err := Some ErrLimit\<rparr>" using assms(1) unfolding step_def if_P [OF 1] by simp
    then have c: "caches s' = caches s" by simp
    then show ?thesis using same [OF c] assms(2) by simp
  next
    case (2 oc)
    have "step s = exec (co_code oc) (co_arg oc) (t\<lparr>ip := co_ip oc\<rparr>)"
      unfolding step_def if_not_P [OF 2(1)] t_def [symmetric] Let_def t(1,2) 2(2) by simp
    then have "exec (co_code oc) (co_arg oc) (t\<lparr>ip := co_ip oc\<rparr>) = Some s'" using assms(1) by simp
    from exec_caches [OF this] have c: "caches s' = caches s" by (simp add: t)
    then show ?thesis using same [OF c] assms(2) by simp
  next
    case 3
    have st: "step s = (if e \<noteq> None then Some (t\<lparr>err := e\<rparr>) else
        Option.bind (set_op (ip s - cbp s) \<lparr>co_ip = en, co_code = code, co_arg = arg\<rparr> (t\<lparr>err := e\<rparr>))
          (\<lambda>u. exec code arg (u\<lparr>ip := en\<rparr>)))"
      unfolding step_def if_not_P [OF 3(1)] t_def [symmetric] Let_def t(1,2) 3(2) rt by simp
    show ?thesis
    proof (cases "e = None")
      case False
      then have "s' = t\<lparr>err := e\<rparr>" using st assms(1) by simp
      then have c: "caches s' = caches s" by (simp add: t)
      then show ?thesis using same [OF c] assms(2) by simp
    next
      case True
      let ?co = "\<lparr>co_ip = en, co_code = code, co_arg = arg\<rparr>"
      obtain u where u: "set_op (ip s - cbp s) ?co (t\<lparr>err := e\<rparr>) = Some u" "exec code arg (u\<lparr>ip := en\<rparr>) = Some s'"
        using st assms(1) True by (auto split: Option.bind_splits)
      have c: "caches s' = caches u" using exec_caches [OF u(2)] by simp
      then have d: "decoded s' i k = decoded u i k" by (simp add: decoded_def)
      have n: "decoded s (opc s) (unat (ip s - cbp s)) = None"
        using 3(2) by (simp add: get_decoded t) (simp add: decoded_def t)
      have "decoded (t\<lparr>err := e\<rparr>) i k = decoded s i k" "opc (t\<lparr>err := e\<rparr>) = opc s" "i < length (caches (t\<lparr>err := e\<rparr>))"
        using t assms(2) by (simp_all add: decoded_def)
      with set_op_decoded [OF u(1) this(3), of k] have "i < length (caches u) \<and> (decoded u i k = decoded s i k \<or>
          i = opc s \<and> k = unat (ip s - cbp s) \<and> decoded u i k = (if en = 0 then None else Some ?co))" by simp
      then show ?thesis using n r True unfolding d c by (cases "en = 0") auto
    qed
  qed
qed

subsection \<open>Every machine has an array\<close>

definition opcs_ok :: "vm \<Rightarrow> bool" where
  "opcs_ok s \<longleftrightarrow> opc s < length (caches s) \<and> (\<forall>(a, m) \<in> set (queued s). opc m < length (caches s))"

lemma opcs_ok_cong: "opc t = opc s \<Longrightarrow> caches t = caches s \<Longrightarrow> runq t = runq s \<Longrightarrow> opcs_ok t = opcs_ok s"
  by (simp add: opcs_ok_def queued_def)

lemma opcs_frame: "frame s s' \<Longrightarrow> opcs_ok s \<Longrightarrow> opcs_ok s'"
  using opcs_ok_cong [of s' s] by (simp add: frame_def)

lemma opcs_copy:
  assumes "copy s = (r, s')" "opcs_ok s"
  shows "opcs_ok s'" "r = Inr (a, m) \<Longrightarrow> opc m < length (caches s')"
proof -
  have "runq s' = runq s \<and> opc s' = opc s"
    using assms(1) by (cases r) (auto dest!: copy_error_state copy_frame(1))
  then show "opcs_ok s'" using assms(2) opcs_ok_cong [of s' s] caches_copy [OF assms(1)] by simp
  show "r = Inr (a, m) \<Longrightarrow> opc m < length (caches s')"
    using assms copy_frame(2) [of s a m s'] caches_copy [OF assms(1)] by (auto simp: opcs_ok_def cur_def mach.defs)
qed

lemma opcs_Enqueue: "opcs_ok s \<Longrightarrow> opc m < length (caches s) \<Longrightarrow> opcs_ok (snd (Enqueue (a, m) s))"
  by (auto simp: opcs_ok_def Enqueue_def queued_def split: run_queue.split)

lemma opcs_regs [simp]:
  "opcs_ok (s\<lparr>ip := x\<rparr>) = opcs_ok s" "opcs_ok (s\<lparr>csp := x\<rparr>) = opcs_ok s" "opcs_ok (s\<lparr>pa := x\<rparr>) = opcs_ok s"
  "opcs_ok (s\<lparr>err := e\<rparr>) = opcs_ok s" "opcs_ok (s\<lparr>count := n\<rparr>) = opcs_ok s" "opcs_ok (snd (jumpTo b s)) = opcs_ok s"
  by (rule opcs_ok_cong; simp add: jumpTo_def)+

interpretation opcs: step_invariant "\<lambda>n s. opcs_ok s"
proof unfold_locales
  fix n x and s :: vm
  assume q: "opcs_ok s"
  show "opcs_ok (s\<lparr>pa := x\<rparr>)" "opcs_ok (s\<lparr>err := e\<rparr>)" "opcs_ok (snd (jumpTo b s))" "opcs_ok (s\<lparr>ip := x\<rparr>)" for e b
    using q by simp_all
  show "keeps opcs_ok (push v s)" for v unfolding keeps_def using push_regs opcs_frame q by metis
  show "keeps opcs_ok (drop_m s)" unfolding keeps_def using drop_regs opcs_frame q by metis
  show "keeps opcs_ok (cpush v s)" for v unfolding keeps_def using cpush_regs opcs_frame q by metis
  show "keeps opcs_ok (cpop s)" unfolding keeps_def using cpop_regs opcs_frame q by metis
  show "keeps opcs_ok (store a v s)" for a v unfolding keeps_def using store_regs opcs_frame q by metis
  show ref: "opcs_ok (snd (ref a s))" for a
    using ref_regs [of a s "fst (ref a s)" "snd (ref a s)"] opcs_frame q by auto
  show "kept opcs_ok (store_to l v s')" if "ref a s = (Inr l, s')" for a l v s'
    using ref [of a] that store_to_regs opcs_frame unfolding kept_def by (metis snd_conv)
  show "opcs_ok (snd (fork off s))" for off
    using q by (auto simp: fork_def Let_def split: sum.split prod.split intro!: opcs_Enqueue
        dest: opcs_copy(1) [OF _ q] opcs_copy(2) [OF _ q refl])
  show "opcs_ok (snd (branch off s))" for off
    using q by (auto simp: branch_def Let_def split: sum.split prod.split intro!: opcs_Enqueue
        dest: opcs_copy(1) [OF _ q] opcs_copy(2) [OF _ q refl])
  show "keeps opcs_ok (cfork s)"
  proof (cases s rule: copy_cases)
    case (copied a m t)
    note t = opcs_copy(1) [OF copied q] opcs_copy(2) [OF copied q refl]
    have e: "opcs_ok (snd (Enqueue (a, m\<lparr>ip := x, csp := y\<rparr>) t))" "opcs_ok (snd (Enqueue (a, m\<lparr>ip := x\<rparr>) t))" for x y
      using t by (simp_all add: opcs_Enqueue)
    show ?thesis
    proof (rule cpop_cases [of "switch a m t"])
      fix r assume "cpop (switch a m t) = Some (r, switch a m t)"
      then show ?thesis using e t(1)
        by (cases r) (simp add: cfork_def copied jumpTo_def Let_def keeps_pair switch_back)
    next
      fix r assume "cpop (switch a m t) = Some (r, (switch a m t)\<lparr>csp := csp (switch a m t) + 4\<rparr>)"
      then show ?thesis using e t(1)
        by (cases r) (simp add: cfork_def copied jumpTo_def Let_def keeps_pair switch_back)
    qed (simp add: cfork_def copied)
  qed (use q opcs_copy(1) in \<open>auto simp: cfork_def\<close>)
  show "keeps opcs_ok (cbranch s)"
  proof (cases s rule: copy_cases)
    case (copied a m t)
    note t = opcs_copy(1) [OF copied q] opcs_copy(2) [OF copied q refl]
    have e: "opcs_ok u \<Longrightarrow> caches u = caches t \<Longrightarrow> opcs_ok (snd (Enqueue (a, m) u))" for u
      using t by (simp add: opcs_Enqueue)
    show ?thesis
    proof (rule cpop_cases [of t])
      fix r assume "cpop t = Some (r, t)"
      then show ?thesis using e [of t] t(1)
        by (cases r; cases "Enqueue (a, m) t") (simp add: cbranch_def copied jumpTo_def Let_def keeps_pair)
    next
      fix r assume "cpop t = Some (r, t\<lparr>csp := csp t + 4\<rparr>)"
      then show ?thesis using e [of "t\<lparr>csp := csp t + 4\<rparr>"] t(1)
        by (cases r; cases "Enqueue (a, m) (t\<lparr>csp := csp t + 4\<rparr>)")
          (simp add: cbranch_def copied jumpTo_def Let_def keeps_pair)
    qed (simp add: cbranch_def copied)
  qed (use q opcs_copy(1) in \<open>auto simp: cbranch_def\<close>)
  show "kept opcs_ok (set_op k co s)" for k co
    unfolding kept_def
  proof (intro allI impI)
    fix t assume "set_op k co s = Some t"
    then have "length (caches s) \<le> length (caches t)" "opc t = opc s \<or> opc t < length (caches t)" "queued t = queued s"
      by (auto simp: set_op_def Let_def queued_def split: if_splits)
    then show "opcs_ok t" using q by (fastforce simp: opcs_ok_def)
  qed
qed simp_all

lemma step_opcs: "opcs_ok s \<Longrightarrow> step s = Some s' \<Longrightarrow> opcs_ok s'"
  using opcs.step [of s] by (simp add: kept_def)

lemma step_fills:
  assumes "step s = Some s'" "\<not> (limit s \<noteq> 0 \<and> limit s \<le> count s)" "get (ip s - cbp s) s = None"
    "read (ip s) s = (en, code, arg, None)"
  obtains t u where "caches t = caches s" "opc t = opc s" "caches s' = caches u"
    "set_op (ip s - cbp s) \<lparr>co_ip = en, co_code = code, co_arg = arg\<rparr> t = Some u"
proof -
  define t where "t = (if limit s \<noteq> 0 then s\<lparr>count := count s + 1\<rparr> else s)"
  have t: "ip t = ip s" "cbp t = cbp s" "opc t = opc s" "caches t = caches s" "pages t = pages s" "heap t = heap s"
    by (simp_all add: t_def)
  have rt: "read (ip s) t = (en, code, arg, None)" using read_same [OF t(5,6)] assms(4) by simp
  have gt: "get (ip s - cbp s) t = None" using assms(3) by (simp add: get_def t)
  let ?t = "t\<lparr>err := None\<rparr>"
  have "step s = Option.bind (set_op (ip s - cbp s) \<lparr>co_ip = en, co_code = code, co_arg = arg\<rparr> ?t)
      (\<lambda>u. exec code arg (u\<lparr>ip := en\<rparr>))"
    unfolding step_def if_not_P [OF assms(2)] t_def [symmetric] Let_def t(1,2) gt rt by simp
  with assms(1) obtain u where u: "set_op (ip s - cbp s) \<lparr>co_ip = en, co_code = code, co_arg = arg\<rparr> ?t = Some u"
    "exec code arg (u\<lparr>ip := en\<rparr>) = Some s'" by (auto split: Option.bind_splits)
  show thesis using that [of ?t u] u(1) exec_caches [OF u(2)] t by simp
qed

subsection \<open>What a step does to queued machines\<close>

text \<open>
  C1: copy-on-write isolates the memory of machines: whatever operation the running machine executes, every queued
  machine stays in the queue, unchanged, and sees the same memory, although they share pages.  What it has decoded
  stays, too, but for one thing: if it shares the running machine's array of decoded operations, then the entry of the
  running machine's address, if it was empty, may come to hold what the running machine read there.
\<close>
theorem step_isolates:
  assumes "share_inv n s" "n + 1 < 2 ^ 31 - 1" "opcs_ok s" "step s = Some s'" "(a, m) \<in> set (queued s)"
  shows "(a, m) \<in> set (queued s') \<and> memory s' m = memory s m \<and> opcs_ok s' \<and>
    (\<forall>k. decoded s' (opc m) k = decoded s (opc m) k \<or>
       decoded s (opc m) k = None \<and> opc m = opc s \<and> k = unat (ip s - cbp s) \<and>
       (\<exists>en code arg. read (ip s) s = (en, code, arg, None) \<and>
          decoded s' (opc m) k = Some \<lparr>co_ip = en, co_code = code, co_arg = arg\<rparr>))"
proof -
  have "isolated s n s" using assms(1) by (auto simp: isolated_def)
  then have "isolated s (Suc n) s'" using isolated.steps.step [of s s n] assms(4)
    by (simp add: kept_def isolated_def queued_def)
  from isolatedD(2,3) [OF this] assms(2,5) have "(a, m) \<in> set (queued s') \<and> memory s' m = memory s m"
    by (simp add: memory_def byte_of_def fun_eq_iff)
  moreover have "opc m < length (caches s)" using assms(3,5) by (auto simp: opcs_ok_def)
  ultimately show ?thesis using step_decoded [OF assms(4)] step_opcs [OF assms(3,4)] by blast
qed

theorem step_isolates_witness:
  "\<exists>s' a m. step demo = Some s' \<and> (a, m) \<in> set (queued s') \<and> byte_at s' 96 = 7 \<and> memory s' m 96 = 0"
proof -
  obtain s' where s': "step demo = Some s'" "pages s' = [None, Some 1]" "dat (heap s' ! 1) ! 32 = 7"
    using step_demo by blast
  define m where "m = (cur (blank 64))\<lparr>pages := [None, Some 0]\<rparr>"
  have q: "(1, m) \<in> set (queued demo)" by (simp add: demo_fields m_def)
  have o: "opcs_ok demo" by (simp add: opcs_ok_def demo_fields cur_def blank_def mach.defs)
  have "memory demo m 96 = 0"
    by (simp add: memory_def byte_of_def contents_def pageSize_def m_def demo_fields)
  with step_isolates [OF share_demo _ o s'(1) q] have "(1, m) \<in> set (queued s')" "memory s' m 96 = 0"
    by simp_all
  moreover have "byte_at s' 96 = 7"
    by (simp add: byte_at_def byte_of_def contents_def pageSize_def s'(2)) (simp add: s'(3) [simplified])
  ultimately show ?thesis using s'(1) by blast
qed

text \<open>
  C22: the decoded operations leak from one machine into another.  When a step decodes an operation and enters it
  into an array that reaches as far, then a machine of the run queue with the same array, resumed at the same address
  over the same stack, executes that operation, whatever its own memory holds there.
\<close>
theorem decoding_leaks:
  assumes "step s = Some s'" "\<not> (limit s \<noteq> 0 \<and> limit s \<le> count s)" "get (ip s - cbp s) s = None"
    "read (ip s) s = (en, code, arg, None)" "en \<noteq> 0" "opc s < length (caches s)"
    "unat (ip s - cbp s) < length (caches s ! opc s)"
    and "opc m = opc s" "ip m = ip s" "cbp m = cbp s" "\<not> (limit m \<noteq> 0 \<and> limit m \<le> count m)"
    and u: "u = switch a m s'"
  shows "step u = exec code arg ((if limit m \<noteq> 0 then u\<lparr>count := count m + 1\<rparr> else u)\<lparr>ip := en\<rparr>)"
proof -
  let ?co = "\<lparr>co_ip = en, co_code = code, co_arg = arg\<rparr>" and ?k = "unat (ip s - cbp s)"
  obtain t v where v: "caches t = caches s" "opc t = opc s" "caches s' = caches v" "set_op (ip s - cbp s) ?co t = Some v"
    using step_fills [OF assms(1-4)] by blast
  have "caches s' = (caches s)[opc s := (caches s ! opc s)[?k := ?co]]"
    using v assms(7) by (auto simp: set_op_def Let_def)
  then have "decoded s' (opc s) ?k = Some ?co" using assms(5-7) by (simp add: decoded_def)
  moreover have f: "opc u = opc m" "ip u = ip m" "cbp u = cbp m" "limit u = limit m" "count u = count m" "caches u = caches s'"
    by (simp_all add: u caches_switch) (simp_all add: switch_def mach.defs)
  define w where "w = (if limit u \<noteq> 0 then u\<lparr>count := count u + 1\<rparr> else u)"
  have w: "opc w = opc m" "ip w = ip s" "cbp w = cbp s" "caches w = caches s'" using f assms(9,10) by (simp_all add: w_def)
  ultimately have "get (ip s - cbp s) w = Some ?co"
    using assms(8) by (simp add: get_decoded) (simp add: decoded_def)
  then have g: "get (ip w - cbp w) w = Some ?co" using w by simp
  have n: "\<not> (limit u \<noteq> 0 \<and> limit u \<le> count u)" using assms(11) f by simp
  have "step u = exec code arg (w\<lparr>ip := en\<rparr>)"
    unfolding step_def if_not_P [OF n] w_def [symmetric] Let_def g by simp
  then show ?thesis by (simp add: w_def f)
qed

text \<open>\<^const>\<open>demo\<close> with room for 8 decoded operations, and a machine in its queue that has no memory.\<close>

definition leaking :: vm where
  "leaking = demo\<lparr>caches := [replicate 8 no_op], runq := RunQ 10 [(1, cur (blank 64))]\<rparr>"

lemma step_leaking:
  "\<exists>s'. step leaking = Some s' \<and> queued s' = [(1, cur (blank 64))]"
proof -
  have f: "ip leaking = 64" "cbp leaking = 60" "limit leaking = 0" "opc leaking = 0" "caches leaking = [replicate 8 no_op]"
    "pages leaking = [None, Some 0]" "heap leaking = heap demo" "pa leaking = 7" "psp leaking = 0" "err leaking = None"
    "palloc leaking = DefaultPages" "queued leaking = [(1, cur (blank 64))]" "runq leaking = RunQ 10 [(1, cur (blank 64))]"
    by (simp_all add: leaking_def demo_fields queued_def)
  have r: "read 64 leaking = (66, 0x8a, 96, None)"
    using read_same [of leaking demo 64] read_demo f by (simp add: demo_fields)
  show ?thesis
    by (simp add: step_eval r storeto_code demo_addr f demo_fields nth_append no_op_def queued_def)
qed

lemma read_nothing: "pages s = [] \<Longrightarrow> read 64 s = (65, 0, 0, None)"
proof -
  assume "pages s = []"
  then have "read 64 s = read 64 ((blank 64)\<lparr>heap := heap s\<rparr>)" by (intro read_same) (simp_all add: blank_def)
  moreover have "replicate 6 x = [x, x, x, x, x, x]" for x :: u8 by (simp add: numeral_eq_Suc)
  then have "fetchBytes 64 (replicate 6 0) ((blank 64)\<lparr>heap := heap s\<rparr>) = (6, [0, 0, 0, 0, 0, 0])"
    by (simp add: fetchBytes_def demo_addr fetch_loop.simps page_of_def blank_def pageSize_def)
  ultimately show ?thesis
    by (simp add: read_def readVarCode_def validate_def hasImm_def opCodeWithImm_def opcode_code_def
        Let_def ops_def opdef_defs imm_kind_def imm_kind_defs imm_required_def)
qed

theorem decoding_leaks_witness:
  "\<exists>s' m. step leaking = Some s' \<and> queued s' = [(1, m)] \<and> read 64 (switch 1 m s') = (65, 0, 0, None) \<and>
    step (switch 1 m s') = exec 0x8a 96 ((switch 1 m s')\<lparr>ip := 66\<rparr>)"
proof -
  let ?m = "cur (blank 64)"
  have f: "ip leaking = 64" "cbp leaking = 60" "limit leaking = 0" "opc leaking = 0" "caches leaking = [replicate 8 no_op]"
    "pages leaking = pages demo" "heap leaking = heap demo" by (simp_all add: leaking_def demo_fields)
  have r: "read 64 leaking = (66, 0x8a, 96, None)" using read_same [OF f(6,7)] read_demo by simp
  have g: "get 4 leaking = None" by (simp add: get_def f no_op_def)
  obtain s' where s': "step leaking = Some s'" "queued s' = [(1, ?m)]" using step_leaking by blast
  have m: "opc ?m = 0" "ip ?m = 64" "cbp ?m = 60" "limit ?m = 0" "pages ?m = []"
    by (simp_all add: cur_def blank_def mach.defs)
  have "step (switch 1 ?m s') = exec 0x8a 96 ((switch 1 ?m s')\<lparr>ip := 66\<rparr>)"
    using decoding_leaks [OF s'(1), where m = ?m and a = "1" and en = "66" and code = "0x8a" and arg = "96"] by (simp add: f r g m)
  moreover have "pages (switch 1 ?m s') = []" by (simp add: switch_def mach.defs blank_def)
  ultimately show ?thesis using s' read_nothing by blast
qed

end
