(* ===== verification/Build.thy ===== *)
theory Build
  imports Loading Termination Caches "HOL-Library.Mapping"
begin

text \<open>
  Building a machine: the option parser and \<open>New\<close> of \<open>api.go\<close>, its build options \<open>Handler\<close>,
  \<open>Input\<close>, \<open>NamedInput\<close> and \<open>WithDebugInfo\<close>, and the debug information that the options carry.

  An \<open>int\<close> that a 32-bit argument is converted to is a \<open>nat\<close> (\<open>int\<close> has 64 bits).  The parser's
  methods return Go's error or result with the builder after the call.
\<close>

subsection \<open>Debug information\<close>

definition annoSpanOpen :: u8 where "annoSpanOpen = 1"
definition annoSpanClose :: u8 where "annoSpanClose = 2"

record debugInfo =
  labels :: "(u32, u8 list list) mapping"
  annos :: "(u32, u8) mapping"

definition no_debug :: debugInfo where
  "no_debug = \<lparr>labels = Mapping.empty, annos = Mapping.empty\<rparr>"

definition dbg_Labels :: "debugInfo \<Rightarrow> u32 \<Rightarrow> u8 list list" where
  "dbg_Labels dbg addr = Mapping.lookup_default [] (labels dbg) addr"

definition dbg_Span :: "debugInfo \<Rightarrow> u32 \<Rightarrow> bool \<times> bool" where
  "dbg_Span dbg addr =
     (let an = Mapping.lookup_default 0 (annos dbg) addr
      in (an AND annoSpanOpen \<noteq> 0, an AND annoSpanClose \<noteq> 0))"

definition dbg_empty :: "debugInfo \<Rightarrow> bool" where
  "dbg_empty dbg \<longleftrightarrow> Mapping.is_empty (labels dbg) \<and> Mapping.is_empty (annos dbg)"

text \<open>Go ranges over a map in any order: the addresses are a set.\<close>

definition LabeledAddrs :: "debugInfo \<Rightarrow> u32 set" where
  "LabeledAddrs dbg = Mapping.keys (labels dbg)"

definition SpanAddrs :: "debugInfo \<Rightarrow> u32 set" where
  "SpanAddrs dbg = Mapping.keys (annos dbg)"

definition addLabel :: "u32 \<Rightarrow> u8 list \<Rightarrow> debugInfo \<Rightarrow> debugInfo" where
  "addLabel addr label dbg =
     dbg\<lparr>labels := Mapping.update addr (dbg_Labels dbg addr @ [label]) (labels dbg)\<rparr>"

definition annotate :: "u32 \<Rightarrow> u8 \<Rightarrow> debugInfo \<Rightarrow> debugInfo" where
  "annotate addr an dbg =
     dbg\<lparr>annos := Mapping.update addr (Mapping.lookup_default 0 (annos dbg) addr OR an) (annos dbg)\<rparr>"

subsection \<open>The builder\<close>

datatype berr =
    ErrVarOpts | ErrTruncatedString | ErrTruncatedVarint | ErrBigVarint
  | BadAddress berr | BadLabel berr | BadStringLength berr
  | UnsupportedVersion u32
  | InvalidStackSize u32 | StackSizeNotWords u32
  | UnpairedInput u8 | UnpairedOutput u8
  | InvalidOption u8 bool u32
  | UnsupportedInput nat nat
  | TooManyInputs nat u32 nat | TooManyNamedInputs "u8 list" u32 nat
  | NoNamedInput "u8 list"
  | FetchError merr

record machBuilder =
  mb_mach :: vm
  mb_base :: u32
  queueSize :: nat
  maxCopies :: nat
  inputs :: "region list"
  nextIn :: nat
  dbg :: debugInfo
  buf :: "u8 list"
  pos :: nat

subsection \<open>Reading\<close>

definition readOptCode :: "machBuilder \<Rightarrow> (berr + u8 \<times> u32) \<times> machBuilder" where
  "readOptCode mb =
     (let (n, arg, code, ok) = readVarCode (drop (pos mb) (buf mb));
          mb = mb\<lparr>pos := pos mb + n\<rparr>
      in (if ok then Inr (code, arg) else Inl ErrVarOpts, mb))"

definition mayReadOptCode :: "u8 \<Rightarrow> machBuilder \<Rightarrow> (berr + u32 option) \<times> machBuilder" where
  "mayReadOptCode ifCode mb =
     (let (n, arg, code, ok) = readVarCode (drop (pos mb) (buf mb))
      in if \<not> ok then (Inl ErrVarOpts, mb\<lparr>pos := pos mb + n\<rparr>)
         else if code \<noteq> ifCode then (Inr None, mb)
         else (Inr (Some arg), mb\<lparr>pos := pos mb + n\<rparr>))"

text \<open>
  \<open>binary.Uvarint\<close> of Go's library: the value and the number of bytes, 0 if the buffer is too
  short, negative if the value does not fit in 64 bits.
\<close>

fun uvarint_loop :: "nat \<Rightarrow> u64 \<Rightarrow> u8 list \<Rightarrow> u64 \<times> int" where
  "uvarint_loop i x [] = (0, 0)"
| "uvarint_loop i x (b # bs) =
     (if i = 10 then (0, - (int i + 1))
      else if b < 0x80 then
        (if i = 9 \<and> b > 1 then (0, - (int i + 1)) else (x OR push_bit (7 * i) (ucast b), int i + 1))
      else uvarint_loop (Suc i) (x OR push_bit (7 * i) (ucast (b AND 0x7f))) bs)"

definition readUvarint :: "machBuilder \<Rightarrow> (berr + u32) \<times> machBuilder" where
  "readUvarint mb =
     (let (v, n) = uvarint_loop 0 0 (drop (pos mb) (buf mb));
          v32 = ucast v :: u32
      in if n = 0 then (Inl ErrTruncatedVarint, mb)
         else if n < 0 \<or> ucast v32 \<noteq> v then (Inl ErrBigVarint, mb)
         else (Inr v32, mb\<lparr>pos := pos mb + nat n\<rparr>))"

definition readString :: "machBuilder \<Rightarrow> (berr + u8 list) \<times> machBuilder" where
  "readString mb =
     (case readUvarint mb of
        (Inl e, mb) \<Rightarrow> (Inl (BadStringLength e), mb)
      | (Inr v, mb) \<Rightarrow>
          (let n = unat v + pos mb
           in if n \<ge> length (buf mb) then (Inl ErrTruncatedString, mb)
              else (Inr (take (n - pos mb) (drop (pos mb) (buf mb))), mb\<lparr>pos := n\<rparr>)))"

fun readAddrLabels :: "nat \<Rightarrow> machBuilder \<Rightarrow> berr option \<times> machBuilder" where
  "readAddrLabels 0 mb = (None, mb)"
| "readAddrLabels (Suc n) mb =
     (case readUvarint mb of
        (Inl e, mb) \<Rightarrow> (Some (BadAddress e), mb)
      | (Inr addr, mb) \<Rightarrow>
          (case readString mb of
             (Inl e, mb) \<Rightarrow> (Some (BadLabel e), mb)
           | (Inr label, mb) \<Rightarrow> readAddrLabels n (mb\<lparr>dbg := addLabel addr label (dbg mb)\<rparr>)))"

subsection \<open>Options\<close>

definition set_mach :: "(vm \<Rightarrow> vm) \<Rightarrow> machBuilder \<Rightarrow> machBuilder" where
  "set_mach f mb = mb\<lparr>mb_mach := f (mb_mach mb)\<rparr>"

text \<open>The end of a region and its optional name, as both region options read them.\<close>

definition readRegion :: "u8 \<Rightarrow> (u8 \<Rightarrow> berr) \<Rightarrow> u32 \<Rightarrow> machBuilder \<Rightarrow> (berr + region) \<times> machBuilder" where
  "readRegion c unpaired start mb =
     (case readOptCode mb of
        (Inl e, mb) \<Rightarrow> (Inl e, mb)
      | (Inr (code, end'), mb) \<Rightarrow>
          if code \<noteq> c then (Inl (unpaired code), mb)
          else
            (case mayReadOptCode (0x80 OR opt_code OptName) mb of
               (Inl e, mb) \<Rightarrow> (Inl e, mb)
             | (Inr None, mb) \<Rightarrow> (Inr \<lparr>rg_name = 0, rg_from = start, rg_to = end'\<rparr>, mb)
             | (Inr (Some addr), mb) \<Rightarrow>
                 (Inr \<lparr>rg_name = addr, rg_from = start, rg_to = end'\<rparr>, mb)))"

definition opt_stack_size :: "u32 \<Rightarrow> machBuilder \<Rightarrow> (berr + bool) \<times> machBuilder" where
  "opt_stack_size arg mb =
     (if arg > 0xffff then (Inl (InvalidStackSize arg), mb)
      else if arg mod 4 \<noteq> 0 then (Inl (StackSizeNotWords arg), mb)
      else
        (let oldBase = cbp (mb_mach mb) + 4;
             mb = mb\<lparr>mb_base := arg\<rparr>;
             mb = (if arg > 0 then set_mach (\<lambda>s. s\<lparr>cbp := arg - 4, csp := arg - 4\<rparr>) mb else mb);
             mb = (if ip (mb_mach mb) = 0 \<or> ip (mb_mach mb) = oldBase
                   then set_mach (\<lambda>s. s\<lparr>ip := arg\<rparr>) mb else mb)
         in (Inr False, mb)))"

text \<open>\<open>handleOpt\<close>: the result is \<open>done\<close>.\<close>

definition handleOpt :: "u8 \<Rightarrow> u32 \<Rightarrow> machBuilder \<Rightarrow> (berr + bool) \<times> machBuilder" where
  "handleOpt code arg mb =
     (case (opt_of (code AND 0x7f), code AND 0x80 \<noteq> 0) of
        (Some OptVersion, False) \<Rightarrow> (Inr False, mb)
      | (Some OptVersion, True) \<Rightarrow>
          (if arg \<noteq> 0 then Inl (UnsupportedVersion arg) else Inr False, mb)
      | (Some OptStackSize, True) \<Rightarrow> opt_stack_size arg mb
      | (Some OptQueueSize, True) \<Rightarrow> (Inr False, mb\<lparr>queueSize := unat arg\<rparr>)
      | (Some OptMaxOps, False) \<Rightarrow> (Inr False, set_mach (\<lambda>s. s\<lparr>limit := 0\<rparr>) mb)
      | (Some OptMaxOps, True) \<Rightarrow> (Inr False, set_mach (\<lambda>s. s\<lparr>limit := ucast arg\<rparr>) mb)
      | (Some OptMaxCopies, False) \<Rightarrow> (Inr False, mb\<lparr>maxCopies := 0\<rparr>)
      | (Some OptMaxCopies, True) \<Rightarrow> (Inr False, mb\<lparr>maxCopies := unat arg\<rparr>)
      | (Some OptEntry, True) \<Rightarrow> (Inr False, set_mach (\<lambda>s. s\<lparr>ip := arg\<rparr>) mb)
      | (Some OptInput, True) \<Rightarrow>
          (case readRegion (0x80 OR opt_code OptInput) UnpairedInput arg mb of
             (Inl e, mb) \<Rightarrow> (Inl e, mb)
           | (Inr rg, mb) \<Rightarrow> (Inr False, mb\<lparr>inputs := inputs mb @ [rg]\<rparr>))
      | (Some OptOutput, True) \<Rightarrow>
          (case readRegion (0x80 OR opt_code OptOutput) UnpairedOutput arg mb of
             (Inl e, mb) \<Rightarrow> (Inl e, mb)
           | (Inr rg, mb) \<Rightarrow> (Inr False, set_mach (\<lambda>s. s\<lparr>outs := outs s @ [rg]\<rparr>) mb))
      | (Some OptAddrLabels, True) \<Rightarrow>
          (case readAddrLabels (unat arg) mb of
             (Some e, mb) \<Rightarrow> (Inl e, mb)
           | (None, mb) \<Rightarrow> (Inr False, mb))
      | (Some OptSpanOpen, True) \<Rightarrow> (Inr False, mb\<lparr>dbg := annotate arg annoSpanOpen (dbg mb)\<rparr>)
      | (Some OptSpanClose, True) \<Rightarrow> (Inr False, mb\<lparr>dbg := annotate arg annoSpanClose (dbg mb)\<rparr>)
      | (Some OptEnd, False) \<Rightarrow> (Inr True, mb)
      | _ \<Rightarrow> (Inl (InvalidOption (code AND 0x7f) (code AND 0x80 \<noteq> 0) arg), mb))"

subsection \<open>The option loop ends\<close>

text \<open>\<open>reads mb mb'\<close>: the parser has gone from \<open>mb\<close> to \<open>mb'\<close> within the same buffer.\<close>

definition reads :: "machBuilder \<Rightarrow> machBuilder \<Rightarrow> bool" where
  "reads mb mb' \<longleftrightarrow> buf mb' = buf mb \<and> pos mb \<le> pos mb' \<and>
     (pos mb \<le> length (buf mb) \<longrightarrow> pos mb' \<le> length (buf mb))"

lemma reads_refl [simp]: "reads mb mb"
  by (simp add: reads_def)

lemma reads_trans: "reads a b \<Longrightarrow> reads b c \<Longrightarrow> reads a c"
  by (auto simp: reads_def)

lemma reads_simps [simp]:
  "reads mb (mb\<lparr>mb_mach := m\<rparr>)" "reads mb (mb\<lparr>mb_base := b\<rparr>)" "reads mb (mb\<lparr>queueSize := q\<rparr>)"
  "reads mb (mb\<lparr>maxCopies := q\<rparr>)" "reads mb (mb\<lparr>inputs := i\<rparr>)" "reads mb (mb\<lparr>dbg := d\<rparr>)"
  "reads mb (set_mach f mb)"
  by (simp_all add: reads_def set_mach_def)

lemma read_loop_count:
  "read_loop i arg bs = (n, a, c, ok) \<Longrightarrow> i \<le> n \<and> n \<le> i + length bs"
proof (induction bs arbitrary: i arg)
  case (Cons v bs)
  show ?case
  proof (cases "v AND 0x80 = 0 \<or> i = 5")
    case True
    with Cons.prems show ?thesis by (auto split: if_splits)
  next
    case False
    with Cons.prems obtain y where "read_loop (Suc i) y bs = (n, a, c, ok)" by auto
    from Cons.IH [OF this] show ?thesis by simp
  qed
qed simp

lemma readOptCode_reads:
  assumes "readOptCode mb = (r, mb')"
  shows "reads mb mb'" "r = Inr x \<Longrightarrow> pos mb < pos mb' \<and> pos mb' \<le> length (buf mb')"
proof -
  obtain n arg code ok where v: "readVarCode (drop (pos mb) (buf mb)) = (n, arg, code, ok)"
    by (metis prod_cases4)
  have mb': "mb' = mb\<lparr>pos := pos mb + n\<rparr>" "r = (if ok then Inr (code, arg) else Inl ErrVarOpts)"
    using assms by (auto simp: readOptCode_def v Let_def)
  have "n \<le> length (buf mb) - pos mb" using read_loop_count v by (simp add: readVarCode_def) fastforce
  then show "reads mb mb'" by (auto simp: reads_def mb'(1))
  show "pos mb < pos mb' \<and> pos mb' \<le> length (buf mb')" if "r = Inr x"
  proof -
    have ok using that mb'(2) by (auto split: if_splits)
    with v readVarCode_okD [of "drop (pos mb) (buf mb)" n arg code "[]"] show ?thesis
      by (auto simp: mb'(1))
  qed
qed

lemma mayReadOptCode_reads: "mayReadOptCode c mb = (r, mb') \<Longrightarrow> reads mb mb'"
  using read_loop_count [of 0 0 "drop (pos mb) (buf mb)"]
  by (auto simp: mayReadOptCode_def readVarCode_def reads_def split: prod.splits if_splits)

lemma uvarint_loop_count: "uvarint_loop i x bs = (v, n) \<Longrightarrow> 0 < n \<Longrightarrow> int i < n \<and> n \<le> int (i + length bs)"
proof (induction bs arbitrary: i x)
  case (Cons b bs)
  show ?case
  proof (cases "i = 10 \<or> b < 0x80")
    case True
    with Cons.prems show ?thesis by (auto split: if_splits)
  next
    case False
    with Cons.prems obtain y where "uvarint_loop (Suc i) y bs = (v, n)" by auto
    from Cons.IH [OF this Cons.prems(2)] show ?thesis by auto
  qed
qed simp

lemma readUvarint_reads:
  assumes "readUvarint mb = (r, mb')"
  shows "reads mb mb'"
proof -
  obtain v n where v: "uvarint_loop 0 0 (drop (pos mb) (buf mb)) = (v, n)" by fastforce
  show ?thesis
  proof (cases "n > 0 \<and> mb' \<noteq> mb")
    case True
    then have "mb' = mb\<lparr>pos := pos mb + nat n\<rparr>"
      using assms by (auto simp: readUvarint_def v Let_def split: if_splits)
    moreover have "n \<le> int (length (buf mb) - pos mb)" using uvarint_loop_count [OF v] True by simp
    ultimately show ?thesis by (auto simp: reads_def)
  next
    case False
    then have "mb' = mb" using assms by (auto simp: readUvarint_def v Let_def split: if_splits)
    then show ?thesis by simp
  qed
qed

lemma readString_reads:
  assumes "readString mb = (r, mb')"
  shows "reads mb mb'"
proof -
  obtain x m where m: "readUvarint mb = (x, m)" by fastforce
  have "reads mb m" by (rule readUvarint_reads [OF m])
  moreover have "reads m mb'"
    using assms by (cases x) (auto simp: readString_def m reads_def Let_def split: if_splits)
  ultimately show ?thesis by (rule reads_trans)
qed

lemma readAddrLabels_reads: "readAddrLabels n mb = (r, mb') \<Longrightarrow> reads mb mb'"
proof (induction n arbitrary: mb)
  case (Suc n)
  obtain x m where m: "readUvarint mb = (x, m)" by fastforce
  obtain y k where k: "readString m = (y, k)" by fastforce
  note mk = readUvarint_reads [OF m] readString_reads [OF k]
  show ?case
  proof (cases x)
    case (Inl e)
    with Suc.prems mk show ?thesis by (simp add: m)
  next
    case x: (Inr addr)
    show ?thesis
    proof (cases y)
      case (Inl e)
      with Suc.prems x mk show ?thesis by (auto simp: m k intro: reads_trans)
    next
      case (Inr label)
      with Suc.prems x have "readAddrLabels n (k\<lparr>dbg := addLabel addr label (dbg k)\<rparr>) = (r, mb')"
        by (simp add: m k)
      from Suc.IH [OF this] have "reads k mb'" by (rule reads_trans [rotated]) simp
      with mk show ?thesis by (blast intro: reads_trans)
    qed
  qed
qed simp

lemma readRegion_reads:
  assumes "readRegion c u a mb = (r, mb')"
  shows "reads mb mb'"
proof -
  obtain x m where m: "readOptCode mb = (x, m)" by fastforce
  obtain y k where k: "mayReadOptCode (0x80 OR opt_code OptName) m = (y, k)" by fastforce
  have mk: "reads mb m" "reads m k" using readOptCode_reads(1) [OF m] mayReadOptCode_reads [OF k] by simp_all
  from assms have "mb' = m \<or> mb' = k"
    by (auto simp: readRegion_def m k simp del: opt_code.simps split: sum.splits if_splits option.splits prod.splits)
  then show ?thesis using mk reads_trans by blast
qed

lemma opt_stack_size_reads: "opt_stack_size a mb = (r, mb') \<Longrightarrow> reads mb mb'"
  by (auto simp: opt_stack_size_def reads_def set_mach_def Let_def split: if_splits)

lemma handleOpt_reads:
  assumes "handleOpt c a mb = (r, mb')"
  shows "reads mb mb'"
proof -
  obtain x m where m: "readRegion (0x80 OR opt_code OptInput) UnpairedInput a mb = (x, m)" by fastforce
  obtain y k where k: "readRegion (0x80 OR opt_code OptOutput) UnpairedOutput a mb = (y, k)" by fastforce
  obtain z l where l: "readAddrLabels (unat a) mb = (z, l)" by fastforce
  have "reads mb m" "reads mb k" "reads mb l"
    using readRegion_reads [OF m] readRegion_reads [OF k] readAddrLabels_reads [OF l] by blast+
  moreover have "reads m (m\<lparr>inputs := i\<rparr>)" "reads k (set_mach f k)" for i f by simp_all
  ultimately have "reads mb (m\<lparr>inputs := i\<rparr>)" "reads mb (set_mach f k)" "reads mb m" "reads mb k" "reads mb l"
    for i f using reads_trans by blast+
  with assms opt_stack_size_reads [of a mb r mb'] show ?thesis
    unfolding handleOpt_def m k l
    by (auto split: option.splits opt.splits bool.splits sum.splits if_splits prod.splits)
qed

function handleOpts :: "machBuilder \<Rightarrow> berr option \<times> machBuilder" where
  "handleOpts mb =
     (case readOptCode mb of
        (Inl e, mb) \<Rightarrow> (Some e, mb)
      | (Inr (code, arg), mb) \<Rightarrow>
          (case handleOpt code arg mb of
             (Inl e, mb) \<Rightarrow> (Some e, mb)
           | (Inr fin, mb) \<Rightarrow> if fin then (None, mb) else handleOpts mb))"
  by pat_completeness auto
termination
proof (relation "measure (\<lambda>mb. length (buf mb) - pos mb)", goal_cases)
  case (2 mb r m x code arg y k fin)
  then show ?case
    using readOptCode_reads(2) [of mb r m "(code, arg)"] readOptCode_reads(1) [of mb r m]
      handleOpt_reads [of code arg m y k]
    by (auto simp: reads_def)
qed simp

declare handleOpts.simps [simp del]

subsection \<open>Build options\<close>

text \<open>A \<open>MachBuildOpt\<close>: it fails with an error, or panics, or returns the builder.\<close>

type_synonym machBuildOpt = "machBuilder \<Rightarrow> (berr option \<times> machBuilder) option"

text \<open>\<open>Handler\<close>; the handler itself is the argument of \<open>run\<close>.\<close>

definition Handler :: machBuildOpt where
  "Handler mb =
     Some (None, set_mach (\<lambda>s. s\<lparr>runq := RunQ (queueSize mb) [], palloc := PageFreeList [],
       malloc := (if maxCopies mb > 0 then MaxMachCopies 0 (maxCopies mb) (MachFreeList [])
                  else MachFreeList [])\<rparr>) mb)"

definition word_bytes :: "u32 list \<Rightarrow> u8 list" where
  "word_bytes vals = concat (map put_u32 vals)"

text \<open>The capacity of the region is compared in words against its size in bytes.\<close>

definition Input :: "u32 list \<Rightarrow> machBuildOpt" where
  "Input vals mb =
     (if nextIn mb \<ge> length (inputs mb) then
        Some (Some (UnsupportedInput (nextIn mb + 1) (length (inputs mb))), mb)
      else
        (let rg = inputs mb ! nextIn mb;
             mb = mb\<lparr>nextIn := nextIn mb + 1\<rparr>;
             n = rg_to rg - rg_from rg
         in if length vals > unat n then Some (Some (TooManyInputs (nextIn mb) n (length vals)), mb)
            else Some (None, set_mach (storeBytes (rg_from rg) (word_bytes vals)) mb)))"

fun named_input :: "u8 list \<Rightarrow> u32 list \<Rightarrow> region list \<Rightarrow> machBuildOpt" where
  "named_input nm vals [] mb = Some (Some (NoNamedInput nm), mb)"
| "named_input nm vals (rg # rgs) mb =
     (if rg_name rg = 0 then named_input nm vals rgs mb
      else do {
        (rgName, e) \<leftarrow> fetchString (rg_name rg) (mb_mach mb);
        case e of
          Some e \<Rightarrow> Some (Some (FetchError e), mb)
        | None \<Rightarrow>
            if rgName = nm then
              (let n = rg_to rg - rg_from rg
               in if length vals > unat n then
                    Some (Some (TooManyNamedInputs rgName n (length vals)), mb)
                  else Some (None, set_mach (storeBytes (rg_from rg) (word_bytes vals)) mb))
            else named_input nm vals rgs mb
      })"

definition NamedInput :: "u8 list \<Rightarrow> u32 list \<Rightarrow> machBuildOpt" where
  "NamedInput nm vals mb = named_input nm vals (inputs mb) mb"

text \<open>What \<open>WithDebugInfo\<close> calls its callback with, if it calls it.\<close>

definition WithDebugInfo :: "machBuilder \<Rightarrow> debugInfo option" where
  "WithDebugInfo mb = (if dbg_empty (dbg mb) then None else Some (dbg mb))"

subsection \<open>New\<close>

definition defaultQueueSize :: nat where "defaultQueueSize = 10"

text \<open>The machine before the options: the zero value of Go, but for \<open>psp\<close>.\<close>

definition raw_mach :: vm where
  "raw_mach =
     \<lparr>err = None, ip = 0, pbp = 0, psp = pspInit, pa = 0, cbp = 0, csp = 0, count = 0, limit = 0,
      pages = [], spare = [], opc = 0, self = 0, heap = [], palloc = DefaultPages,
      malloc = DefaultMachs, next_mach = 1, runq = NoQueue, caches = [], outs = []\<rparr>"

definition raw_builder :: "u8 list \<Rightarrow> machBuilder" where
  "raw_builder prog =
     \<lparr>mb_mach = raw_mach, mb_base = 0, queueSize = defaultQueueSize, maxCopies = 0, inputs = [],
      nextIn = 0, dbg = no_debug, buf = prog, pos = 0\<rparr>"

definition makeOpCache :: "nat \<Rightarrow> vm \<Rightarrow> vm" where
  "makeOpCache n s = s\<lparr>caches := caches s @ [replicate n no_op], opc := length (caches s)\<rparr>"

fun apply_opts :: "machBuildOpt list \<Rightarrow> machBuildOpt" where
  "apply_opts [] mb = Some (None, mb)"
| "apply_opts (mbo # mbos) mb =
     do {
       (e, mb) \<leftarrow> mbo mb;
       if e \<noteq> None then Some (e, mb) else apply_opts mbos mb
     }"

definition build :: "u8 list \<Rightarrow> machBuildOpt list \<Rightarrow> (berr option \<times> machBuilder) option" where
  "build bs mbos =
     (case handleOpts (raw_builder bs) of
        (Some e, mb) \<Rightarrow> Some (Some e, mb)
      | (None, mb) \<Rightarrow>
          (let prog = drop (pos mb) (buf mb);
               mb = set_mach (\<lambda>s. storeBytes (mb_base mb) prog (makeOpCache (length prog) s)) mb
           in apply_opts mbos mb))"

definition New :: "u8 list \<Rightarrow> machBuildOpt list \<Rightarrow> (berr + vm) option" where
  "New prog mbos =
     do {
       (e, mb) \<leftarrow> build prog mbos;
       Some (case e of Some e \<Rightarrow> Inl e | None \<Rightarrow> Inr (mb_mach mb))
     }"

subsection \<open>What the parser does to the machine\<close>

text \<open>
  A machine that is being built: nothing has run, no memory is mapped, the stacks are empty and
  lie below \<open>c + 4\<close>.
\<close>

definition pristine :: "vm \<Rightarrow> bool" where
  "pristine s \<longleftrightarrow> (\<exists>i c l os. s = raw_mach\<lparr>ip := i, cbp := c, csp := c, limit := l, outs := os\<rparr> \<and>
     unat c mod 4 = 0 \<and> c \<le> 0xfffc)"

lemma pristine_raw: "pristine raw_mach"
  unfolding pristine_def by (intro exI [of _ 0] exI [of _ "[]"]) (simp add: raw_mach_def)

lemma pristine_simps [simp]:
  assumes "pristine s"
  shows "pristine (s\<lparr>ip := x\<rparr>)" "pristine (s\<lparr>limit := k\<rparr>)" "pristine (s\<lparr>outs := rs\<rparr>)"
proof -
  obtain i c l os where s: "s = raw_mach\<lparr>ip := i, cbp := c, csp := c, limit := l, outs := os\<rparr>"
    "unat c mod 4 = 0" "c \<le> 0xfffc" using assms by (auto simp: pristine_def)
  show "pristine (s\<lparr>ip := x\<rparr>)" using s unfolding pristine_def
    by (intro exI [of _ x] exI [of _ c] exI [of _ l] exI [of _ os]) simp
  show "pristine (s\<lparr>limit := k\<rparr>)" using s unfolding pristine_def
    by (intro exI [of _ i] exI [of _ c] exI [of _ k] exI [of _ os]) simp
  show "pristine (s\<lparr>outs := rs\<rparr>)" using s unfolding pristine_def
    by (intro exI [of _ i] exI [of _ c] exI [of _ l] exI [of _ rs]) simp
qed

lemma pristine_stack:
  assumes "pristine s" "0 < a" "a \<le> 0xffff" "a mod 4 = 0"
  shows "pristine (s\<lparr>cbp := a - 4, csp := a - 4\<rparr>)"
proof -
  have "unat (a mod 4) = unat a mod 4" by (simp add: unat_mod)
  then have a4: "unat a mod 4 = 0" using assms(4) by simp
  have "0 < unat a" using assms(2) by (simp add: unat_gt_0)
  with a4 have "4 \<le> unat a" by (cases "unat a < 4") auto
  then have u: "unat (a - 4) = unat a - 4" by (rule unat_sub_4)
  have "unat a \<le> 0xffff" using assms(3) by (simp add: word_le_nat_alt)
  with u have "a - 4 \<le> 0xfffc" by (simp add: word_le_nat_alt)
  moreover have "unat (a - 4) mod 4 = 0" using u a4 \<open>4 \<le> unat a\<close> by (simp add: le_mod_geq)
  moreover obtain i c l os where "s = raw_mach\<lparr>ip := i, cbp := c, csp := c, limit := l, outs := os\<rparr>"
    using assms(1) by (auto simp: pristine_def)
  ultimately show ?thesis unfolding pristine_def
    by (intro exI [of _ i] exI [of _ "a - 4"] exI [of _ l] exI [of _ os]) simp
qed

lemma pristine_regs:
  assumes "0 < a" "a \<le> 0xffff" "a mod 4 = 0"
  shows "pristine (raw_mach\<lparr>ip := i, cbp := a - 4, csp := a - 4, limit := l\<rparr>)"
proof -
  have "raw_mach\<lparr>ip := i, cbp := a - 4, csp := a - 4, limit := l\<rparr> =
      raw_mach\<lparr>cbp := a - 4, csp := a - 4\<rparr>\<lparr>ip := i\<rparr>\<lparr>limit := l\<rparr>" by (simp add: raw_mach_def)
  with pristine_simps(2) [OF pristine_simps(1) [OF pristine_stack [OF pristine_raw assms]]]
  show ?thesis by (simp only:)
qed

text \<open>The parser's readers do not touch the machine.\<close>

lemma readUvarint_mach: "readUvarint mb = (r, mb') \<Longrightarrow> mb_mach mb' = mb_mach mb"
  by (auto simp: readUvarint_def Let_def split: prod.splits if_splits)

lemma readString_mach: "readString mb = (r, mb') \<Longrightarrow> mb_mach mb' = mb_mach mb"
  by (auto simp: readString_def Let_def dest!: readUvarint_mach split: prod.splits if_splits sum.splits)

lemma readAddrLabels_mach: "readAddrLabels n mb = (r, mb') \<Longrightarrow> mb_mach mb' = mb_mach mb"
  by (induction n arbitrary: mb)
    (auto dest!: readUvarint_mach readString_mach split: prod.splits sum.splits)

lemma readOptCode_mach: "readOptCode mb = (r, mb') \<Longrightarrow> mb_mach mb' = mb_mach mb"
  by (auto simp: readOptCode_def Let_def split: prod.splits)

lemma readRegion_mach: "readRegion c u a mb = (r, mb') \<Longrightarrow> mb_mach mb' = mb_mach mb"
  by (auto simp: readRegion_def mayReadOptCode_def Let_def dest!: readOptCode_mach
      split: prod.splits sum.splits if_splits option.splits)

lemma opt_stack_size_pristine:
  assumes "opt_stack_size a mb = (r, mb')" "pristine (mb_mach mb)"
  shows "pristine (mb_mach mb')"
  using assms pristine_stack [of "mb_mach mb" a]
  by (auto simp: opt_stack_size_def set_mach_def Let_def not_less split: if_splits)

lemma handleOpt_pristine:
  assumes "handleOpt c a mb = (r, mb')" "pristine (mb_mach mb)"
  shows "pristine (mb_mach mb')"
  using assms opt_stack_size_pristine [of a mb r mb']
  unfolding handleOpt_def
  by (auto simp: set_mach_def dest!: readRegion_mach readAddrLabels_mach
      split: option.splits opt.splits bool.splits sum.splits if_splits prod.splits)

lemma handleOpts_pristine:
  "handleOpts mb = (r, mb') \<Longrightarrow> pristine (mb_mach mb) \<Longrightarrow> pristine (mb_mach mb')"
proof (induction mb rule: handleOpts.induct)
  case (1 mb)
  obtain x m where m: "readOptCode mb = (x, m)" by fastforce
  have pm: "pristine (mb_mach m)" using readOptCode_mach [OF m] "1.prems"(2) by simp
  show ?case
  proof (cases x)
    case (Inl e)
    with "1.prems" pm show ?thesis by (simp add: m handleOpts.simps [of mb])
  next
    case (Inr ca)
    obtain code arg where ca: "ca = (code, arg)" by fastforce
    obtain y k where k: "handleOpt code arg m = (y, k)" by fastforce
    have pk: "pristine (mb_mach k)" by (rule handleOpt_pristine [OF k pm])
    show ?thesis
    proof (cases y)
      case (Inl e)
      with "1.prems" Inr pk show ?thesis by (simp add: m ca k handleOpts.simps [of mb])
    next
      case fin: (Inr fin)
      show ?thesis
      proof (cases fin)
        case True
        with "1.prems" Inr fin pk show ?thesis by (simp add: m ca k handleOpts.simps [of mb])
      next
        case False
        with "1.prems"(1) Inr fin have "handleOpts k = (r, mb')"
          by (simp add: m ca k handleOpts.simps [of mb])
        with "1.IH" [OF m [symmetric] Inr ca [symmetric] k [symmetric] fin False] pk show ?thesis by blast
      qed
    qed
  qed
qed

subsection \<open>Built machines\<close>

definition built :: "vm \<Rightarrow> bool" where
  "built s \<longleftrightarrow> share_inv 1 s \<and> stack_ok s \<and> psp s = pspInit \<and> csp s = cbp s \<and> err s = None \<and>
     count s = 0 \<and> queued s = [] \<and> opc s < length (caches s)"

lemma share_storeBytes:
  assumes "share_inv N s"
  shows "share_inv N (storeBytes addr bs s)"
proof -
  have "share_inv N (store_loop i j bs s)" if "j < pageSize" "share_inv N s" for i j s
    using that
  proof (induction "length bs" arbitrary: bs i j s rule: less_induct)
    case less
    define n where "n = min (pageSize - j) (length bs)"
    define t where "t = poke i (\<lambda>d. set_bytes d j (take n bs)) s"
    obtain p u where w: "writable i s = (p, u)" by fastforce
    have t: "share_inv N t"
      unfolding t_def poke_def w Let_def prod.case
      by (rule share_inv_dat [OF share_writable [OF less.prems(2) w]])
        (use less.prems(1) in \<open>auto simp: n_def\<close>)
    have "store_loop i j bs s = (if n < length bs then store_loop (Suc i) 0 (drop n bs) t else t)"
      unfolding n_def t_def by (subst store_loop_poke) (simp add: Let_def)
    moreover have "share_inv N (store_loop (Suc i) 0 (drop n bs) t)" if "n < length bs"
      by (rule less.hyps [OF _ _ t]) (use that less.prems(1) in \<open>auto simp: n_def pageSize_pos\<close>)
    ultimately show ?case using t by simp
  qed
  then show ?thesis using assms page_off_less unfolding storeBytes_def by blast
qed

lemma storeBytes_built:
  assumes "built s"
  shows "built (storeBytes addr bs s)"
proof -
  have sh: "share_inv 1 s" using assms by (simp add: built_def)
  obtain h al ps sp where "storeBytes addr bs s = s\<lparr>heap := h, palloc := al, pages := ps, spare := sp\<rparr>"
    using storeBytes_ok(4) share_invD(1) [OF sh] by blast
  then show ?thesis using assms share_storeBytes [OF sh, of addr bs]
    by (auto simp: built_def stack_ok_def queued_def)
qed

lemma pristine_built:
  assumes "pristine s"
  shows "built (makeOpCache n s)"
proof -
  obtain i c l os where s: "s = raw_mach\<lparr>ip := i, cbp := c, csp := c, limit := l, outs := os\<rparr>"
    "unat c mod 4 = 0" "c \<le> 0xfffc" using assms by (auto simp: pristine_def)
  have "c < 0xfffffff8" using s(3) by (simp add: word_le_nat_alt word_less_nat_alt)
  then show ?thesis using s(2)
    by (auto simp: built_def makeOpCache_def raw_mach_def share_inv_def heap_inv_def heap_ok_def tables_def
        queued_def free_pages_def stack_ok_def arrays_nil_def all_nil_def tab_inj_def s(1) pspInit_def)
qed

lemma built_Handler:
  assumes "built s"
  shows "built (s\<lparr>runq := RunQ n [], palloc := PageFreeList [], malloc :=
    (if c > 0 then MaxMachCopies 0 c (MachFreeList []) else MachFreeList [])\<rparr>)"
  using assms
  by (auto simp: built_def share_inv_def heap_inv_def heap_ok_def tables_def queued_def free_pages_def
      stack_ok_def arrays_nil_def)

text \<open>The options that the package offers.\<close>

inductive mach_opt :: "machBuildOpt \<Rightarrow> bool" where
  "mach_opt Handler"
| "mach_opt (Input vals)"
| "mach_opt (NamedInput nm vals)"

lemma named_input_built:
  "named_input nm vals rgs mb = Some (e, mb') \<Longrightarrow> built (mb_mach mb) \<Longrightarrow> built (mb_mach mb')"
proof (induction rgs)
  case (Cons rg rgs)
  then show ?case
    by (auto simp: set_mach_def Let_def storeBytes_built split: if_splits bind_splits option.splits)
qed simp

lemma mach_opt_built:
  assumes "mach_opt mbo" "mbo mb = Some (e, mb')" "built (mb_mach mb)"
  shows "built (mb_mach mb')"
  using assms(1)
proof (cases rule: mach_opt.cases)
  case 1
  with assms(2) have "mb_mach mb' = (mb_mach mb)\<lparr>runq := RunQ (queueSize mb) [], palloc := PageFreeList [],
      malloc := (if maxCopies mb > 0 then MaxMachCopies 0 (maxCopies mb) (MachFreeList [])
        else MachFreeList [])\<rparr>"
    by (auto simp: Handler_def set_mach_def)
  then show ?thesis using built_Handler [OF assms(3)] by (simp only:)
next
  case (2 vals)
  with assms show ?thesis
    by (auto simp: Input_def set_mach_def Let_def storeBytes_built split: if_splits)
next
  case (3 nm vals)
  with assms named_input_built show ?thesis by (auto simp: NamedInput_def)
qed

lemma apply_opts_built:
  "apply_opts mbos mb = Some (e, mb') \<Longrightarrow> \<forall>mbo \<in> set mbos. mach_opt mbo \<Longrightarrow> built (mb_mach mb) \<Longrightarrow>
   built (mb_mach mb')"
proof (induction mbos arbitrary: mb)
  case (Cons mbo mbos)
  from Cons.prems(1) obtain e1 m where m: "mbo mb = Some (e1, m)" by (auto split: bind_splits)
  have "mach_opt mbo" using Cons.prems(2) by simp
  from mach_opt_built [OF this m Cons.prems(3)] have "built (mb_mach m)" .
  with Cons m show ?case by (auto split: if_splits)
qed simp

lemma New_cases:
  assumes "New prog mbos = Some (Inr s)"
  obtains mb mb' where "handleOpts (raw_builder prog) = (None, mb)"
    "apply_opts mbos (set_mach (\<lambda>s. storeBytes (mb_base mb) (drop (pos mb) (buf mb))
       (makeOpCache (length (buf mb) - pos mb) s)) mb) = Some (None, mb')"
    "s = mb_mach mb'"
proof -
  obtain e mb where h: "handleOpts (raw_builder prog) = (e, mb)" by fastforce
  show thesis using assms that by (auto simp: New_def build_def h Let_def split: bind_splits option.splits)
qed

lemma New_is_built:
  assumes "New prog mbos = Some (Inr s)" "\<forall>mbo \<in> set mbos. mach_opt mbo"
  shows "built s"
proof (rule New_cases [OF assms(1)])
  fix mb mb'
  assume h: "handleOpts (raw_builder prog) = (None, mb)"
    and a: "apply_opts mbos (set_mach (\<lambda>s. storeBytes (mb_base mb) (drop (pos mb) (buf mb))
       (makeOpCache (length (buf mb) - pos mb) s)) mb) = Some (None, mb')"
    and s: "s = mb_mach mb'"
  have "pristine (mb_mach mb)" by (rule handleOpts_pristine [OF h]) (simp add: raw_builder_def pristine_raw)
  then show "built s" unfolding s
    by (intro apply_opts_built [OF a assms(2)]) (simp add: set_mach_def pristine_built storeBytes_built)
qed

lemma New_opcs: "New prog mbos = Some (Inr s) \<Longrightarrow> \<forall>mbo \<in> set mbos. mach_opt mbo \<Longrightarrow> opcs_ok s"
  using New_is_built by (auto simp: built_def opcs_ok_def)

text \<open>
  C11: a machine that \<open>New\<close> returns, with any of the package's options, satisfies the invariants that
  the theorems about running machines start from: sharing, the stacks (both empty), no error, no
  machine in its queue.
\<close>
theorem New_built:
  assumes "New prog mbos = Some (Inr s)" "\<forall>mbo \<in> set mbos. mach_opt mbo"
  shows "share_inv 1 s \<and> stack_ok s \<and> pvals s = [] \<and> cvals s = [] \<and> err s = None \<and> queued s = []"
  using New_is_built [OF assms] by (simp add: built_def pvals_def cvals_def)

subsection \<open>Option headers\<close>

lemma readOptCode_op:
  assumes "drop (pos mb) (buf mb) = op_bytes op @ rest"
  shows "readOptCode mb = (Inr (op_byte op, if hasImm (op_byte op) then Arg op else 0),
    mb\<lparr>pos := pos mb + length (op_bytes op)\<rparr>)"
  using read_op_bytes [of op rest] assms by (simp add: readOptCode_def Let_def)

text \<open>An option as \<open>ResolveOption\<close> builds it, with or without its argument.\<close>

definition opt_arg :: "opt \<Rightarrow> u32 \<Rightarrow> Op" where
  "opt_arg x arg = ResolveOption (opt_name x) arg True"

definition opt_bare :: "opt \<Rightarrow> Op" where
  "opt_bare x = ResolveOption (opt_name x) 0 False"

lemma ResolveOption_eq: "ResolveOption (opt_name x) arg h = \<lparr>Code = opt_code x, Arg = arg, Have = h\<rparr>"
  by (cases x) (simp_all add: ResolveOption_def all_opts_def)

lemma opt_bytes:
  "op_byte (opt_arg x arg) = opt_code x OR 0x80" "Arg (opt_arg x arg) = arg"
  "op_byte (opt_bare x) = opt_code x" "hasImm (opt_code x OR 0x80)" "\<not> hasImm (opt_code x)"
  by (simp_all add: opt_arg_def opt_bare_def ResolveOption_eq op_byte_def)
    (cases x; simp add: hasImm_def opCodeWithImm_def)+

lemma handleOpt_sel:
  "opt_of ((opt_code x OR 0x80) AND 0x7f) = Some x" "(opt_code x OR 0x80) AND 0x80 \<noteq> 0"
  "opt_of (opt_code x AND 0x7f) = Some x" "opt_code x AND 0x80 = 0"
  by (cases x; simp add: opt_of_def all_opts_def)+

lemma drop_past: "drop n xs = ys @ zs \<Longrightarrow> drop (n + length ys) xs = zs"
  by (metis add.commute append_eq_conv_conj drop_drop)

lemma handleOpts_arg:
  assumes "drop (pos mb) (buf mb) = op_bytes (opt_arg x arg) @ rest"
    "mb1 = mb\<lparr>pos := pos mb + length (op_bytes (opt_arg x arg))\<rparr>"
    "handleOpt (opt_code x OR 0x80) arg mb1 = (r, mb2)"
  shows "handleOpts mb = (case r of Inl e \<Rightarrow> (Some e, mb2) | Inr fin \<Rightarrow> if fin then (None, mb2) else handleOpts mb2)"
    "drop (pos mb1) (buf mb1) = rest"
proof -
  have "readOptCode mb = (Inr (opt_code x OR 0x80, arg), mb1)"
    using readOptCode_op [OF assms(1)] by (simp only: opt_bytes if_True assms(2))
  with assms(3) show "handleOpts mb = (case r of Inl e \<Rightarrow> (Some e, mb2)
      | Inr fin \<Rightarrow> if fin then (None, mb2) else handleOpts mb2)"
    by (subst handleOpts.simps) (simp split: sum.split)
  show "drop (pos mb1) (buf mb1) = rest"
    using drop_past [OF assms(1)] by (simp add: assms(2))
qed

lemma handleOpts_end:
  assumes "drop (pos mb) (buf mb) = op_bytes (opt_bare OptEnd) @ rest"
  shows "handleOpts mb = (None, mb\<lparr>pos := pos mb + length (op_bytes (opt_bare OptEnd))\<rparr>)"
    "drop (pos mb + length (op_bytes (opt_bare OptEnd))) (buf mb) = rest"
proof -
  let ?m = "mb\<lparr>pos := pos mb + length (op_bytes (opt_bare OptEnd))\<rparr>"
  have "readOptCode mb = (Inr (opt_code OptEnd, 0), ?m)"
    using readOptCode_op [OF assms] by (simp only: opt_bytes if_False)
  moreover have "handleOpt (opt_code OptEnd) 0 ?m = (Inr True, ?m)"
    unfolding handleOpt_def handleOpt_sel by simp
  ultimately show "handleOpts mb = (None, ?m)" by (subst handleOpts.simps) simp
  show "drop (pos mb + length (op_bytes (opt_bare OptEnd))) (buf mb) = rest"
    by (rule drop_past [OF assms])
qed

lemma handleOpt_stack_size:
  "handleOpt (opt_code OptStackSize OR 0x80) arg mb = opt_stack_size arg mb"
  unfolding handleOpt_def handleOpt_sel(1) using handleOpt_sel(2) [of OptStackSize] by simp

lemma handleOpt_max_ops:
  "handleOpt (opt_code OptMaxOps OR 0x80) arg mb = (Inr False, set_mach (\<lambda>s. s\<lparr>limit := ucast arg\<rparr>) mb)"
  unfolding handleOpt_def handleOpt_sel(1) using handleOpt_sel(2) [of OptMaxOps] by simp

text \<open>What the usual header does: a stack size, a limit of the operations, and the end.\<close>

definition header :: "u32 \<Rightarrow> u32 \<Rightarrow> u8 list" where
  "header base n =
     op_bytes (opt_arg OptStackSize base) @ op_bytes (opt_arg OptMaxOps n) @ op_bytes (opt_bare OptEnd)"

lemma parse_header:
  assumes "0 < base" "base \<le> 0xffff" "base mod 4 = 0"
  obtains mb where "handleOpts (raw_builder (header base n @ prog)) = (None, mb)" "mb_base mb = base"
    "mb_mach mb = raw_mach\<lparr>ip := base, cbp := base - 4, csp := base - 4, limit := ucast n\<rparr>"
    "drop (pos mb) (buf mb) = prog" "length (buf mb) - pos mb = length prog"
    "queueSize mb = defaultQueueSize"
proof -
  let ?r = "raw_builder (header base n @ prog)"
  let ?b = "op_bytes (opt_arg OptMaxOps n) @ op_bytes (opt_bare OptEnd) @ prog"
  let ?c = "op_bytes (opt_bare OptEnd) @ prog"
  define m1 where "m1 = ?r\<lparr>pos := pos ?r + length (op_bytes (opt_arg OptStackSize base))\<rparr>"
  define m2 where "m2 = m1\<lparr>mb_base := base, mb_mach := raw_mach\<lparr>ip := base, cbp := base - 4, csp := base - 4\<rparr>\<rparr>"
  define m3 where "m3 = m2\<lparr>pos := pos m2 + length (op_bytes (opt_arg OptMaxOps n))\<rparr>"
  define m4 where "m4 = set_mach (\<lambda>s. s\<lparr>limit := ucast n\<rparr>) m3"
  define m5 where "m5 = m4\<lparr>pos := pos m4 + length (op_bytes (opt_bare OptEnd))\<rparr>"
  have d0: "drop (pos ?r) (buf ?r) = op_bytes (opt_arg OptStackSize base) @ ?b"
    by (simp add: raw_builder_def header_def)
  have s: "opt_stack_size base m1 = (Inr False, m2)"
    using assms by (simp add: opt_stack_size_def set_mach_def m2_def m1_def raw_builder_def raw_mach_def Let_def not_less)
  note h1 = handleOpts_arg [OF d0 m1_def handleOpt_stack_size [THEN trans, OF s]]
  have d2: "drop (pos m2) (buf m2) = op_bytes (opt_arg OptMaxOps n) @ ?c" using h1(2) by (simp add: m2_def)
  note h2 = handleOpts_arg [OF d2 m3_def handleOpt_max_ops]
  have d4: "drop (pos m4) (buf m4) = op_bytes (opt_bare OptEnd) @ prog"
    using h2(2) by (simp add: m4_def set_mach_def)
  note h3 = handleOpts_end [OF d4]
  have 1: "handleOpts ?r = (None, m5)" using h1(1) h2(1) h3(1) by (simp add: m4_def m5_def)
  have 2: "drop (pos m5) (buf m5) = prog" using h3(2) by (simp add: m5_def)
  then have 3: "length (buf m5) - pos m5 = length prog" by (metis length_drop)
  have "mb_base m5 = base" "mb_mach m5 = raw_mach\<lparr>ip := base, cbp := base - 4, csp := base - 4, limit := ucast n\<rparr>"
    "queueSize m5 = defaultQueueSize"
    by (simp_all add: m5_def m4_def m3_def m2_def m1_def set_mach_def raw_builder_def)
  with that 1 2 3 show thesis by blast
qed

lemma New_no_opts: "\<exists>r. New prog [] = Some r"
proof -
  obtain e mb where "handleOpts (raw_builder prog) = (e, mb)" by fastforce
  then show ?thesis by (cases e) (simp_all add: New_def build_def Let_def)
qed

lemma New_header_state:
  assumes "0 < base" "base \<le> 0xffff" "base mod 4 = 0" "New (header base n @ prog) [] = Some r"
  shows "r = Inr (storeBytes base prog (makeOpCache (length prog)
    (raw_mach\<lparr>ip := base, cbp := base - 4, csp := base - 4, limit := ucast n\<rparr>)))"
proof (rule parse_header [OF assms(1-3), of n prog])
  fix mb
  assume "handleOpts (raw_builder (header base n @ prog)) = (None, mb)" "mb_base mb = base"
    "mb_mach mb = raw_mach\<lparr>ip := base, cbp := base - 4, csp := base - 4, limit := ucast n\<rparr>"
    "drop (pos mb) (buf mb) = prog" "length (buf mb) - pos mb = length prog"
  with assms(4) show ?thesis by (simp add: New_def build_def set_mach_def)
qed

text \<open>
  C10: a program with a stack size and a limit of operations in its header: \<open>New\<close> makes the machine
  that has exactly these, loads the program right above the stacks, and the machine's first decode
  finds the program's first operation as it was resolved and encoded.
\<close>
theorem New_first_op:
  assumes "0 < base" "base \<le> 0xffff" "base mod 4 = 0" "ResolveOp nm arg have = Inr op" "nm \<noteq> []"
  shows "\<exists>s. New (header base n @ op_bytes op @ rest) [] = Some (Inr s) \<and>
    ip s = base \<and> cbp s = base - 4 \<and> limit s = ucast n \<and>
    map (\<lambda>k. byte_at s (unat base + k)) [0..<length (op_bytes op @ rest)] = op_bytes op @ rest \<and>
    read (ip s) s = (base + of_nat (length (op_bytes op)), op_byte op, if have then arg else 0, None)"
proof -
  let ?p = "op_bytes op @ rest"
  let ?m = "raw_mach\<lparr>ip := base, cbp := base - 4, csp := base - 4, limit := ucast n\<rparr>"
  let ?t = "makeOpCache (length ?p) ?m"
  let ?s = "storeBytes base ?p ?t"
  obtain r where r: "New (header base n @ ?p) [] = Some r" using New_no_opts by blast
  from New_header_state [OF assms(1-3) this] have N: "New (header base n @ ?p) [] = Some (Inr ?s)"
    using r by simp
  have "pristine ?m" by (rule pristine_regs [OF assms(1-3)])
  then have inv: "heap_inv 1 ?t"
    using pristine_built [of ?m "length ?p"] share_invD(1) by (auto simp: built_def)
  obtain h al ps sp where s: "?s = ?t\<lparr>heap := h, palloc := al, pages := ps, spare := sp\<rparr>"
    using storeBytes_ok(4) [OF inv order.refl] by blast
  have "ip ?s = base" "cbp ?s = base - 4" "limit ?s = ucast n"
    by (subst s, simp add: makeOpCache_def)+
  moreover have "read base ?s = (base + of_nat (length (op_bytes op)), op_byte op, if have then arg else 0, None)"
    using read_encoded [OF inv order.refl] resolved_valid [OF assms(4,5)] by simp
  moreover note bytes_stored [OF inv order.refl, of base ?p]
  ultimately show ?thesis using N by (intro exI [of _ ?s]) simp
qed

theorem New_first_op_witness:
  "\<exists>s. New (header 64 5 @ op_bytes \<lparr>Code = 0x02, Arg = 300, Have = True\<rparr> @ [0x7f]) [] = Some (Inr s) \<and>
    ip s = 64 \<and> limit s = 5 \<and> fst (snd (read 64 s)) = 0x82"
  using New_first_op [OF _ _ _ resolve_push, of 64 5 300 "[0x7f]"] by (auto simp: op_byte_def)

theorem New_built_witness:
  "\<exists>s. New (header 64 5 @ [0x7f]) [Handler] = Some (Inr s) \<and> share_inv 1 s \<and> stack_ok s"
proof (rule parse_header [of 64 5 "[0x7f]"])
  fix mb
  assume "handleOpts (raw_builder (header 64 5 @ [0x7f])) = (None, mb)"
  then obtain s where "New (header 64 5 @ [0x7f]) [Handler] = Some (Inr s)"
    by (simp add: New_def build_def Handler_def Let_def)
  moreover from New_built [OF this] have "share_inv 1 s \<and> stack_ok s" by (simp add: mach_opt.intros)
  ultimately show ?thesis by blast
qed simp_all

text \<open>
  The stack size is validated: \<open>New\<close> refuses one above 0xffff and one that is not a multiple of the
  word size, whatever the rest of the program is.
\<close>
theorem New_stack_size:
  assumes "0xffff < a \<or> a mod 4 \<noteq> 0"
  shows "New (op_bytes (opt_arg OptStackSize a) @ rest) mbos =
    Some (Inl (if 0xffff < a then InvalidStackSize a else StackSizeNotWords a))"
proof -
  let ?r = "raw_builder (op_bytes (opt_arg OptStackSize a) @ rest)"
  have d: "drop (pos ?r) (buf ?r) = op_bytes (opt_arg OptStackSize a) @ rest" by (simp add: raw_builder_def)
  have "opt_stack_size a m = (Inl (if 0xffff < a then InvalidStackSize a else StackSizeNotWords a), m)" for m
  proof (cases "0xffff < a")
    case False
    have n: "a mod 4 \<noteq> 0" by (rule disjE [OF assms], erule notE [OF False], assumption)
    show ?thesis unfolding opt_stack_size_def if_not_P [OF False] if_P [OF n] ..
  qed (simp add: opt_stack_size_def)
  from handleOpts_arg(1) [OF d refl handleOpt_stack_size [THEN trans, OF this]]
  show ?thesis by (simp add: New_def build_def)
qed

theorem New_stack_size_witness:
  "New (op_bytes (opt_arg OptStackSize 6) @ [0]) [] = Some (Inl (StackSizeNotWords 6))"
  using New_stack_size [of 6 "[0]" "[]"] by simp

text \<open>
  Without a stack size there is no default of 0x40 bytes, as the documentation says, but no stack
  at all: the program is loaded at address 0, where control starts, and a second value pushed does
  not fit.
\<close>
theorem New_no_default_stack:
  shows "\<exists>s. New (op_bytes (opt_bare OptEnd) @ prog) [] = Some (Inr s) \<and> cbp s = 0 \<and> csp s = 0 \<and> ip s = 0 \<and>
    map (\<lambda>k. byte_at s k) [0..<length prog] = prog \<and>
    (\<forall>v w s1. push v s = Some (None, s1) \<longrightarrow> push w s1 = Some (Some (under ''param''), s1))"
proof -
  let ?r = "raw_builder (op_bytes (opt_bare OptEnd) @ prog)"
  let ?t = "makeOpCache (length prog) raw_mach" and ?s = "storeBytes 0 prog (makeOpCache (length prog) raw_mach)"
  have d: "drop (pos ?r) (buf ?r) = op_bytes (opt_bare OptEnd) @ prog" by (simp add: raw_builder_def)
  note h = handleOpts_end [OF d]
  have "length (buf ?r) - (pos ?r + length (op_bytes (opt_bare OptEnd))) = length prog"
    by (simp add: raw_builder_def)
  then have N: "New (op_bytes (opt_bare OptEnd) @ prog) [] = Some (Inr ?s)"
    using h by (simp add: New_def build_def Let_def) (simp add: raw_builder_def set_mach_def)
  have inv: "heap_inv 1 ?t"
    using pristine_built [OF pristine_raw] share_invD(1) by (auto simp: built_def)
  obtain g al ps sp where s: "?s = ?t\<lparr>heap := g, palloc := al, pages := ps, spare := sp\<rparr>"
    using storeBytes_ok(4) [OF inv order.refl] by blast
  have r: "cbp ?s = 0" "csp ?s = 0" "ip ?s = 0" "psp ?s = pspInit"
    by (subst s, simp add: makeOpCache_def raw_mach_def)+
  have "map (\<lambda>k. byte_at ?s k) [0..<length prog] = prog" using bytes_stored [OF inv order.refl, of 0 prog] by simp
  moreover have "push w s1 = Some (Some (under ''param''), s1)" if "push v ?s = Some (None, s1)" for v w s1
  proof -
    have "s1 = ?s\<lparr>pa := v, psp := 0\<rparr>" using that r by (simp add: push_def)
    then have "psp s1 = 0" "cbp s1 = 0" using r by simp_all
    then show ?thesis by (simp add: push_def pspInit_def)
  qed
  ultimately show ?thesis using N r by blast
qed

theorem New_no_default_stack_witness:
  "\<exists>s. New (op_bytes (opt_bare OptEnd) @ [0x81, 0x02]) [] = Some (Inr s) \<and> cbp s = 0 \<and> ip s = 0"
  using New_no_default_stack [of "[0x81, 0x02]"] by blast

subsection \<open>Running what was built\<close>

lemma New_limited:
  assumes "New prog mbos = Some (Inr s)" "\<forall>mbo \<in> set mbos. mach_opt mbo" "limit s \<noteq> 0"
  shows "limited s" "work s < 3 * 2 ^ unat (limit s)"
proof -
  have b: "built s" by (rule New_is_built [OF assms(1,2)])
  then show "limited s" using assms(3) by (simp add: limited_def built_def)
  show "work s < 3 * 2 ^ unat (limit s)" using b by (simp add: work_def weight_def built_def)
qed

text \<open>
  C12: every machine that \<open>New\<close> returns, with any of the package's options, and whose header has set a limit of
  \<open>n > 0\<close> operations, runs to an end, whatever its code and its handler do, within \<open>3 * 2^n\<close> transitions of it and of
  the machines that it forks: with so much fuel or more, its run has one and the same result.
\<close>
theorem New_run_ends:
  assumes "New prog mbos = Some (Inr s)" "\<forall>mbo \<in> set mbos. mach_opt mbo" "limit s \<noteq> 0"
  shows "\<exists>r. r \<noteq> Timeout \<and> (\<forall>fuel \<ge> 3 * 2 ^ unat (limit s). run H fuel h s = r)"
proof -
  note nt = run_not_timeout [OF New_limited [OF assms], of H h]
  show ?thesis
    by (intro exI [of _ "run H (3 * 2 ^ unat (limit s)) h s"] conjI allI impI nt run_more_fuel [OF nt])
qed

lemma New_header_Handler:
  assumes "0 < base" "base \<le> 0xffff" "base mod 4 = 0"
  obtains s where "New (header base n @ prog) [Handler] = Some (Inr s)" "limit s = ucast n" "runq s = RunQ 10 []"
proof (rule parse_header [OF assms, of n prog])
  fix mb
  let ?m = "raw_mach\<lparr>ip := base, cbp := base - 4, csp := base - 4, limit := ucast n\<rparr>"
  let ?t = "storeBytes base prog (makeOpCache (length prog) ?m)"
  assume mb: "handleOpts (raw_builder (header base n @ prog)) = (None, mb)" "mb_base mb = base" "mb_mach mb = ?m"
    "drop (pos mb) (buf mb) = prog" "length (buf mb) - pos mb = length prog" "queueSize mb = defaultQueueSize"
  have "built (makeOpCache (length prog) ?m)" by (rule pristine_built [OF pristine_regs [OF assms]])
  then have inv: "heap_inv 1 (makeOpCache (length prog) ?m)" using share_invD(1) by (auto simp: built_def)
  obtain g al ps sp where "?t = (makeOpCache (length prog) ?m)\<lparr>heap := g, palloc := al, pages := ps, spare := sp\<rparr>"
    using storeBytes_ok(4) [OF inv order.refl] by blast
  then have t: "limit ?t = ucast n" by (auto simp: makeOpCache_def)
  from mb t that show thesis
    by (simp add: New_def build_def Handler_def set_mach_def Let_def defaultQueueSize_def)
qed

theorem New_run_ends_witness:
  "\<exists>s. New (header 64 5 @ [0xa4, 0x40]) [Handler] = Some (Inr s) \<and> limit s = 5 \<and> runq s = RunQ 10 [] \<and>
    run defaultHandler 96 () s \<noteq> Timeout"
proof -
  obtain s where s: "New (header 64 5 @ [0xa4, 0x40]) [Handler] = Some (Inr s)" "limit s = 5" "runq s = RunQ 10 []"
    by (rule New_header_Handler [of 64 5 "[0xa4, 0x40]"]) simp_all
  have "\<exists>r. r \<noteq> Timeout \<and> (\<forall>fuel \<ge> 3 * 2 ^ unat (limit s). run defaultHandler fuel () s = r)"
    by (rule New_run_ends [OF s(1)]) (simp_all add: s(2) mach_opt.intros)
  then have "run defaultHandler 96 () s \<noteq> Timeout" by (auto simp: s(2))
  with s show ?thesis by blast
qed

end
