(* ===== verification/Values.thy ===== *)
theory Values
  imports Build
begin

text \<open>
  Looking at a machine: the accessors of \<open>api.go\<close>, the output regions and their values, and the
  functions that walk over the memory.

  The loops of \<open>fetchMany\<close> need fuel (see \<open>Stack\<close>); \<^const>\<open>None\<close> is a panic of a fetch or the end of
  the fuel.
\<close>

subsection \<open>Registers\<close>

definition IP :: "vm \<Rightarrow> u32" where "IP s = ip s"
definition PBP :: "vm \<Rightarrow> u32" where "PBP s = pbp s"
definition PSP :: "vm \<Rightarrow> u32" where "PSP s = (if psp s > cbp s then pbp s else psp s)"
definition CBP :: "vm \<Rightarrow> u32" where "CBP s = cbp s"
definition CSP :: "vm \<Rightarrow> u32" where "CSP s = csp s"

subsection \<open>Output values\<close>

datatype out_err = MachFailed merr | InvalidStackLength nat

text \<open>The pairs of a list of even length.\<close>

fun region_pairs :: "u32 list \<Rightarrow> region list" where
  "region_pairs (a # b # cs) = \<lparr>rg_name = 0, rg_from = a, rg_to = b\<rparr> # region_pairs cs"
| "region_pairs _ = []"

definition outputs :: "nat \<Rightarrow> vm \<Rightarrow> (out_err + region list) option" where
  "outputs fuel s =
     (case err s of
        None \<Rightarrow> Some (Inr (outs s))
      | Some e \<Rightarrow>
          (let (arg, ok) = halted s
           in if \<not> ok \<or> arg \<noteq> 0 then Some (Inl (MachFailed e))
              else do {
                (cs, e) \<leftarrow> fetchCS fuel s;
                Some (case e of
                    Some e \<Rightarrow> Inl (MachFailed e)
                  | None \<Rightarrow>
                      if length cs mod 2 \<noteq> 0 then Inl (InvalidStackLength (length cs))
                      else Inr (outs s @ region_pairs cs))
              }))"

fun region_values :: "nat \<Rightarrow> region list \<Rightarrow> vm \<Rightarrow> (out_err + u32 list list) option" where
  "region_values fuel [] s = Some (Inr [])"
| "region_values fuel (rg # rgs) s =
     do {
       (ns, e) \<leftarrow> fetchMany fuel (rg_from rg) (rg_to rg) s;
       case e of
         Some e \<Rightarrow> Some (Inl (MachFailed e))
       | None \<Rightarrow> do {
           r \<leftarrow> region_values fuel rgs s;
           Some (case r of Inl e \<Rightarrow> Inl e | Inr nss \<Rightarrow> Inr (ns # nss))
         }
     }"

definition outValues :: "nat \<Rightarrow> vm \<Rightarrow> (out_err + region list \<times> u32 list list) option" where
  "outValues fuel s =
     do {
       r \<leftarrow> outputs fuel s;
       case r of
         Inl e \<Rightarrow> Some (Inl e)
       | Inr rgs \<Rightarrow> do {
           v \<leftarrow> region_values fuel rgs s;
           Some (case v of Inl e \<Rightarrow> Inl e | Inr nss \<Rightarrow> Inr (rgs, nss))
         }
     }"

definition Values :: "nat \<Rightarrow> vm \<Rightarrow> (out_err + u32 list list) option" where
  "Values fuel s =
     do { r \<leftarrow> outValues fuel s; Some (case r of Inl e \<Rightarrow> Inl e | Inr (rgs, nss) \<Rightarrow> Inr nss) }"

text \<open>\<open>fmt.Sprintf("%d", n)\<close>, as bytes.\<close>

fun decimal :: "nat \<Rightarrow> u8 list" where
  "decimal n = (if n < 10 then [of_nat (48 + n)] else decimal (n div 10) @ [of_nat (48 + n mod 10)])"

declare decimal.simps [simp del]

definition bytes_of :: "string \<Rightarrow> u8 list" where
  "bytes_of s = map of_char s"

text \<open>The name of an output: its string in memory, or one made from its index.\<close>

definition output_name :: "nat \<Rightarrow> region \<Rightarrow> vm \<Rightarrow> (u8 list \<times> merr option) option" where
  "output_name i rg s =
     (if rg_name rg \<noteq> 0 then fetchString (rg_name rg) s
      else Some (bytes_of ''unnamed_output_'' @ decimal i, None))"

fun named_values ::
  "nat \<Rightarrow> (region \<times> u32 list) list \<Rightarrow> vm \<Rightarrow> (u8 list, u32 list) mapping \<Rightarrow>
    (out_err + (u8 list, u32 list) mapping) option" where
  "named_values i [] s nvs = Some (Inr nvs)"
| "named_values i ((rg, v) # rest) s nvs =
     do {
       (nm, e) \<leftarrow> output_name i rg s;
       case e of
         Some e \<Rightarrow> Some (Inl (MachFailed e))
       | None \<Rightarrow> named_values (Suc i) rest s (Mapping.update nm v nvs)
     }"

text \<open>No outputs are the nil map.\<close>

definition NamedValues :: "nat \<Rightarrow> vm \<Rightarrow> (out_err + (u8 list, u32 list) mapping) option" where
  "NamedValues fuel s =
     do {
       r \<leftarrow> outValues fuel s;
       case r of
         Inl e \<Rightarrow> Some (Inl e)
       | Inr (rgs, vals) \<Rightarrow> named_values 0 (zip rgs vals) s Mapping.empty
     }"

record Region =
  Name :: "u8 list"
  From :: u32
  To :: u32

fun named_regions :: "region list \<Rightarrow> vm \<Rightarrow> (out_err + Region list) option" where
  "named_regions [] s = Some (Inr [])"
| "named_regions (rg # rgs) s =
     do {
       (nm, e) \<leftarrow> (if rg_name rg \<noteq> 0 then fetchString (rg_name rg) s else Some ([], None));
       case e of
         Some e \<Rightarrow> Some (Inl (MachFailed e))
       | None \<Rightarrow> do {
           r \<leftarrow> named_regions rgs s;
           Some (case r of Inl e \<Rightarrow> Inl e
                 | Inr rs \<Rightarrow> Inr (\<lparr>Name = nm, From = rg_from rg, To = rg_to rg\<rparr> # rs))
         }
     }"

definition Outputs :: "nat \<Rightarrow> vm \<Rightarrow> (out_err + Region list) option" where
  "Outputs fuel s =
     do {
       r \<leftarrow> outputs fuel s;
       case r of Inl e \<Rightarrow> Some (Inl e) | Inr rgs \<Rightarrow> named_regions rgs s
     }"

definition Stacks :: "nat \<Rightarrow> vm \<Rightarrow> (merr + u32 list \<times> u32 list) option" where
  "Stacks fuel s =
     do {
       (ps, e) \<leftarrow> fetchPS fuel s;
       case e of
         Some e \<Rightarrow> Some (Inl e)
       | None \<Rightarrow> do {
           (cs, e) \<leftarrow> fetchCS fuel s;
           Some (case e of Some e \<Rightarrow> Inl e | None \<Rightarrow> Inr (ps, cs))
         }
     }"

subsection \<open>Memory\<close>

definition Fetch :: "u32 \<Rightarrow> vm \<Rightarrow> (u32 \<times> merr option) option" where
  "Fetch = fetch"

definition MemCopy :: "u32 \<Rightarrow> u8 list \<Rightarrow> vm \<Rightarrow> nat \<times> u8 list" where
  "MemCopy = fetchBytes"

text \<open>\<open>EachPage\<close> with a callback that has a state of its own and may stop the walk by an error.\<close>

fun each_page ::
  "(u32 \<Rightarrow> u8 list \<Rightarrow> 'a \<Rightarrow> 'e option \<times> 'a) \<Rightarrow> nat \<Rightarrow> nat option list \<Rightarrow> vm \<Rightarrow> 'a \<Rightarrow> 'e option \<times> 'a" where
  "each_page f i [] s x = (None, x)"
| "each_page f i (None # pgs) s x = each_page f (Suc i) pgs s x"
| "each_page f i (Some p # pgs) s x =
     (case f (of_nat (i * pageSize)) (dat (heap s ! p)) x of
        (Some e, x) \<Rightarrow> (Some e, x)
      | (None, x) \<Rightarrow> each_page f (Suc i) pgs s x)"

definition EachPage :: "(u32 \<Rightarrow> u8 list \<Rightarrow> 'a \<Rightarrow> 'e option \<times> 'a) \<Rightarrow> vm \<Rightarrow> 'a \<Rightarrow> 'e option \<times> 'a" where
  "EachPage f s x = each_page f 0 (pages s) s x"

text \<open>\<open>WriteTo\<close> an \<open>io.Writer\<close>: the writer reports how much it wrote, and may fail.\<close>

fun write_pages ::
  "(u8 list \<Rightarrow> 'w \<Rightarrow> nat \<times> 'e option \<times> 'w) \<Rightarrow> nat option list \<Rightarrow> vm \<Rightarrow> nat \<Rightarrow> 'w \<Rightarrow> nat \<times> 'e option \<times> 'w" where
  "write_pages wr [] s n w = (n, None, w)"
| "write_pages wr (pg # pgs) s n w =
     (let (wn, e, w) = wr (case pg of None \<Rightarrow> replicate pageSize 0 | Some p \<Rightarrow> dat (heap s ! p)) w
      in if e \<noteq> None then (n + wn, e, w) else write_pages wr pgs s (n + wn) w)"

definition WriteTo :: "(u8 list \<Rightarrow> 'w \<Rightarrow> nat \<times> 'e option \<times> 'w) \<Rightarrow> vm \<Rightarrow> 'w \<Rightarrow> nat \<times> 'e option \<times> 'w" where
  "WriteTo wr s w = write_pages wr (pages s) s 0 w"

subsection \<open>Values in memory\<close>

lemma length_word_bytes [simp]: "length (word_bytes vals) = 4 * length vals"
  by (induction vals) (simp_all add: word_bytes_def)

lemma nth_word_bytes: "k < length vals \<Longrightarrow> j < 4 \<Longrightarrow> word_bytes vals ! (4 * k + j) = put_u32 (vals ! k) ! j"
proof (induction vals arbitrary: k)
  case (Cons v vals)
  have w: "word_bytes (v # vals) = put_u32 v @ word_bytes vals" by (simp add: word_bytes_def)
  show ?case
  proof (cases k)
    case 0
    with Cons.prems(2) show ?thesis by (simp add: w nth_append)
  next
    case (Suc m)
    then have "word_bytes (v # vals) ! (4 * k + j) = word_bytes vals ! (4 * m + j)"
      by (simp add: w nth_append)
    with Cons.IH [of m] Cons.prems Suc show ?thesis by simp
  qed
qed simp

lemma words_of_bytes:
  assumes "\<And>k. k < 4 * length vals \<Longrightarrow> byte_at s (a + k) = word_bytes vals ! k"
  shows "words word_of s a (length vals) = vals"
proof (rule nth_equalityI)
  fix k assume "k < length (words word_of s a (length vals))"
  then have k: "k < length vals" by simp
  have "byte_at s (a + 4 * k + j) = put_u32 (vals ! k) ! j" if "j < 4" for j
    using assms [of "4 * k + j"] nth_word_bytes [OF k that] k that by (simp add: add.assoc)
  from this [of 0] this [of 1] this [of 2] this [of 3]
  show "words word_of s a (length vals) ! k = vals ! k"
    using k get_put_u32 [of "vals ! k"] by (simp add: words_def word_of_def)
qed simp

lemma fetchMany_stored:
  assumes "heap_inv N s" "1 \<le> N" "unat a mod 4 = 0" "unat a + 4 * length vals = unat b" "length vals < fuel"
  shows "fetchMany fuel a b (storeBytes a (word_bytes vals) s) = Some (vals, None)"
proof -
  let ?s = "storeBytes a (word_bytes vals) s"
  have "words word_of ?s (unat a) (length vals) = vals"
    by (rule words_of_bytes) (simp add: storeBytes_ok(2) [OF assms(1,2)])
  then have "fetch_up fuel a b ?s = Some (vals, None)"
    using fetch_up_words [OF storeBytes_ok(1) [OF assms(1,2)] assms(3,4,5)] by simp
  moreover have "a = b \<longleftrightarrow> vals = []" "\<not> b < a"
    using assms(4) by (auto simp: word_unat_eq_iff word_less_nat_alt)
  ultimately show ?thesis by (cases "a = b") (auto simp: fetchMany_def)
qed

subsection \<open>Properties\<close>

text \<open>
  C27: a collection of input values that fills its (aligned) region is read back from that region by
  \<open>fetchMany\<close>, with which \<open>Values\<close> reads an output region, and the machine that is being built stays valid.
\<close>
theorem input_roundtrip:
  assumes "built (mb_mach mb)" "nextIn mb < length (inputs mb)"
    "rg = inputs mb ! nextIn mb" "unat (rg_from rg) mod 4 = 0"
    "unat (rg_from rg) + 4 * length vals = unat (rg_to rg)" "length vals < fuel"
  shows "\<exists>mb'. Input vals mb = Some (None, mb') \<and> nextIn mb' = nextIn mb + 1 \<and>
    fetchMany fuel (rg_from rg) (rg_to rg) (mb_mach mb') = Some (vals, None) \<and> built (mb_mach mb')"
proof -
  let ?m = "set_mach (storeBytes (rg_from rg) (word_bytes vals)) (mb\<lparr>nextIn := nextIn mb + 1\<rparr>)"
  have inv: "heap_inv 1 (mb_mach mb)" using assms(1) share_invD(1) by (auto simp: built_def)
  have "rg_from rg \<le> rg_to rg" using assms(5) by (simp add: word_le_nat_alt)
  then have "unat (rg_to rg - rg_from rg) = 4 * length vals" using assms(5) by (simp add: unat_sub)
  then have "Input vals mb = Some (None, ?m)"
    using assms(2,3) by (simp add: Input_def Let_def)
  moreover have "fetchMany fuel (rg_from rg) (rg_to rg) (mb_mach ?m) = Some (vals, None)"
    using fetchMany_stored [OF inv order.refl assms(4,5,6)] by (simp add: set_mach_def)
  moreover have "built (mb_mach ?m)" using storeBytes_built [OF assms(1)] by (simp add: set_mach_def)
  moreover have "nextIn ?m = nextIn mb + 1" by (simp add: set_mach_def)
  ultimately show ?thesis by blast
qed

text \<open>
  \<open>Input\<close> accepts four times as many values as fit: as many words as the region has bytes.  They
  are all stored, past the end of the region.
\<close>
theorem input_overruns:
  assumes "built (mb_mach mb)" "nextIn mb < length (inputs mb)" "rg = inputs mb ! nextIn mb"
    "length vals = unat (rg_to rg - rg_from rg)"
  shows "\<exists>mb'. Input vals mb = Some (None, mb') \<and>
    (\<forall>k < 4 * unat (rg_to rg - rg_from rg). byte_at (mb_mach mb') (unat (rg_from rg) + k) = word_bytes vals ! k)"
proof -
  let ?m = "set_mach (storeBytes (rg_from rg) (word_bytes vals)) (mb\<lparr>nextIn := nextIn mb + 1\<rparr>)"
  have inv: "heap_inv 1 (mb_mach mb)" using assms(1) share_invD(1) by (auto simp: built_def)
  have "Input vals mb = Some (None, ?m)" using assms by (simp add: Input_def Let_def)
  moreover have "byte_at (mb_mach ?m) (unat (rg_from rg) + k) = word_bytes vals ! k"
    if "k < 4 * unat (rg_to rg - rg_from rg)" for k
    using that assms(4) by (simp add: set_mach_def storeBytes_ok(2) [OF inv order.refl])
  ultimately show ?thesis by blast
qed

text \<open>A builder with one input region of two words.\<close>

definition demo_builder :: machBuilder where
  "demo_builder = (raw_builder [])\<lparr>mb_mach := makeOpCache 0 raw_mach,
     inputs := [\<lparr>rg_name = 0, rg_from = 64, rg_to = 72\<rparr>]\<rparr>"

lemma demo_builder: "built (mb_mach demo_builder)" "nextIn demo_builder < length (inputs demo_builder)"
    "inputs demo_builder ! nextIn demo_builder = \<lparr>rg_name = 0, rg_from = 64, rg_to = 72\<rparr>"
  using pristine_built [OF pristine_raw, of 0] by (simp_all add: demo_builder_def raw_builder_def)

theorem input_roundtrip_witness:
  "\<exists>mb'. Input [7, 8] demo_builder = Some (None, mb') \<and> fetchMany 3 64 72 (mb_mach mb') = Some ([7, 8], None)"
  using input_roundtrip [OF demo_builder(1,2), of "\<lparr>rg_name = 0, rg_from = 64, rg_to = 72\<rparr>" "[7, 8]" 3]
    demo_builder(3) by auto

theorem input_overruns_witness:
  "\<exists>mb'. Input [1, 2, 3, 4, 5, 6, 7, 8] demo_builder = Some (None, mb') \<and> byte_at (mb_mach mb') 72 = 3"
proof -
  let ?v = "[1, 2, 3, 4, 5, 6, 7, 8] :: u32 list"
  let ?rg = "\<lparr>rg_name = 0, rg_from = 64, rg_to = 72\<rparr>"
  have "length ?v = unat (rg_to ?rg - rg_from ?rg)" by simp
  from input_overruns [OF demo_builder(1,2) demo_builder(3) [symmetric] this] obtain mb' where
    m: "Input ?v demo_builder = Some (None, mb')"
    "\<forall>k < 32. byte_at (mb_mach mb') (64 + k) = word_bytes ?v ! k" by auto
  from m(2) have "byte_at (mb_mach mb') (64 + 8) = word_bytes ?v ! 8" by (elim allE [of _ 8]) simp
  also have "word_bytes ?v ! 8 = 3" by (simp add: word_bytes_def put_u32_def)
  finally show ?thesis using m(1) by auto
qed

text \<open>
  After a halt with code 0 the outputs are the declared regions followed by the pairs of
  addresses on the control stack, oldest first; a stack of odd length is an error.
\<close>
theorem outputs_halted:
  assumes "stack_ok s" "heap_inv N s" "cells s < fuel" "err s = Some ErrHalted" "pa s = 0"
  shows "outputs fuel s = Some (if odd (length (cvals s)) then Inl (InvalidStackLength (length (cvals s)))
    else Inr (outs s @ region_pairs (rev (cvals s))))"
  using fetch_stacks(2) [OF assms(1-3)] assms(4,5)
  by (simp add: outputs_def halted_def odd_iff_mod_2_eq_one)

theorem outputs_halted_witness:
  "outputs 16 ((blank 64)\<lparr>err := Some ErrHalted\<rparr>) = Some (Inr [])"
proof -
  let ?s = "(blank 64)\<lparr>err := Some ErrHalted\<rparr>"
  have "stack_ok ?s" "heap_inv 1 ?s" "cells ?s < 16" "err ?s = Some ErrHalted" "pa ?s = 0" "cvals ?s = []"
    "outs ?s = []"
    using blank_ok by (simp_all add: stack_ok_def cells_def) (simp_all add: blank_def cvals_def)
  with outputs_halted [OF this(1-5)] show ?thesis by simp
qed

text \<open>The page at index \<open>i\<close> as the walks over the memory see it.\<close>

lemma write_pages_all:
  "write_pages (\<lambda>b w. (length b, None, w @ b)) pgs s n w =
    (n + sum_list (map (\<lambda>pg. length (case pg of None \<Rightarrow> replicate pageSize 0 | Some p \<Rightarrow> dat (heap s ! p))) pgs),
     None, w @ concat (map (\<lambda>pg. case pg of None \<Rightarrow> replicate pageSize 0 | Some p \<Rightarrow> dat (heap s ! p)) pgs))"
  by (induction pgs arbitrary: n w) simp_all

lemma pages_bytes:
  assumes "heap_inv N s" "n \<le> length (pages s)"
  shows "concat (map (\<lambda>pg. case pg of None \<Rightarrow> replicate pageSize 0 | Some p \<Rightarrow> dat (heap s ! p)) (take n (pages s))) =
    map (byte_at s) [0..<n * pageSize]"
  using assms(2)
proof (induction n)
  case (Suc n)
  let ?f = "\<lambda>pg. case pg of None \<Rightarrow> replicate pageSize 0 | Some p \<Rightarrow> dat (heap s ! p)"
  have c: "contents (heap s) (pages s) n = ?f (pages s ! n)" using Suc.prems by (simp add: contents_def)
  have "map (byte_at s) [n * pageSize..<n * pageSize + pageSize] = contents (heap s) (pages s) n"
    using heap_inv_contents [OF assms(1), of n]
    by (intro nth_equalityI) (simp_all add: byte_at_def byte_of_def pageSize_pos)
  moreover have "[0..<Suc n * pageSize] = [0..<n * pageSize] @ [n * pageSize..<n * pageSize + pageSize]"
    using upt_add_eq_append [of 0 "n * pageSize" pageSize] by (simp add: add.commute)
  ultimately show ?case using Suc by (simp add: take_Suc_conv_app_nth c)
qed simp

text \<open>
  \<open>WriteTo\<close> a writer that takes everything writes the machine's memory byte for byte, zeros where
  no page is mapped, and reports how much that is.
\<close>
theorem WriteTo_dumps:
  assumes "heap_inv N s"
  shows "WriteTo (\<lambda>b w. (length b, None, w @ b)) s [] =
    (length (pages s) * pageSize, None, map (byte_at s) [0..<length (pages s) * pageSize])"
proof -
  let ?f = "\<lambda>pg. case pg of None \<Rightarrow> replicate pageSize 0 | Some p \<Rightarrow> dat (heap s ! p)"
  have c: "concat (map ?f (pages s)) = map (byte_at s) [0..<length (pages s) * pageSize]"
    using pages_bytes [OF assms order.refl] by simp
  have "sum_list (map (\<lambda>pg. length (?f pg)) (pages s)) = length (pages s) * pageSize"
    using arg_cong [OF c, of length] by (simp add: length_concat comp_def)
  then show ?thesis unfolding WriteTo_def write_pages_all c by simp
qed

theorem WriteTo_dumps_witness:
  "fst (WriteTo (\<lambda>b w. (length b, None, w @ b))
     ((blank 64)\<lparr>pages := [None, Some 0], heap := [\<lparr>rc = 1, dat = replicate 64 9\<rparr>]\<rparr>) []) = 128"
proof -
  let ?s = "(blank 64)\<lparr>pages := [None, Some 0], heap := [\<lparr>rc = 1, dat = replicate 64 9\<rparr>]\<rparr>"
  have "heap_inv 1 ?s"
    by (simp add: blank_def heap_inv_def heap_ok_def tables_def queued_def free_pages_def pageSize_def)
  note d = WriteTo_dumps [OF this]
  show ?thesis unfolding d by (simp add: pageSize_def)
qed

end
