(* ===== verification/Tokens.thy ===== *)
theory Tokens
  imports Values
begin

text \<open>
  The tokens of the assembler (\<open>x/assemble.go\<close>): what a program is made of between scanning and
  encoding, with the methods that link, size and encode one token.

  Writing past the end of a slice panics in Go: \<^const>\<open>None\<close>.  An \<open>EncodeInto\<close> that does not panic
  returns the whole slice and Go's count, negative for an operation that did not fit.
\<close>

subsection \<open>Data\<close>

text \<open>\<open>invalidTK\<close> is the zero kind, which no constructor gives.\<close>

datatype tokenKind = invalidTK | optTK | opTK | dataTK | allocTK | stringTK | addrLabelTK

record token =
  kind :: tokenKind
  str :: string
  tok_op :: Op

definition optToken :: "string \<Rightarrow> u32 \<Rightarrow> bool \<Rightarrow> token" where
  "optToken name arg have = \<lparr>kind = optTK, str = '''', tok_op = ResolveOption name arg have\<rparr>"

definition opToken :: "Op \<Rightarrow> token" where
  "opToken op = \<lparr>kind = opTK, str = '''', tok_op = op\<rparr>"

definition dataToken :: "u32 \<Rightarrow> token" where
  "dataToken d = \<lparr>kind = dataTK, str = '''', tok_op = \<lparr>Code = 0, Arg = d, Have = False\<rparr>\<rparr>"

definition allocToken :: "u32 \<Rightarrow> token" where
  "allocToken n = \<lparr>kind = allocTK, str = '''', tok_op = \<lparr>Code = 0, Arg = n, Have = False\<rparr>\<rparr>"

definition stringToken :: "string \<Rightarrow> token" where
  "stringToken s = \<lparr>kind = stringTK, str = s, tok_op = \<lparr>Code = 0, Arg = 0, Have = False\<rparr>\<rparr>"

definition addrLabelToken :: "string \<Rightarrow> token" where
  "addrLabelToken s = \<lparr>kind = addrLabelTK, str = s, tok_op = \<lparr>Code = 0, Arg = 0, Have = False\<rparr>\<rparr>"

subsection \<open>Linking\<close>

definition tok_ResolveRefArg :: "token \<Rightarrow> u32 \<Rightarrow> u32 \<Rightarrow> token option" where
  "tok_ResolveRefArg tok site targ =
     (case kind tok of
        optTK \<Rightarrow> map_option (\<lambda>op. tok\<lparr>tok_op := op\<rparr>) (ResolveOptionRefArg (tok_op tok) site targ)
      | opTK \<Rightarrow> map_option (\<lambda>op. tok\<lparr>tok_op := op\<rparr>) (op_ResolveRefArg (tok_op tok) site targ)
      | addrLabelTK \<Rightarrow> Some (tok\<lparr>tok_op := (tok_op tok)\<lparr>Arg := targ\<rparr>\<rparr>)
      | _ \<Rightarrow> None)"

subsection \<open>Encoding\<close>

text \<open>The loop of \<open>binary.PutUvarint\<close>.\<close>

lemma drop_bit_7_less64:
  fixes x :: u64
  assumes "\<not> x < 0x80"
  shows "unat (drop_bit 7 x) < unat x"
proof -
  have "unat (drop_bit 7 x) = unat x div 128"
    by (simp only: unat_drop_bit_eq) (simp add: drop_bit_eq_div)
  moreover have "128 \<le> unat x" using assms by (simp add: word_less_nat_alt)
  ultimately show ?thesis by linarith
qed

function uvarint_bytes :: "u64 \<Rightarrow> u8 list" where
  "uvarint_bytes x = (if x < 0x80 then [ucast x] else (ucast x OR 0x80) # uvarint_bytes (drop_bit 7 x))"
  by pat_completeness auto
termination
  by (relation "measure unat") (auto intro: drop_bit_7_less64)

declare uvarint_bytes.simps [simp del]

definition put_bytes :: "u8 list \<Rightarrow> u8 list \<Rightarrow> (u8 list \<times> int) option" where
  "put_bytes bs p =
     (if length bs \<le> length p then Some (bs @ drop (length bs) p, int (length bs)) else None)"

definition PutUvarint :: "u64 \<Rightarrow> u8 list \<Rightarrow> (u8 list \<times> int) option" where
  "PutUvarint x = put_bytes (uvarint_bytes x)"

text \<open>\<open>p[n:]\<close>, with the part before \<open>n\<close> kept and the counts added.\<close>

definition put_then ::
  "(u8 list \<times> int) option \<Rightarrow> (u8 list \<Rightarrow> (u8 list \<times> int) option) \<Rightarrow> (u8 list \<times> int) option" where
  "put_then r f = Option.bind r (\<lambda>(p, n).
     map_option (\<lambda>(q, k). (take (nat n) p @ q, n + k)) (f (drop (nat n) p)))"

definition tok_EncodeInto :: "token \<Rightarrow> u8 list \<Rightarrow> (u8 list \<times> int) option" where
  "tok_EncodeInto tok p =
     (case kind tok of
        optTK \<Rightarrow> Some (op_EncodeInto (tok_op tok) p)
      | opTK \<Rightarrow> Some (op_EncodeInto (tok_op tok) p)
      | dataTK \<Rightarrow> put_bytes (put_u32 (Arg (tok_op tok))) p
      | allocTK \<Rightarrow> put_bytes (concat (replicate (unat (Arg (tok_op tok))) [0, 0, 0, 0])) p
      | stringTK \<Rightarrow>
          put_then (put_bytes (put_u32 (of_nat (length (str tok)))) p) (put_bytes (bytes_of (str tok)))
      | addrLabelTK \<Rightarrow>
          put_then
            (put_then (PutUvarint (ucast (Arg (tok_op tok))) p) (PutUvarint (of_nat (length (str tok)))))
            (put_bytes (bytes_of (str tok)))
      | invalidTK \<Rightarrow> None)"

definition tok_NeededSize :: "token \<Rightarrow> nat option" where
  "tok_NeededSize tok =
     (case kind tok of
        optTK \<Rightarrow> OptionNeededSize (tok_op tok)
      | opTK \<Rightarrow> op_NeededSize (tok_op tok)
      | dataTK \<Rightarrow> Some 4
      | allocTK \<Rightarrow> Some (4 * unat (Arg (tok_op tok)))
      | stringTK \<Rightarrow> Some (4 + length (str tok))
      | addrLabelTK \<Rightarrow>
          Some (10 + length (uvarint_bytes (of_nat (length (str tok)))) + length (str tok))
      | invalidTK \<Rightarrow> None)"

subsection \<open>The bytes of a token\<close>

fun kind_bytes :: "tokenKind \<Rightarrow> Op \<Rightarrow> string \<Rightarrow> u8 list" where
  "kind_bytes optTK op s = op_bytes op"
| "kind_bytes opTK op s = op_bytes op"
| "kind_bytes dataTK op s = put_u32 (Arg op)"
| "kind_bytes allocTK op s = concat (replicate (unat (Arg op)) [0, 0, 0, 0])"
| "kind_bytes stringTK op s = put_u32 (of_nat (length s)) @ bytes_of s"
| "kind_bytes addrLabelTK op s =
     uvarint_bytes (ucast (Arg op)) @ uvarint_bytes (of_nat (length s)) @ bytes_of s"
| "kind_bytes invalidTK op s = []"

definition token_bytes :: "token \<Rightarrow> u8 list" where
  "token_bytes tok = kind_bytes (kind tok) (tok_op tok) (str tok)"

lemma put_then_bytes:
  "put_then (put_bytes as p) (put_bytes bs) = put_bytes (as @ bs) p"
  by (auto simp: put_then_def put_bytes_def add.commute)

lemma op_EncodeInto_fits:
  "length (op_bytes op) \<le> length p \<Longrightarrow>
    op_EncodeInto op p = (op_bytes op @ drop (length (op_bytes op)) p, int (length (op_bytes op)))"
  using putVarCode_fits [of "Arg op" "op_byte op" p]
  by (simp add: op_EncodeInto_def op_bytes_eq length_var_tmp)

lemma op_EncodeInto_short:
  "length p < length (op_bytes op) \<Longrightarrow> snd (op_EncodeInto op p) \<le> 0"
  by (simp add: op_EncodeInto_def putVarCode_def Let_def op_bytes_eq)

lemma put_bytes_Some:
  "put_bytes bs p = Some (q, n) \<longleftrightarrow>
    length bs \<le> length p \<and> q = bs @ drop (length bs) p \<and> n = int (length bs)"
  by (auto simp: put_bytes_def)

lemma encode_kind:
  assumes "kind tok \<notin> {invalidTK, optTK, opTK}"
  shows "tok_EncodeInto tok p = put_bytes (token_bytes tok) p"
  using assms
  by (cases "kind tok") (simp_all add: tok_EncodeInto_def token_bytes_def PutUvarint_def put_then_bytes)

lemma encode_op:
  assumes "kind tok = optTK \<or> kind tok = opTK"
  shows "tok_EncodeInto tok p = Some (op_EncodeInto (tok_op tok) p)"
    and "token_bytes tok = op_bytes (tok_op tok)"
  using assms by (auto simp: tok_EncodeInto_def token_bytes_def)

text \<open>A successful call wrote exactly the token's bytes; there is one when they fit.\<close>

lemma tok_EncodeInto_ok:
  assumes "tok_EncodeInto tok p = Some (q, n)" "0 < n"
  shows "length (token_bytes tok) \<le> length p \<and> q = token_bytes tok @ drop (length (token_bytes tok)) p \<and>
    n = int (length (token_bytes tok))"
proof -
  consider "kind tok = invalidTK" | "kind tok = optTK \<or> kind tok = opTK"
    | "kind tok \<notin> {invalidTK, optTK, opTK}" by blast
  then show ?thesis
  proof cases
    case 1
    with assms show ?thesis by (simp add: tok_EncodeInto_def)
  next
    case 2
    with assms show ?thesis
      using op_EncodeInto_short [of p "tok_op tok"] op_EncodeInto_fits [of "tok_op tok" p]
      by (cases "length p < length (op_bytes (tok_op tok))") (auto simp: encode_op)
  next
    case 3
    with assms show ?thesis by (simp add: encode_kind put_bytes_Some)
  qed
qed

lemma tok_EncodeInto_fits:
  assumes "kind tok \<noteq> invalidTK" "length (token_bytes tok) \<le> length p"
  shows "tok_EncodeInto tok p =
    Some (token_bytes tok @ drop (length (token_bytes tok)) p, int (length (token_bytes tok)))"
proof (cases "kind tok = optTK \<or> kind tok = opTK")
  case True
  with assms show ?thesis by (simp add: encode_op op_EncodeInto_fits)
next
  case False
  with assms show ?thesis by (simp add: encode_kind put_bytes_def)
qed

lemma length_bytes_of [simp]: "length (bytes_of s) = length s"
  by (simp add: bytes_of_def)

subsection \<open>Properties\<close>

lemma MaxVarCodeLen_op: "length (op_bytes op) \<le> MaxVarCodeLen"
  by (simp add: length_op_bytes varCodeLength_le)

lemma uvarint_32: "length (uvarint_bytes x) \<le> k" if "unat x < 128 ^ k" "0 < k"
  using that
proof (induction x arbitrary: k rule: uvarint_bytes.induct)
  case (1 x)
  show ?case
  proof (cases "x < 0x80")
    case True
    with 1 show ?thesis by (simp add: uvarint_bytes.simps [of x])
  next
    case False
    have d: "unat (drop_bit 7 x) = unat x div 128"
      by (simp only: unat_drop_bit_eq) (simp add: drop_bit_eq_div)
    have big: "128 \<le> unat x" using False by (simp add: word_less_nat_alt)
    obtain j where j: "k = Suc j" using 1(3) by (cases k) auto
    with 1(2) big have "0 < j" by (cases j) auto
    moreover have "unat (drop_bit 7 x) < 128 ^ j" using 1(2) j by (simp add: d div_less_iff_less_mult mult.commute)
    ultimately have "length (uvarint_bytes (drop_bit 7 x)) \<le> j" using 1(1) False by blast
    with False j show ?thesis by (simp add: uvarint_bytes.simps [of x])
  qed
qed

lemma op_bytes_needed:
  assumes "op_NeededSize op = Some n"
  shows "length (op_bytes op) \<le> n"
    and "op_ResolveRefArg op site targ = Some op' \<Longrightarrow> length (op_bytes op') \<le> n"
  using assms MaxVarCodeLen_op [of op] MaxVarCodeLen_op [of op']
  by (auto simp: op_NeededSize_def op_AcceptsRef_def op_ResolveRefArg_def length_op_bytes
      split: if_splits option.splits)

lemma opt_bytes_needed:
  assumes "OptionNeededSize op = Some n"
  shows "length (op_bytes op) \<le> n"
    and "ResolveOptionRefArg op site targ = Some op' \<Longrightarrow> length (op_bytes op') \<le> n"
  using assms MaxVarCodeLen_op [of op] MaxVarCodeLen_op [of op'] op_bytes_needed(1) [of op]
  by (auto simp: OptionNeededSize_def ResolveOptionRefArg_def split: if_splits)

lemma length_concat_replicate: "length (concat (replicate k xs)) = k * length xs"
  by (induction k) simp_all

text \<open>
  C38: \<open>NeededSize\<close> is enough for every token, and stays so when the token is linked: its bytes then fit,
  whatever the site and the target.
\<close>
theorem token_NeededSize_enough:
  assumes "tok_NeededSize tok = Some n"
  shows "length (token_bytes tok) \<le> n \<and>
    (\<forall>site targ tok'. tok_ResolveRefArg tok site targ = Some tok' \<longrightarrow> length (token_bytes tok') \<le> n)"
proof (cases "kind tok")
  case optTK
  then show ?thesis using assms opt_bytes_needed
    by (auto simp: tok_NeededSize_def token_bytes_def tok_ResolveRefArg_def)
next
  case opTK
  then show ?thesis using assms op_bytes_needed
    by (auto simp: tok_NeededSize_def token_bytes_def tok_ResolveRefArg_def)
next
  case addrLabelTK
  have "length (uvarint_bytes (ucast (a :: u32))) \<le> 10" for a
    using unsigned_less [of a, where ?'a = nat] by (intro uvarint_32) (simp_all add: unsigned_ucast_eq take_bit_nat_eq_self)
  then show ?thesis using assms addrLabelTK
    by (auto simp: tok_NeededSize_def token_bytes_def tok_ResolveRefArg_def)
next
  case allocTK
  then show ?thesis using assms
    by (simp add: tok_NeededSize_def token_bytes_def tok_ResolveRefArg_def length_concat_replicate)
qed (use assms in \<open>simp_all add: tok_NeededSize_def token_bytes_def tok_ResolveRefArg_def\<close>)

theorem token_NeededSize_enough_witness:
  "length (token_bytes (addrLabelToken ''loop'')) \<le> 15"
proof -
  have "tok_NeededSize (addrLabelToken ''loop'') = Some 15"
    by (simp add: tok_NeededSize_def addrLabelToken_def uvarint_bytes.simps)
  from token_NeededSize_enough [OF this] show ?thesis by simp
qed

lemma mask_0x7f: "(0x7f :: u8) = mask 7" "(0x7f :: u64) = mask 7"
  by (simp_all add: mask_eq_exp_minus_1)

lemma digit_low64: "(ucast ((ucast x OR 0x80 :: u8) AND 0x7f) :: u64) = x AND 0x7f" for x :: u64
  unfolding mask_0x7f
  by (rule bit_word_eqI)
    (auto simp only: bit_and_iff bit_or_iff bit_0x80 bit_mask_iff bit_ucast_iff possible_bit_word
       len_num0 len_num1 len_bit0 len_bit1)

lemma digit_high64: "\<not> (ucast x OR 0x80 :: u8) < 0x80" for x :: u64
proof -
  have "bit (ucast x OR 0x80 :: u8) 7" by (simp only: bit_or_iff bit_0x80) simp
  moreover have "\<not> bit b 7" if "b < 0x80" for b :: u8
  proof -
    have "unat b < 2 ^ 7" using that by (simp add: word_less_nat_alt)
    then show ?thesis using bit_unsigned_iff [of b 7, where ?'a = nat] by (simp add: bit_iff_odd)
  qed
  ultimately show ?thesis by blast
qed

lemma push_digits64:
  "push_bit k (x AND 0x7f) OR push_bit (k + 7) (drop_bit 7 x) = push_bit k (x :: u64)"
  unfolding mask_0x7f
proof (rule bit_word_eqI)
  fix n
  consider "n < k" | "k \<le> n" "n < k + 7" | m where "n = k + 7 + m"
    by (metis le_add_diff_inverse not_less)
  then show "bit (push_bit k (x AND mask 7) OR push_bit (k + 7) (drop_bit 7 x)) n = bit (push_bit k x) n"
    by cases (auto simp: bit_and_iff bit_or_iff bit_mask_iff bit_push_bit_iff bit_drop_bit_eq add.commute)
qed

lemma small_of_drop: "drop_bit k x = 0 \<Longrightarrow> k < 64 \<Longrightarrow> unat x < 2 ^ k" for x :: u64
  by (metis unat_drop_bit_eq drop_bit_nat_def div_eq_0_iff unsigned_0 power_eq_0_iff zero_neq_numeral)

lemma uvarint_loop_bytes:
  assumes "i < 10" "drop_bit (64 - 7 * i) x = 0"
  shows "uvarint_loop i y (uvarint_bytes x @ rest) = (y OR push_bit (7 * i) x, int (i + length (uvarint_bytes x)))"
  using assms
proof (induction x arbitrary: i y rule: uvarint_bytes.induct)
  case (1 x)
  show ?case
  proof (cases "x < 0x80")
    case True
    then have "unat x < 128" by (simp add: word_less_nat_alt)
    then have c: "ucast x < (0x80 :: u8)" and u: "ucast (ucast x :: u8) = x"
      by (simp_all add: word_less_nat_alt unsigned_ucast_eq unsigned_take_bit_eq take_bit_nat_eq_self word_unat_eq_iff)
    have "ucast x \<le> (1 :: u8)" if "i = 9"
      using small_of_drop [of 1 x] 1(3) that
      by (simp add: word_le_nat_alt unsigned_ucast_eq take_bit_nat_eq_self)
    then have "\<not> (i = 9 \<and> 1 < (ucast x :: u8))" by (auto simp: not_less)
    with True c u 1(2) show ?thesis by (simp add: uvarint_bytes.simps [of x])
  next
    case False
    have "i \<noteq> 9" using small_of_drop [of 1 x] 1(3) False by (auto simp: word_less_nat_alt)
    then have i: "Suc i < 10" using 1(2) by simp
    have "drop_bit (64 - 7 * Suc i) (drop_bit 7 x) = 0"
      using 1(3) i by (simp add: drop_bit_drop_bit)
    from 1(1) [OF False i this] False i show ?thesis
      using push_digits64 [of "7 * i" x]
      by (simp add: uvarint_bytes.simps [of x] digit_high64 digit_low64 or.assoc add.commute)
  qed
qed

text \<open>
  What the assembler writes with \<open>PutUvarint\<close> the machine's builder reads back, whatever follows.
\<close>
theorem uvarint_roundtrip:
  assumes "drop (pos mb) (buf mb) = uvarint_bytes (ucast (v :: u32)) @ rest"
  shows "readUvarint mb = (Inr v, mb\<lparr>pos := pos mb + length (uvarint_bytes (ucast v))\<rparr>)"
proof -
  have "ucast (ucast v :: u64) = v"
    by (rule bit_word_eqI) (simp add: bit_ucast_iff)
  moreover have "uvarint_bytes (ucast v) \<noteq> []" by (subst uvarint_bytes.simps) simp
  ultimately show ?thesis
    using uvarint_loop_bytes [of 0 "ucast v" 0 rest]
    by (simp add: readUvarint_def assms Let_def)
qed

theorem uvarint_roundtrip_witness:
  "fst (readUvarint (raw_builder [0xac, 0x02, 7])) = Inr 300"
proof -
  have "uvarint_bytes (ucast (300 :: u32)) = [0xac, 0x02]"
    by (simp add: uvarint_bytes.simps)
  then show ?thesis
    using uvarint_roundtrip [of "raw_builder [0xac, 0x02, 7]" 300 "[7]"]
    by (simp add: raw_builder_def)
qed

end
