(* ===== verification/Encoder.thy ===== *)
theory Encoder
  imports Tokens
begin

text \<open>
  The encoder of \<open>x/assemble.go\<close>: it writes the tokens one after the other, and goes back to patch a
  reference as soon as its target has an offset; when the patch changes the size of the token, what
  came after it is encoded again.

  The two loops of \<open>encode\<close> are \<open>encodeOptions\<close>, which ends, and \<open>enc_loop\<close>, one iteration of the
  outer or of the inner loop per unit of fuel: patching may go on for ever.  Indices are Go's \<open>int\<close>s
  where they may be negative.
\<close>

subsection \<open>State\<close>

record tok_ref =
  site :: int
  targ :: int
  off :: int

datatype enc_err = NoSpace nat | FailedEncode nat | FailedRecode nat | UnresolvedReference tok_ref

text \<open>The encoder, then the local variables of \<open>encode\<close>.\<close>

record encoder =
  toks :: "token list"
  refs :: "tok_ref list"
  enc_base :: u32
  enc_buf :: "u8 list"
  offsets :: "u32 list"
  enc_c :: u32
  enc_i :: nat
  boff :: u32
  nopts :: nat
  rfi :: nat
  rf :: tok_ref

definition no_ref :: tok_ref where
  "no_ref = \<lparr>site = -1, targ = -1, off = 0\<rparr>"

subsection \<open>Encoding a token\<close>

definition encodeTok :: "encoder \<Rightarrow> (enc_err + token \<times> encoder) option" where
  "encodeTok enc =
     (if length (toks enc) \<le> enc_i enc \<or> length (enc_buf enc) < unat (enc_c enc) then None
      else
        (let tok = toks enc ! enc_i enc;
             p = drop (unat (enc_c enc)) (enc_buf enc)
         in if p = [] then Some (Inl (NoSpace (enc_i enc)))
            else
              (case tok_EncodeInto tok p of
                 None \<Rightarrow> None
               | Some (p, n) \<Rightarrow>
                   if n \<le> 0 then Some (Inl (FailedEncode (enc_i enc)))
                   else
                     (let c = enc_c enc + of_int n; i = Suc (enc_i enc)
                      in Some (Inr (tok, enc\<lparr>enc_buf := take (unat (enc_c enc)) (enc_buf enc) @ p,
                           enc_c := c, enc_i := i, offsets := (offsets enc)[i := c]\<rparr>))))))"

lemma encodeTok_Inr:
  "encodeTok enc = Some (Inr (tok, enc')) \<Longrightarrow>
    enc_i enc < length (toks enc) \<and> enc_i enc' = Suc (enc_i enc) \<and> toks enc' = toks enc \<and> tok = toks enc ! enc_i enc"
  by (auto simp: encodeTok_def Let_def split: if_splits option.splits)

definition is_end :: "token \<Rightarrow> bool" where
  "is_end tok \<longleftrightarrow> kind tok = optTK \<and> Code (tok_op tok) = opt_code OptEnd"

text \<open>The loop at \<open>encodeOptions\<close>, and the assignment after it.\<close>

function encodeOptions :: "encoder \<Rightarrow> (enc_err + encoder) option" where
  "encodeOptions enc =
     (if enc_i enc < length (toks enc) then
        (case encodeTok enc of
           None \<Rightarrow> None
         | Some (Inl e) \<Rightarrow> Some (Inl e)
         | Some (Inr (tok, enc)) \<Rightarrow>
             if is_end tok then Some (Inr (enc\<lparr>nopts := enc_i enc, boff := enc_c enc\<rparr>))
             else encodeOptions enc)
      else Some (Inr (enc\<lparr>nopts := enc_i enc, boff := enc_c enc\<rparr>)))"
  by pat_completeness auto
termination
  by (relation "measure (\<lambda>enc. length (toks enc) - enc_i enc)") (auto dest!: encodeTok_Inr)

declare encodeOptions.simps [simp del]

subsection \<open>Patching a reference\<close>

text \<open>The condition of the inner loop.\<close>

definition fixable :: "encoder \<Rightarrow> bool" where
  "fixable enc \<longleftrightarrow>
     0 \<le> site (rf enc) \<and> site (rf enc) < int (enc_i enc) \<and> targ (rf enc) \<le> int (enc_i enc)"

text \<open>
  The loop \<open>for rfi, rf = range enc.refs\<close>: the first reference that has to be looked at again, or
  the last of all.
\<close>

fun first_open :: "nat \<Rightarrow> nat \<Rightarrow> tok_ref list \<Rightarrow> nat" where
  "first_open i k [] = k - 1"
| "first_open i k (r # rs) =
     (if int i \<le> site r \<or> int i \<le> targ r then k else first_open i (Suc k) rs)"

definition rewind :: "nat \<Rightarrow> u32 \<Rightarrow> encoder \<Rightarrow> encoder" where
  "rewind i c enc =
     (let k = first_open i 0 (refs enc)
      in enc\<lparr>enc_i := i, enc_c := c, offsets := (offsets enc)[i := c], rfi := k, rf := refs enc ! k\<rparr>)"

definition next_ref :: "encoder \<Rightarrow> encoder" where
  "next_ref enc =
     (let k = Suc (rfi enc)
      in enc\<lparr>rfi := k, rf := if length (refs enc) \<le> k then no_ref else refs enc ! k\<rparr>)"

text \<open>
  The body of the inner loop, with the jump back to \<open>encodeOptions\<close>.  A negative target panics, and so
  does a token that takes no reference.
\<close>

definition fixRef :: "encoder \<Rightarrow> (enc_err + encoder) option" where
  "fixRef enc =
     (let s = nat (site (rf enc));
          lo = offsets enc ! s;
          hi = offsets enc ! Suc s
      in if targ (rf enc) < 0 \<or> length (enc_buf enc) < unat lo then None
         else
           (case tok_ResolveRefArg (toks enc ! s) (enc_base enc + lo - boff enc)
               (enc_base enc + offsets enc ! nat (targ (rf enc)) - boff enc
                 + of_int (off (refs enc ! rfi enc))) of
              None \<Rightarrow> None
            | Some tok \<Rightarrow>
                (case tok_EncodeInto tok (drop (unat lo) (enc_buf enc)) of
                   None \<Rightarrow> None
                 | Some (p, n) \<Rightarrow>
                     (let enc = enc\<lparr>toks := (toks enc)[s := tok],
                            enc_buf := take (unat lo) (enc_buf enc) @ p\<rparr>
                      in if n \<le> 0 then Some (Inl (FailedRecode s))
                         else if lo + of_int n \<noteq> hi then
                           (let enc = rewind (Suc s) (lo + of_int n) enc
                            in if enc_i enc < nopts enc then encodeOptions enc else Some (Inr enc))
                         else Some (Inr (next_ref enc))))))"

subsection \<open>Encoding a program\<close>

fun enc_loop :: "nat \<Rightarrow> encoder \<Rightarrow> (enc_err + u8 list) outcome" where
  "enc_loop 0 enc = Timeout"
| "enc_loop (Suc fuel) enc =
     (if enc_i enc < length (toks enc) then
        (if fixable enc then
           (case fixRef enc of
              None \<Rightarrow> Panic
            | Some (Inl e) \<Rightarrow> Done (Inl e)
            | Some (Inr enc) \<Rightarrow> enc_loop fuel enc)
         else
           (case encodeTok enc of
              None \<Rightarrow> Panic
            | Some (Inl e) \<Rightarrow> Done (Inl e)
            | Some (Inr (tok, enc)) \<Rightarrow> enc_loop fuel enc))
      else if 0 \<le> site (rf enc) then Done (Inl (UnresolvedReference (rf enc)))
      else Done (Inr (take (unat (enc_c enc)) (enc_buf enc))))"

text \<open>The encoder as \<open>encode\<close> starts it.\<close>

definition start_encoder :: "u32 \<Rightarrow> nat \<Rightarrow> token list \<Rightarrow> tok_ref list \<Rightarrow> encoder" where
  "start_encoder base maxBytes ts rs =
     \<lparr>toks = ts, refs = rs, enc_base = base, enc_buf = replicate maxBytes 0,
      offsets = replicate (Suc (length ts)) 0, enc_c = 0, enc_i = 0, boff = 0, nopts = 0, rfi = 0,
      rf = if rs = [] then no_ref else rs ! 0\<rparr>"

definition encode :: "nat \<Rightarrow> u32 \<Rightarrow> nat \<Rightarrow> token list \<Rightarrow> tok_ref list \<Rightarrow> (enc_err + u8 list) outcome" where
  "encode fuel base maxBytes ts rs =
     (case encodeOptions (start_encoder base maxBytes ts rs) of
        None \<Rightarrow> Panic
      | Some (Inl e) \<Rightarrow> Done (Inl e)
      | Some (Inr enc) \<Rightarrow> enc_loop fuel enc)"

end
