(* ===== verification/Linking.thy ===== *)
theory Linking
  imports Encoder
begin

text \<open>
  What a successful \<open>encode\<close> has produced: the bytes of the tokens in order, every reference of them
  linked to the final address of its target.

  The invariant of the loops has two parts: \<open>written\<close>, that the buffer and the offsets hold the tokens
  encoded so far, and \<open>linking\<close>, that the references before the current one are linked.
\<close>

subsection \<open>The layout of tokens\<close>

definition off_at :: "token list \<Rightarrow> nat \<Rightarrow> nat" where
  "off_at ts j = length (concat (map token_bytes (take j ts)))"

definition end_of :: "token list \<Rightarrow> nat" where
  "end_of ts = min (length ts) (Suc (length (takeWhile (\<lambda>t. \<not> is_end t) ts)))"

text \<open>The address of a token once the program is loaded: options take no room.\<close>

definition address :: "u32 \<Rightarrow> token list \<Rightarrow> nat \<Rightarrow> u32" where
  "address base ts j = base + of_nat (off_at ts j) - of_nat (off_at ts (end_of ts))"

definition linked :: "u32 \<Rightarrow> token list \<Rightarrow> tok_ref \<Rightarrow> bool" where
  "linked base ts r \<longleftrightarrow>
     tok_ResolveRefArg (ts ! nat (site r)) (address base ts (nat (site r)))
       (address base ts (nat (targ r)) + of_int (off r)) = Some (ts ! nat (site r))"

text \<open>Linking changes the argument of a token, nothing else.\<close>

definition same_shape :: "token \<Rightarrow> token \<Rightarrow> bool" where
  "same_shape t t' \<longleftrightarrow> t' = t\<lparr>tok_op := (tok_op t)\<lparr>Arg := Arg (tok_op t')\<rparr>\<rparr>"

lemma same_shape_refl [simp]: "same_shape t t"
  by (simp add: same_shape_def)

lemma same_shape_fields:
  "same_shape t t' \<longleftrightarrow> kind t' = kind t \<and> str t' = str t \<and> Code (tok_op t') = Code (tok_op t) \<and> Have (tok_op t') = Have (tok_op t)"
  unfolding same_shape_def by (auto intro!: token.equality Op.equality dest: arg_cong [of _ _ kind]
      arg_cong [of _ _ str] arg_cong [of _ _ "\<lambda>t. Code (tok_op t)"] arg_cong [of _ _ "\<lambda>t. Have (tok_op t)"])

lemma resolve_shape: "tok_ResolveRefArg t a b = Some t' \<Longrightarrow> same_shape t t'"
  by (auto simp: same_shape_fields tok_ResolveRefArg_def ResolveOptionRefArg_def op_ResolveRefArg_def
      split: tokenKind.splits if_splits option.splits)

lemma resolve_cong:
  assumes "same_shape t t'"
  shows "tok_ResolveRefArg t' a b = tok_ResolveRefArg t a b"
proof -
  obtain x where t': "t' = t\<lparr>tok_op := (tok_op t)\<lparr>Arg := x\<rparr>\<rparr>" using assms by (auto simp: same_shape_def)
  show ?thesis unfolding t'
    by (simp add: tok_ResolveRefArg_def ResolveOptionRefArg_def op_ResolveRefArg_def optionAcceptsRef_def
        op_byte_def split: tokenKind.splits option.splits)
qed

lemma resolve_again: "tok_ResolveRefArg t a b = Some t' \<Longrightarrow> tok_ResolveRefArg t' a b = Some t'"
  using resolve_cong [OF resolve_shape] by metis

lemma same_shape_end: "same_shape t t' \<Longrightarrow> is_end t' = is_end t"
  by (simp add: same_shape_fields is_end_def)

lemma resolve_end: "is_end t \<Longrightarrow> tok_ResolveRefArg t a b = None"
  by (simp add: is_end_def tok_ResolveRefArg_def ResolveOptionRefArg_def optionAcceptsRef_def opt_of_def all_opts_def)

lemma end_of_le: "end_of ts \<le> length ts"
  by (simp add: end_of_def)

lemma end_of_before: "Suc j < end_of ts \<Longrightarrow> \<not> is_end (ts ! j)"
  unfolding end_of_def using nth_mem [of j "takeWhile (\<lambda>t. \<not> is_end t) ts"]
  by (auto dest!: set_takeWhileD simp: takeWhile_nth)

lemma end_of_hit: "end_of ts < length ts \<Longrightarrow> 0 < end_of ts \<and> is_end (ts ! (end_of ts - 1))"
  unfolding end_of_def using nth_length_takeWhile [of "\<lambda>t. \<not> is_end t" ts] by (auto simp: min_def split: if_splits)

lemma end_of_eq:
  assumes "\<forall>j < i. \<not> is_end (ts ! j)" "i < length ts" "is_end (ts ! i)"
  shows "end_of ts = Suc i"
proof -
  have "takeWhile (\<lambda>t. \<not> is_end t) ts = take i ts"
    using assms by (intro takeWhile_eq_take_P_nth) auto
  with assms(2) show ?thesis by (simp add: end_of_def)
qed

lemma end_of_none:
  assumes "\<forall>j < length ts. \<not> is_end (ts ! j)"
  shows "end_of ts = length ts"
proof -
  have "takeWhile (\<lambda>t. \<not> is_end t) ts = ts" using assms by (auto simp: takeWhile_eq_all_conv in_set_conv_nth)
  then show ?thesis by (simp only: end_of_def)
qed

lemma end_of_shape:
  assumes "list_all2 same_shape ts ts'"
  shows "end_of ts' = end_of ts"
proof -
  have "length (takeWhile (\<lambda>t. \<not> is_end t) ts') = length (takeWhile (\<lambda>t. \<not> is_end t) ts)"
    using assms by (induction rule: list_all2_induct) (auto simp: same_shape_end)
  moreover have "length ts' = length ts" using assms by (simp add: list_all2_lengthD)
  ultimately show ?thesis by (simp add: end_of_def)
qed

lemma off_at_Suc: "j < length ts \<Longrightarrow> off_at ts (Suc j) = off_at ts j + length (token_bytes (ts ! j))"
  by (simp add: off_at_def take_Suc_conv_app_nth)

lemma off_at_mono:
  assumes "i \<le> j"
  shows "off_at ts i \<le> off_at ts j"
proof -
  have "take j ts = take i ts @ take (j - i) (drop i ts)" using assms by (metis take_add le_add_diff_inverse)
  then show ?thesis by (simp add: off_at_def)
qed

lemma off_at_update: "j \<le> s \<Longrightarrow> off_at (ts[s := t]) j = off_at ts j"
  by (simp add: off_at_def)

lemma off_at_sum: "off_at ts j = sum_list (take j (map (\<lambda>t. length (token_bytes t)) ts))"
  by (simp add: off_at_def length_concat comp_def flip: take_map)

lemma off_at_patch:
  assumes "length (token_bytes t) = length (token_bytes (ts ! s))"
  shows "off_at (ts[s := t]) j = off_at ts j"
proof -
  let ?f = "\<lambda>t. length (token_bytes t)"
  have "map ?f (ts[s := t]) = (map ?f ts)[s := ?f t]" by (rule map_update)
  also have "\<dots> = map ?f ts"
    by (metis assms length_map list_update_beyond list_update_id not_less nth_map)
  finally show ?thesis by (simp only: off_at_sum)
qed

subsection \<open>The buffer and the offsets\<close>

definition written :: "encoder \<Rightarrow> bool" where
  "written enc \<longleftrightarrow>
     length (offsets enc) = Suc (length (toks enc)) \<and> enc_i enc \<le> length (toks enc) \<and>
     length (enc_buf enc) < 2 ^ 32 \<and> off_at (toks enc) (enc_i enc) \<le> length (enc_buf enc) \<and>
     (\<forall>j \<le> enc_i enc. offsets enc ! j = of_nat (off_at (toks enc) j)) \<and>
     enc_c enc = of_nat (off_at (toks enc) (enc_i enc)) \<and>
     take (off_at (toks enc) (enc_i enc)) (enc_buf enc) = concat (map token_bytes (take (enc_i enc) (toks enc)))"

text \<open>What the loops leave alone.\<close>

definition advanced :: "encoder \<Rightarrow> encoder \<Rightarrow> bool" where
  "advanced enc enc' \<longleftrightarrow>
     toks enc' = toks enc \<and> refs enc' = refs enc \<and> enc_base enc' = enc_base enc \<and>
     rfi enc' = rfi enc \<and> rf enc' = rf enc \<and> length (enc_buf enc') = length (enc_buf enc)"

lemma advanced_refl: "advanced enc enc"
  by (simp add: advanced_def)

lemma advanced_trans: "advanced a b \<Longrightarrow> advanced b c \<Longrightarrow> advanced a c"
  by (simp add: advanced_def)

lemma unat_of_nat_less: "n < 2 ^ 32 \<Longrightarrow> unat (of_nat n :: u32) = n"
  by (simp add: unsigned_of_nat take_bit_nat_eq_self)

lemma written_c:
  assumes "written enc"
  shows "unat (enc_c enc) = off_at (toks enc) (enc_i enc)"
  using assms by (auto simp: written_def intro!: unat_of_nat_less)

lemma written_offset:
  assumes "written enc" "j \<le> enc_i enc"
  shows "offsets enc ! j = of_nat (off_at (toks enc) j)" "unat (offsets enc ! j) = off_at (toks enc) j"
proof -
  show "offsets enc ! j = of_nat (off_at (toks enc) j)" using assms by (simp add: written_def)
  moreover have "off_at (toks enc) j < 2 ^ 32"
    using off_at_mono [OF assms(2), of "toks enc"] assms(1) by (simp add: written_def)
  ultimately show "unat (offsets enc ! j) = off_at (toks enc) j" by (simp add: unat_of_nat_less)
qed

lemma encodeTok_written:
  assumes w: "written enc" and e: "encodeTok enc = Some (Inr (tok, enc'))"
  shows "written enc' \<and> advanced enc enc' \<and> boff enc' = boff enc \<and> nopts enc' = nopts enc"
proof -
  let ?i = "enc_i enc" and ?c = "off_at (toks enc) (enc_i enc)"
  note c = written_c [OF w]
  have i: "?i < length (toks enc)" and tok: "tok = toks enc ! ?i" using encodeTok_Inr [OF e] by auto
  obtain p n where p: "tok_EncodeInto tok (drop ?c (enc_buf enc)) = Some (p, n)" "0 < n"
    and enc': "enc' = enc\<lparr>enc_buf := take ?c (enc_buf enc) @ p, enc_c := enc_c enc + of_int n, enc_i := Suc ?i,
      offsets := (offsets enc)[Suc ?i := enc_c enc + of_int n]\<rparr>"
    using e i unfolding encodeTok_def by (auto simp: Let_def c tok split: if_splits option.splits)
  let ?b = "token_bytes tok"
  have fits: "length ?b \<le> length (enc_buf enc) - ?c" and p': "p = ?b @ drop (length ?b) (drop ?c (enc_buf enc))"
    and n: "n = int (length ?b)"
    using tok_EncodeInto_ok [OF p] by auto
  have le: "?c \<le> length (enc_buf enc)" using w by (simp add: written_def)
  have next': "off_at (toks enc) (Suc ?i) = ?c + length ?b" using off_at_Suc [OF i] by (simp add: tok)
  have len: "length (enc_buf enc') = length (enc_buf enc)" using fits le by (simp add: enc' p')
  have c': "enc_c enc + of_int n = of_nat (off_at (toks enc) (Suc ?i))"
    using w by (simp add: written_def n next')
  have "take (off_at (toks enc) (Suc ?i)) (enc_buf enc') = concat (map token_bytes (take (Suc ?i) (toks enc)))"
  proof -
    define X where "X = concat (map token_bytes (take ?i (toks enc)))"
    have "take ?c (enc_buf enc) = X" "length X = ?c" using w by (simp_all add: written_def X_def off_at_def)
    then have "take (off_at (toks enc) (Suc ?i)) (enc_buf enc') = X @ ?b"
      unfolding next' using fits by (simp add: enc' p')
    then show ?thesis using i by (simp add: X_def take_Suc_conv_app_nth tok)
  qed
  moreover have "offsets enc' ! j = of_nat (off_at (toks enc) j)" if "j \<le> Suc ?i" for j
  proof (cases "j = Suc ?i")
    case True
    then show ?thesis using w i c' by (simp add: enc' written_def)
  next
    case False
    then show ?thesis using w that by (simp add: enc' written_def)
  qed
  moreover have "off_at (toks enc) (Suc ?i) \<le> length (enc_buf enc)" using fits le by (simp add: next')
  ultimately have "written enc'" using w i c' unfolding written_def len by (simp add: enc')
  then show ?thesis using len by (simp add: advanced_def enc')
qed

lemma encodeOptions_written:
  assumes "written enc" "\<forall>j < enc_i enc. \<not> is_end (toks enc ! j)" "encodeOptions enc = Some (Inr enc')"
  shows "written enc' \<and> advanced enc enc' \<and> enc_i enc' = end_of (toks enc) \<and> nopts enc' = end_of (toks enc) \<and>
    boff enc' = of_nat (off_at (toks enc) (end_of (toks enc)))"
  using assms
proof (induction enc rule: encodeOptions.induct)
  case (1 enc)
  let ?done = "\<lambda>enc. enc\<lparr>nopts := enc_i enc, boff := enc_c enc\<rparr>"
  have stop: "written (?done e) \<and> advanced e (?done e) \<and> enc_i (?done e) = enc_i e \<and> nopts (?done e) = enc_i e \<and>
      boff (?done e) = of_nat (off_at (toks e) (enc_i e))" if "written e" for e
    using that by (simp add: written_def advanced_def)
  show ?case
  proof (cases "enc_i enc < length (toks enc)")
    case False
    then have "enc_i enc = length (toks enc)" using 1(2) by (simp add: written_def)
    moreover have "enc' = ?done enc" using 1(4) False by (simp add: encodeOptions.simps [of enc])
    ultimately show ?thesis using stop [OF 1(2)] end_of_none 1(3) by metis
  next
    case True
    then obtain tok e where e: "encodeTok enc = Some (Inr (tok, e))"
      using 1(4) by (auto simp: encodeOptions.simps [of enc] split: option.splits sum.splits)
    note w = encodeTok_written [OF 1(2) e] and f = encodeTok_Inr [OF e]
    show ?thesis
    proof (cases "is_end tok")
      case end': True
      then have "end_of (toks enc) = enc_i e" using end_of_eq [of "enc_i enc" "toks enc"] 1(3) f by simp
      moreover have "enc' = ?done e" using 1(4) True e end' by (simp add: encodeOptions.simps [of enc])
      ultimately show ?thesis using stop [of e] w f advanced_trans by metis
    next
      case False
      then have "encodeOptions e = Some (Inr enc')" using 1(4) True e by (simp add: encodeOptions.simps [of enc])
      moreover have "\<forall>j < enc_i e. \<not> is_end (toks e ! j)" using False f 1(3) by (auto simp: less_Suc_eq)
      ultimately show ?thesis using 1(1) [OF True e refl refl False] w f advanced_trans by metis
    qed
  qed
qed

subsection \<open>The linked references\<close>

text \<open>
  What \<open>resolveRefs\<close> gives the encoder: references in the order of their sites, one at most for a token,
  with targets behind the options.
\<close>

definition sorted_refs :: "token list \<Rightarrow> tok_ref list \<Rightarrow> bool" where
  "sorted_refs ts rs \<longleftrightarrow>
     sorted_wrt (\<lambda>r q. site r < site q) rs \<and>
     (\<forall>r \<in> set rs. 0 \<le> site r \<and> site r < int (length ts) \<and> int (end_of ts) \<le> targ r)"

definition settled :: "encoder \<Rightarrow> tok_ref \<Rightarrow> bool" where
  "settled enc r \<longleftrightarrow>
     site r < int (enc_i enc) \<and> targ r \<le> int (enc_i enc) \<and>
     site r + 1 < int (length (toks enc)) \<and> targ r < int (length (toks enc)) \<and>
     linked (enc_base enc) (toks enc) r"

definition relinked :: "token list \<Rightarrow> tok_ref list \<Rightarrow> token list \<Rightarrow> bool" where
  "relinked ts rs ts' \<longleftrightarrow>
     list_all2 same_shape ts ts' \<and>
     (\<forall>j < length ts. int j \<notin> site ` set rs \<longrightarrow> ts' ! j = ts ! j)"

definition linking :: "u32 \<Rightarrow> token list \<Rightarrow> tok_ref list \<Rightarrow> encoder \<Rightarrow> bool" where
  "linking base ts rs enc \<longleftrightarrow>
     written enc \<and> refs enc = rs \<and> enc_base enc = base \<and> relinked ts rs (toks enc) \<and>
     nopts enc = end_of (toks enc) \<and> boff enc = of_nat (off_at (toks enc) (end_of (toks enc))) \<and>
     nopts enc \<le> enc_i enc \<and> rfi enc \<le> length rs \<and>
     rf enc = (if rfi enc < length rs then rs ! rfi enc else no_ref) \<and>
     (\<forall>k < rfi enc. settled enc (rs ! k))"

lemma relinked_length: "relinked ts rs ts' \<Longrightarrow> length ts' = length ts"
  by (auto simp: relinked_def dest: list_all2_lengthD)

lemma relinked_end: "relinked ts rs ts' \<Longrightarrow> end_of ts' = end_of ts"
  by (simp add: relinked_def end_of_shape)

lemma relinked_update:
  assumes "relinked ts rs ts'" "r \<in> set rs" "0 \<le> site r" "same_shape (ts' ! nat (site r)) t"
  shows "relinked ts rs (ts'[nat (site r) := t])"
proof -
  have "same_shape (ts ! j) (ts'[nat (site r) := t] ! j)" if "j < length ts" for j
    using assms that relinked_length [OF assms(1)]
    by (cases "j = nat (site r)") (auto simp: relinked_def list_all2_conv_all_nth same_shape_fields)
  moreover have "ts'[nat (site r) := t] ! j = ts ! j" if "j < length ts" "int j \<notin> site ` set rs" for j
    using assms that by (cases "j = nat (site r)") (auto simp: relinked_def)
  ultimately show ?thesis
    using relinked_length [OF assms(1)] by (simp add: relinked_def list_all2_conv_all_nth)
qed

text \<open>The search for the first reference to look at again.\<close>

lemma first_open:
  assumes "j = first_open i k rs" "rs \<noteq> []"
  shows "k \<le> j \<and> j < k + length rs \<and> (\<forall>l < j - k. site (rs ! l) < int i \<and> targ (rs ! l) < int i)"
  using assms
proof (induction rs arbitrary: k)
  case (Cons r rs)
  show ?case
  proof (cases "int i \<le> site r \<or> int i \<le> targ r")
    case True
    with Cons.prems show ?thesis by simp
  next
    case open': False
    show ?thesis
    proof (cases "rs = []")
      case True
      with Cons.prems open' show ?thesis by auto
    next
      case False
      from Cons.IH [OF _ False, of "Suc k"] Cons.prems open'
      have "Suc k \<le> j" "j < Suc k + length rs"
        "\<forall>l < j - Suc k. site (rs ! l) < int i \<and> targ (rs ! l) < int i" by auto
      moreover have "site ((r # rs) ! l) < int i \<and> targ ((r # rs) ! l) < int i" if "l < j - k" for l
        using that calculation open' by (cases l) auto
      ultimately show ?thesis by simp
    qed
  qed
qed simp

lemma address_prefix:
  assumes "j \<le> s" "end_of ts \<le> s" "same_shape (ts ! s) t" 
  shows "address base (ts[s := t]) j = address base ts j"
proof -
  have "list_all2 same_shape ts (ts[s := t])"
    using assms(3) by (cases "s < length ts") (auto simp: list_all2_conv_all_nth nth_list_update)
  then have "end_of (ts[s := t]) = end_of ts" by (rule end_of_shape)
  then show ?thesis using assms(1,2) by (simp add: address_def off_at_update)
qed

lemma settled_front:
  assumes "settled enc r" "nat (site r) \<noteq> s" "0 \<le> site r" "site r \<le> int s" "targ r \<le> int s"
    "end_of (toks enc) \<le> s" "same_shape (toks enc ! s) t" 
    "toks enc' = (toks enc)[s := t]" "enc_base enc' = enc_base enc" "enc_i enc' = Suc s"
  shows "settled enc' r"
  using assms address_prefix [of "nat (site r)" s "toks enc" t] address_prefix [of "nat (targ r)" s "toks enc" t]
  by (simp add: settled_def linked_def nat_le_iff)

lemma patch_buffer:
  assumes "take (off_at ts i) b = concat (map token_bytes (take i ts))" "s < i" "i \<le> length ts"
    "off_at ts i \<le> length b" "length (token_bytes t) = length (token_bytes (ts ! s))"
  shows "take (off_at ts i) (take (off_at ts s) b @ token_bytes t @ drop (length (token_bytes t)) (drop (off_at ts s) b)) =
    concat (map token_bytes (take i (ts[s := t])))"
proof -
  define X where "X = concat (map token_bytes (take s ts))"
  define D where "D = concat (map token_bytes (drop (Suc s) (take i ts)))"
  have split: "take i ts = take s ts @ ts ! s # drop (Suc s) (take i ts)"
    using id_take_nth_drop [of s "take i ts"] assms(2,3) by (simp add: min_def)
  have split': "take i (ts[s := t]) = take s ts @ t # drop (Suc s) (take i ts)"
    using assms(2,3) by (simp add: take_update_swap upd_conv_take_nth_drop min_def take_Cons' drop_take)
  have "concat (map token_bytes (take i ts)) = X @ token_bytes (ts ! s) @ D"
    by (subst split) (simp add: X_def D_def)
  then obtain rest where b: "b = X @ token_bytes (ts ! s) @ D @ rest"
    using assms(1) append_take_drop_id [of "off_at ts i" b] by (metis append.assoc)
  have "off_at ts i = length X + length (token_bytes (ts ! s)) + length D" "off_at ts s = length X"
    using \<open>concat _ = _\<close> by (simp_all add: off_at_def X_def)
  then show ?thesis by (simp add: split' b assms(5)) (simp add: X_def D_def)
qed

lemma linking_ref:
  assumes "linking base ts rs enc" "sorted_refs ts rs" "fixable enc"
  shows "rfi enc < length rs" "rf enc = rs ! rfi enc" "rf enc \<in> set rs"
    "int (end_of (toks enc)) \<le> targ (rf enc)"
proof -
  show k: "rfi enc < length rs"
    using assms by (auto simp: linking_def fixable_def no_ref_def split: if_splits)
  then show rf: "rf enc = rs ! rfi enc" using assms by (simp add: linking_def)
  with k show "rf enc \<in> set rs" by simp
  then show "int (end_of (toks enc)) \<le> targ (rf enc)"
    using assms relinked_end by (auto simp: linking_def sorted_refs_def)
qed

lemma sites_less:
  assumes "sorted_refs ts rs" "l < k" "k < length rs"
  shows "site (rs ! l) < site (rs ! k)" "0 \<le> site (rs ! l)"
  using assms by (auto simp: sorted_refs_def intro: sorted_wrt_nth_less)

lemma written_prefix:
  assumes "written enc" "j \<le> enc_i enc"
  shows "take (off_at (toks enc) j) (enc_buf enc) = concat (map token_bytes (take j (toks enc)))"
proof -
  have "take (enc_i enc) (toks enc) = take j (toks enc) @ take (enc_i enc - j) (drop j (toks enc))"
    using assms(2) by (metis take_add le_add_diff_inverse)
  then have "take (off_at (toks enc) (enc_i enc)) (enc_buf enc) =
      concat (map token_bytes (take j (toks enc))) @ concat (map token_bytes (take (enc_i enc - j) (drop j (toks enc))))"
    using assms(1) by (simp add: written_def)
  then have "take (off_at (toks enc) j) (take (off_at (toks enc) (enc_i enc)) (enc_buf enc)) =
      concat (map token_bytes (take j (toks enc)))"
    by (simp add: off_at_def)
  then show ?thesis using off_at_mono [OF assms(2), of "toks enc"] by (simp add: min_def)
qed

text \<open>The two ways on after a patch: to the next reference, or back to the token behind the patched one.\<close>

lemma patch_same:
  assumes L: "linking base ts rs enc" and R: "sorted_refs ts rs" and F: "fixable enc"
    and i: "enc_i enc < length (toks enc)" and s: "s = nat (site (rf enc))"
    and shape: "same_shape (toks enc ! s) t" and len: "length (token_bytes t) = length (token_bytes (toks enc ! s))"
    and link: "linked base ((toks enc)[s := t]) (rf enc)"
  shows "linking base ts rs (next_ref (enc\<lparr>toks := (toks enc)[s := t],
    enc_buf := take (off_at (toks enc) s) (enc_buf enc) @ token_bytes t @
      drop (length (token_bytes t)) (drop (off_at (toks enc) s) (enc_buf enc))\<rparr>))"
    (is "linking base ts rs (next_ref ?E)")
proof -
  note r = linking_ref [OF L R F]
  have w: "written enc" and rel: "relinked ts rs (toks enc)" using L by (simp_all add: linking_def)
  have si: "s < enc_i enc" using F s by (simp add: fixable_def nat_less_iff)
  have "off_at (toks enc) (Suc s) \<le> off_at (toks enc) (enc_i enc)" using si by (intro off_at_mono) simp
  then have fits: "off_at (toks enc) s + length (token_bytes t) \<le> length (enc_buf enc)"
    using w si i by (simp add: written_def off_at_Suc len)
  have off: "off_at ((toks enc)[s := t]) j = off_at (toks enc) j" for j by (rule off_at_patch [OF len])
  have rel': "relinked ts rs ((toks enc)[s := t])"
    using relinked_update [OF rel r(3)] F shape by (simp add: s fixable_def)
  have end': "end_of ((toks enc)[s := t]) = end_of (toks enc)" using relinked_end rel rel' by metis
  have addr: "address base ((toks enc)[s := t]) j = address base (toks enc) j" for j
    by (simp add: address_def off end')
  have "written ?E"
    using w si patch_buffer [of "toks enc" "enc_i enc" "enc_buf enc" s t] len fits
    by (simp add: written_def off)
  then have "written (next_ref ?E)" by (simp add: written_def next_ref_def)
  moreover have "settled (next_ref ?E) (rs ! k)" if k: "k < Suc (rfi enc)" for k
  proof (cases "k = rfi enc")
    case True
    then have "rs ! k = rf enc" using r(2) by simp
    moreover have "settled ?E (rf enc)"
      using F i link L by (simp add: settled_def fixable_def linking_def)
    ultimately show ?thesis by (simp add: settled_def next_ref_def)
  next
    case False
    then have "k < rfi enc" using k by simp
    then have st: "settled enc (rs ! k)" and "site (rs ! k) < site (rf enc)" "0 \<le> site (rs ! k)"
      using L sites_less [OF R _ r(1)] r(2) by (simp_all add: linking_def)
    then have "nat (site (rs ! k)) \<noteq> s" using s by simp
    then show ?thesis using st L by (simp add: settled_def next_ref_def linked_def addr linking_def)
  qed
  ultimately show ?thesis
    using L rel' r(1) by (simp add: linking_def next_ref_def off end')
qed

lemma patch_back:
  assumes L: "linking base ts rs enc" and R: "sorted_refs ts rs" and F: "fixable enc"
    and i: "enc_i enc < length (toks enc)" and s: "s = nat (site (rf enc))"
    and shape: "same_shape (toks enc ! s) t" and end': "\<not> is_end (toks enc ! s)"
    and fits: "off_at (toks enc) s + length (token_bytes t) \<le> length (enc_buf enc)"
    and link: "end_of (toks enc) \<le> s \<Longrightarrow> targ (rf enc) \<le> int s \<Longrightarrow> linked base ((toks enc)[s := t]) (rf enc)"
    and E: "E = rewind (Suc s) (of_nat (off_at (toks enc) s + length (token_bytes t))) (enc\<lparr>toks := (toks enc)[s := t],
      enc_buf := take (off_at (toks enc) s) (enc_buf enc) @ token_bytes t @
        drop (length (token_bytes t)) (drop (off_at (toks enc) s) (enc_buf enc))\<rparr>)"
  shows "nopts enc \<le> Suc s \<Longrightarrow> linking base ts rs E"
    and "Suc s < nopts enc \<Longrightarrow> encodeOptions E = Some (Inr enc') \<Longrightarrow> linking base ts rs enc'"
proof -
  let ?ts = "(toks enc)[s := t]"
  note r = linking_ref [OF L R F]
  have w: "written enc" and rel: "relinked ts rs (toks enc)" and nopts: "nopts enc = end_of (toks enc)"
    and refs: "refs enc = rs"
    using L by (simp_all add: linking_def)
  have si: "s < enc_i enc" and rs: "site (rf enc) = int s" using F s by (simp_all add: fixable_def nat_less_iff)
  have rel': "relinked ts rs ?ts"
    using relinked_update [OF rel r(3)] F shape by (simp add: s fixable_def)
  have endE: "end_of ?ts = end_of (toks enc)" using relinked_end rel rel' by metis
  have offS: "off_at ?ts (Suc s) = off_at (toks enc) s + length (token_bytes t)"
    using si i by (simp add: off_at_Suc off_at_update)
  define k where "k = first_open (Suc s) 0 rs"
  have "rs \<noteq> []" using r(1) by auto
  from first_open [OF k_def this]
  have k: "k < length rs" and front: "\<And>l. l < k \<Longrightarrow> site (rs ! l) < int (Suc s) \<and> targ (rs ! l) < int (Suc s)"
    by auto
  have E': "toks E = ?ts" "refs E = rs" "enc_base E = base" "enc_i E = Suc s" "nopts E = nopts enc"
    "boff E = boff enc" "rfi E = k" "rf E = rs ! k"
    using L by (simp_all add: E rewind_def Let_def refs k_def linking_def)
  have "written E"
  proof -
    have buf: "enc_buf E = take (off_at (toks enc) s) (enc_buf enc) @ token_bytes t @
        drop (length (token_bytes t)) (drop (off_at (toks enc) s) (enc_buf enc))"
      and offs: "offsets E = (offsets enc)[Suc s := of_nat (off_at ?ts (Suc s))]"
      and c: "enc_c E = of_nat (off_at ?ts (Suc s))"
      by (simp_all add: E rewind_def Let_def offS)
    have "length (enc_buf E) = length (enc_buf enc)" using fits by (simp add: buf)
    moreover have "take (off_at ?ts (Suc s)) (enc_buf E) = concat (map token_bytes (take (Suc s) ?ts))"
      using written_prefix [OF w, of s] si i fits
      by (simp add: buf offS take_Suc_conv_app_nth min_def flip: off_at_def)
    moreover have "offsets E ! j = of_nat (off_at ?ts j)" if "j \<le> Suc s" for j
      using w si i that
      by (cases "j = Suc s") (simp_all add: offs written_def off_at_update)
    ultimately show ?thesis using w si i fits unfolding written_def E' c offS by (simp add: offs)
  qed
  show "linking base ts rs E" if "nopts enc \<le> Suc s"
  proof -
    have "nopts enc \<noteq> Suc s"
      using end_of_hit [of "toks enc"] i si end' nopts by auto
    then have es: "end_of (toks enc) \<le> s" using that nopts by simp
    have "settled E (rs ! l)" if l: "l < k" for l
    proof -
      have "\<not> rfi enc < l"
        using front [OF l] sites_less [OF R, of "rfi enc" l] k l r(2) rs by auto
      then consider "l = rfi enc" | "l < rfi enc" by linarith
      then show ?thesis
      proof cases
        case 1
        then have "targ (rs ! l) < int (length ?ts)" "rs ! l = rf enc" using front [OF l] si i r(2) by auto
        then show ?thesis using link [OF es] rs front [OF l] si i L by (simp add: settled_def E')
      next
        case 2
        then have st: "settled enc (rs ! l)" and lt: "site (rs ! l) < site (rf enc)" and ge: "0 \<le> site (rs ! l)"
          using L sites_less [OF R _ r(1)] r(2) by (simp_all add: linking_def)
        show ?thesis
          by (rule settled_front [OF st _ ge _ _ es shape E'(1) _ E'(4)])
            (use lt rs front [OF l] ge E'(3) L in \<open>auto simp: linking_def\<close>)
      qed
    qed
    then show ?thesis
      using \<open>written E\<close> L rel' nopts es k by (simp add: linking_def E' endE off_at_update)
  qed
  assume before: "Suc s < nopts enc" and e: "encodeOptions E = Some (Inr enc')"
  have "k = 0"
  proof (rule ccontr)
    assume "k \<noteq> 0"
    then have "targ (rs ! 0) < int (Suc s)" using front [of 0] by simp
    moreover have "int (end_of (toks enc)) \<le> targ (rs ! 0)"
      using R rel \<open>rs \<noteq> []\<close> relinked_end by (auto simp: sorted_refs_def)
    ultimately show False using before nopts by simp
  qed
  have "\<not> is_end (toks E ! j)" if "j < enc_i E" for j
    using that before end_of_before [of j ?ts] nopts by (simp add: E' endE)
  with encodeOptions_written [OF \<open>written E\<close> _ e]
  have "written enc' \<and> advanced E enc' \<and> enc_i enc' = end_of ?ts \<and> nopts enc' = end_of ?ts \<and>
    boff enc' = of_nat (off_at ?ts (end_of ?ts))" by (simp add: E')
  then show "linking base ts rs enc'"
    using rel' k \<open>k = 0\<close> by (simp add: linking_def advanced_def E')
qed

lemma rewind_fields: "enc_i (rewind i c enc) = i" "nopts (rewind i c enc) = nopts enc"
  by (simp_all add: rewind_def Let_def)

lemma fixRef_Inr:
  assumes "fixRef enc = Some (Inr enc')" and s: "s = nat (site (rf enc))"
  obtains t p n where
    "tok_ResolveRefArg (toks enc ! s) (enc_base enc + offsets enc ! s - boff enc)
       (enc_base enc + offsets enc ! nat (targ (rf enc)) - boff enc + of_int (off (refs enc ! rfi enc))) = Some t"
    "tok_EncodeInto t (drop (unat (offsets enc ! s)) (enc_buf enc)) = Some (p, n)" "0 < n"
    "\<And>E. E = enc\<lparr>toks := (toks enc)[s := t], enc_buf := take (unat (offsets enc ! s)) (enc_buf enc) @ p\<rparr> \<Longrightarrow>
       (if offsets enc ! s + of_int n = offsets enc ! Suc s then enc' = next_ref E
        else if Suc s < nopts enc
        then encodeOptions (rewind (Suc s) (offsets enc ! s + of_int n) E) = Some (Inr enc')
        else enc' = rewind (Suc s) (offsets enc ! s + of_int n) E)"
proof -
  let ?t = "tok_ResolveRefArg (toks enc ! s) (enc_base enc + offsets enc ! s - boff enc)
       (enc_base enc + offsets enc ! nat (targ (rf enc)) - boff enc + of_int (off (refs enc ! rfi enc)))"
  have "?t \<noteq> None"
    by (rule notI) (use assms in \<open>simp add: fixRef_def Let_def split: if_split_asm\<close>)
  then obtain t where t: "?t = Some t" by blast
  have "tok_EncodeInto t (drop (unat (offsets enc ! s)) (enc_buf enc)) \<noteq> None"
    by (rule notI) (use assms t in \<open>simp add: fixRef_def Let_def split: if_split_asm\<close>)
  then obtain p n where p: "tok_EncodeInto t (drop (unat (offsets enc ! s)) (enc_buf enc)) = Some (p, n)" by auto
  show thesis
    by (rule that [OF t p])
      (use assms t p in \<open>auto simp: fixRef_def Let_def rewind_fields split: if_split_asm\<close>)
qed

lemma fixRef_linking:
  assumes L: "linking base ts rs enc" and R: "sorted_refs ts rs" and F: "fixable enc"
    and i: "enc_i enc < length (toks enc)" and f: "fixRef enc = Some (Inr enc')"
  shows "linking base ts rs enc'"
proof -
  define s where "s = nat (site (rf enc))"
  note r = linking_ref [OF L R F]
  have w: "written enc" and rel: "relinked ts rs (toks enc)" and refs: "refs enc = rs"
    and boff: "boff enc = of_nat (off_at (toks enc) (end_of (toks enc)))" and base: "enc_base enc = base"
    using L by (simp_all add: linking_def)
  have si: "s < enc_i enc" and ti: "nat (targ (rf enc)) \<le> enc_i enc"
    using F by (simp_all add: s_def fixable_def nat_less_iff nat_le_iff)
  have lo: "offsets enc ! s = of_nat (off_at (toks enc) s)" "unat (offsets enc ! s) = off_at (toks enc) s"
    and hi: "offsets enc ! Suc s = of_nat (off_at (toks enc) (Suc s))" "unat (offsets enc ! Suc s) = off_at (toks enc) (Suc s)"
    using written_offset [OF w] si by simp_all
  have ad: "enc_base enc + offsets enc ! j - boff enc = address base (toks enc) j" if "j \<le> enc_i enc" for j
    using written_offset(1) [OF w that] by (simp add: address_def base boff)
  obtain t p n where t: "tok_ResolveRefArg (toks enc ! s) (address base (toks enc) s)
        (address base (toks enc) (nat (targ (rf enc))) + of_int (off (rf enc))) = Some t"
    and p: "tok_EncodeInto t (drop (off_at (toks enc) s) (enc_buf enc)) = Some (p, n)" "0 < n"
    and out: "\<And>E. E = enc\<lparr>toks := (toks enc)[s := t], enc_buf := take (off_at (toks enc) s) (enc_buf enc) @ p\<rparr> \<Longrightarrow>
       (if of_nat (off_at (toks enc) s) + of_int n = offsets enc ! Suc s then enc' = next_ref E
        else if Suc s < nopts enc
        then encodeOptions (rewind (Suc s) (of_nat (off_at (toks enc) s) + of_int n) E) = Some (Inr enc')
        else enc' = rewind (Suc s) (of_nat (off_at (toks enc) s) + of_int n) E)"
    using fixRef_Inr [OF f s_def] unfolding ad [OF less_imp_le [OF si]] ad [OF ti] refs r(2) [symmetric]
    unfolding lo(2) unfolding lo(1) by blast
  note ok = tok_EncodeInto_ok [OF p]
  have shape: "same_shape (toks enc ! s) t" by (rule resolve_shape [OF t])
  have end': "\<not> is_end (toks enc ! s)" using resolve_end t by fastforce
  have fits: "off_at (toks enc) s + length (token_bytes t) \<le> length (enc_buf enc)"
    using ok off_at_mono [of s "enc_i enc" "toks enc"] si w by (auto simp: written_def)
  have n: "of_nat (off_at (toks enc) s) + of_int n = (of_nat (off_at (toks enc) s + length (token_bytes t)) :: u32)"
    using ok by simp
  have same: "of_nat (off_at (toks enc) s) + of_int n = offsets enc ! Suc s \<longleftrightarrow>
      length (token_bytes t) = length (token_bytes (toks enc ! s))"
  proof -
    have "off_at (toks enc) s + length (token_bytes t) < 2 ^ 32" using fits w by (simp add: written_def)
    then have "unat (of_nat (off_at (toks enc) s) + of_int n :: u32) = off_at (toks enc) s + length (token_bytes t)"
      unfolding n by (rule unat_of_nat_less)
    then show ?thesis using hi(2) si i by (simp add: word_unat_eq_iff off_at_Suc)
  qed
  have si': "s < length (toks enc)" using si i by simp
  have link: "linked base ((toks enc)[s := t]) (rf enc)"
    if "address base ((toks enc)[s := t]) s = address base (toks enc) s"
      "address base ((toks enc)[s := t]) (nat (targ (rf enc))) = address base (toks enc) (nat (targ (rf enc)))"
    using that si' resolve_again [OF t] by (simp add: linked_def flip: s_def)
  show ?thesis
  proof (cases "length (token_bytes t) = length (token_bytes (toks enc ! s))")
    case True
    have "relinked ts rs ((toks enc)[s := t])"
      using relinked_update [OF rel r(3)] F shape by (simp add: s_def fixable_def)
    then have "end_of ((toks enc)[s := t]) = end_of (toks enc)" using relinked_end rel by metis
    then have "address base ((toks enc)[s := t]) j = address base (toks enc) j" for j
      by (simp add: address_def off_at_patch [OF True])
    then have "linked base ((toks enc)[s := t]) (rf enc)" by (intro link)
    note go = patch_same [OF L R F i s_def shape True this]
    have "enc' = next_ref (enc\<lparr>toks := (toks enc)[s := t], enc_buf := take (off_at (toks enc) s) (enc_buf enc) @ p\<rparr>)"
      using out [OF refl] True unfolding same by simp
    then show ?thesis using go ok by simp
  next
    case False
    have link': "linked base ((toks enc)[s := t]) (rf enc)" if "end_of (toks enc) \<le> s" "targ (rf enc) \<le> int s"
      using that shape by (intro link address_prefix) (simp_all add: nat_le_iff)
    note rewound = patch_back [OF L R F i s_def shape end' fits link' refl]
    show ?thesis
    proof (cases "Suc s < nopts enc")
      case True
      with out [OF refl] False
      have "encodeOptions (rewind (Suc s) (of_nat (off_at (toks enc) s + length (token_bytes t)))
          (enc\<lparr>toks := (toks enc)[s := t], enc_buf := take (off_at (toks enc) s) (enc_buf enc) @ p\<rparr>)) = Some (Inr enc')"
        unfolding same unfolding n by simp
      then show ?thesis using rewound(2) [OF _ _ True] ok by simp
    next
      case before: False
      with out [OF refl] False
      have "enc' = rewind (Suc s) (of_nat (off_at (toks enc) s + length (token_bytes t)))
          (enc\<lparr>toks := (toks enc)[s := t], enc_buf := take (off_at (toks enc) s) (enc_buf enc) @ p\<rparr>)"
        unfolding same unfolding n by simp
      then show ?thesis using rewound(1) before ok by simp
    qed
  qed
qed

lemma encodeTok_linking:
  assumes L: "linking base ts rs enc" and e: "encodeTok enc = Some (Inr (tok, enc'))"
  shows "linking base ts rs enc'"
proof -
  have w: "written enc" using L by (simp add: linking_def)
  from encodeTok_written [OF w e] encodeTok_Inr [OF e]
  show ?thesis using L unfolding linking_def advanced_def settled_def by auto
qed

lemma enc_loop_linking:
  assumes "linking base ts rs enc" "sorted_refs ts rs" "enc_loop fuel enc = Done (Inr out)"
  shows "\<exists>ts'. relinked ts rs ts' \<and> out = concat (map token_bytes ts') \<and>
    (\<forall>r \<in> set rs. site r + 1 < int (length ts) \<and> targ r < int (length ts) \<and> linked base ts' r)"
  using assms
proof (induction fuel arbitrary: enc)
  case (Suc fuel)
  note L = Suc.prems(1)
  show ?case
  proof (cases "enc_i enc < length (toks enc)")
    case i: True
    show ?thesis
    proof (cases "fixable enc")
      case True
      then obtain enc' where e: "fixRef enc = Some (Inr enc')" "enc_loop fuel enc' = Done (Inr out)"
        using Suc.prems(3) i by (auto split: option.splits sum.splits)
      show ?thesis by (rule Suc.IH [OF fixRef_linking [OF L Suc.prems(2) True i e(1)] Suc.prems(2) e(2)])
    next
      case False
      then obtain tok enc' where e: "encodeTok enc = Some (Inr (tok, enc'))" "enc_loop fuel enc' = Done (Inr out)"
        using Suc.prems(3) i by (auto split: option.splits sum.splits)
      show ?thesis by (rule Suc.IH [OF encodeTok_linking [OF L e(1)] Suc.prems(2) e(2)])
    qed
  next
    case False
    have w: "written enc" using L by (simp add: linking_def)
    have i: "enc_i enc = length (toks enc)" using w False by (simp add: written_def)
    have neg: "site (rf enc) < 0" and out: "out = take (unat (enc_c enc)) (enc_buf enc)"
      using Suc.prems(3) False by (auto split: if_splits)
    have "\<not> rfi enc < length rs"
    proof
      assume k: "rfi enc < length rs"
      then have "0 \<le> site (rs ! rfi enc)" using Suc.prems(2) by (auto simp: sorted_refs_def)
      then show False using neg L k by (simp add: linking_def)
    qed
    then have "settled enc r" if "r \<in> set rs" for r
      using L that by (auto simp: linking_def in_set_conv_nth)
    moreover have "out = concat (map token_bytes (toks enc))"
      using w i out written_c [OF w] by (simp add: written_def)
    ultimately show ?thesis
      using L relinked_length [of ts rs "toks enc"] by (auto simp: linking_def settled_def)
  qed
qed simp

lemma start_linking:
  assumes "maxBytes < 2 ^ 32" "encodeOptions (start_encoder base maxBytes ts rs) = Some (Inr enc)"
  shows "linking base ts rs enc"
proof -
  have "written (start_encoder base maxBytes ts rs)"
    using assms(1) by (simp add: written_def start_encoder_def off_at_def)
  from encodeOptions_written [OF this _ assms(2)] show ?thesis
    by (simp add: start_encoder_def advanced_def linking_def relinked_def list_all2_refl)
qed

subsection \<open>Progress\<close>

definition encodable :: "token list \<Rightarrow> nat \<Rightarrow> bool" where
  "encodable ts n \<longleftrightarrow>
     n < 2 ^ 32 \<and> off_at ts (length ts) \<le> n \<and> (\<forall>t \<in> set ts. kind t \<noteq> invalidTK \<and> token_bytes t \<noteq> [])"

lemma encodeTok_progress:
  assumes w: "written enc" and e: "encodable (toks enc) (length (enc_buf enc))" and i: "enc_i enc < length (toks enc)"
  shows "\<exists>tok enc'. encodeTok enc = Some (Inr (tok, enc'))"
proof -
  let ?t = "toks enc ! enc_i enc" and ?p = "drop (unat (enc_c enc)) (enc_buf enc)"
  have c: "unat (enc_c enc) = off_at (toks enc) (enc_i enc)" by (rule written_c [OF w])
  have "off_at (toks enc) (Suc (enc_i enc)) \<le> off_at (toks enc) (length (toks enc))"
    using i by (intro off_at_mono) simp
  then have fits: "unat (enc_c enc) + length (token_bytes ?t) \<le> length (enc_buf enc)"
    using e i by (simp add: encodable_def off_at_Suc c)
  have t: "kind ?t \<noteq> invalidTK" "token_bytes ?t \<noteq> []" using e i by (simp_all add: encodable_def)
  have "tok_EncodeInto ?t ?p = Some (token_bytes ?t @ drop (length (token_bytes ?t)) ?p, int (length (token_bytes ?t)))"
    using fits by (intro tok_EncodeInto_fits t) simp
  moreover have "\<not> int (length (token_bytes ?t)) \<le> 0" using t by simp
  moreover have "?p \<noteq> []" "\<not> length (enc_buf enc) < unat (enc_c enc)"
    using fits t by (auto simp: neq_Nil_conv)
  ultimately show ?thesis using i by (simp add: encodeTok_def Let_def)
qed

lemma encodeOptions_progress:
  "written enc \<Longrightarrow> encodable (toks enc) (length (enc_buf enc)) \<Longrightarrow> \<exists>enc'. encodeOptions enc = Some (Inr enc')"
proof (induction enc rule: encodeOptions.induct)
  case (1 enc)
  show ?case
  proof (cases "enc_i enc < length (toks enc)")
    case False
    then show ?thesis by (simp add: encodeOptions.simps [of enc])
  next
    case True
    then obtain tok e where e: "encodeTok enc = Some (Inr (tok, e))" using encodeTok_progress [OF 1(2,3)] by blast
    have "written e" "encodable (toks e) (length (enc_buf e))"
      using encodeTok_written [OF 1(2) e] 1(3) by (simp_all add: advanced_def)
    then show ?thesis
      using 1(1) [OF True e refl refl] True e by (cases "is_end tok") (simp_all add: encodeOptions.simps [of enc])
  qed
qed

lemma enc_loop_plain:
  assumes "written enc" "encodable (toks enc) (length (enc_buf enc))" "rf enc = no_ref"
    "length (toks enc) - enc_i enc < fuel"
  shows "enc_loop fuel enc = Done (Inr (concat (map token_bytes (toks enc))))"
  using assms
proof (induction fuel arbitrary: enc)
  case (Suc fuel)
  show ?case
  proof (cases "enc_i enc < length (toks enc)")
    case True
    then obtain tok e where e: "encodeTok enc = Some (Inr (tok, e))"
      using encodeTok_progress [OF Suc.prems(1,2)] by blast
    have e': "written e" "encodable (toks e) (length (enc_buf e))" "rf e = no_ref" "toks e = toks enc" "enc_i e = Suc (enc_i enc)"
      using encodeTok_written [OF Suc.prems(1) e] encodeTok_Inr [OF e] Suc.prems by (simp_all add: advanced_def)
    have "\<not> fixable enc" using Suc.prems(3) by (simp add: fixable_def no_ref_def)
    then show ?thesis using Suc.IH [OF e'(1-3)] Suc.prems(4) True e e'(4,5) by simp
  next
    case False
    then have "enc_i enc = length (toks enc)" using Suc.prems(1) by (simp add: written_def)
    then show ?thesis
      using Suc.prems(1,3) written_c [OF Suc.prems(1)] by (simp add: no_ref_def written_def)
  qed
qed simp

subsection \<open>Properties\<close>

text \<open>
  A program without references assembles: whenever its tokens have bytes and these fit the buffer,
  the fuel of one unit a token gives them, one after the other.
\<close>
theorem encode_plain:
  assumes "encodable ts maxBytes" "length ts < fuel"
  shows "encode fuel base maxBytes ts [] = Done (Inr (concat (map token_bytes ts)))"
proof -
  let ?s = "start_encoder base maxBytes ts []"
  have w: "written ?s" using assms(1) by (simp add: written_def start_encoder_def off_at_def encodable_def)
  have e: "encodable (toks ?s) (length (enc_buf ?s))" using assms(1) by (simp add: start_encoder_def)
  obtain enc where enc: "encodeOptions ?s = Some (Inr enc)" using encodeOptions_progress [OF w e] by blast
  have "written enc \<and> advanced ?s enc" using encodeOptions_written [OF w _ enc] by (simp add: start_encoder_def)
  then show ?thesis
    using enc_loop_plain [of enc fuel] e assms(2) enc by (simp add: encode_def advanced_def start_encoder_def)
qed

text \<open>A loop that ends with a jump back to its start, and an operation behind it.\<close>

definition looping :: "token list" where
  "looping =
     [optToken ''end'' 0 False, opToken \<lparr>Code = 0x02, Arg = 5, Have = True\<rparr>,
      (opToken \<lparr>Code = 0x30, Arg = 0, Have = True\<rparr>)\<lparr>str := ''loop''\<rparr>,
      opToken \<lparr>Code = 0x7f, Arg = 0, Have = False\<rparr>]"

definition loop_refs :: "tok_ref list" where
  "loop_refs = [\<lparr>site = 2, targ = 1, off = 0\<rparr>]"

theorem encode_plain_witness:
  "encode 5 64 20 looping [] = Done (Inr (concat (map token_bytes looping)))"
proof (rule encode_plain)
  have "off_at looping (length looping) \<le> 20" "\<forall>t \<in> set looping. kind t \<noteq> invalidTK \<and> token_bytes t \<noteq> []"
    by code_simp+
  then show "encodable looping 20" by (simp add: encodable_def)
  show "length looping < 5" by (simp add: looping_def)
qed

text \<open>
  The assembler links.  When \<open>encode\<close> succeeds, its output is the bytes of the tokens in order, each
  as it was given, but for the arguments of the tokens that refer to a label; and every one of these has
  the argument that \<open>ResolveRefArg\<close> gives for the final address of its site and of its target, at
  whatever sizes the other references ended up.
\<close>
theorem encode_links:
  assumes "encode fuel base maxBytes ts rs = Done (Inr out)" "sorted_refs ts rs" "maxBytes < 2 ^ 32"
  shows "\<exists>ts'. relinked ts rs ts' \<and> out = concat (map token_bytes ts') \<and> (\<forall>r \<in> set rs. linked base ts' r)"
proof -
  obtain enc where "encodeOptions (start_encoder base maxBytes ts rs) = Some (Inr enc)"
    "enc_loop fuel enc = Done (Inr out)"
    using assms(1) by (auto simp: encode_def split: option.splits sum.splits)
  from enc_loop_linking [OF start_linking [OF assms(3) this(1)] assms(2) this(2)] show ?thesis by blast
qed

theorem encode_links_witness:
  "\<exists>ts'. relinked looping loop_refs ts' \<and>
    [0x00, 0x85, 0x02, 0x8f, 0xff, 0xff, 0xff, 0xf8, 0x30, 0x7f] = concat (map token_bytes ts') \<and>
    (\<forall>r \<in> set loop_refs. linked 64 ts' r)"
proof (rule encode_links)
  show "encode 9 64 20 looping loop_refs =
      Done (Inr [0x00, 0x85, 0x02, 0x8f, 0xff, 0xff, 0xff, 0xf8, 0x30, 0x7f])" by code_simp
  show "sorted_refs looping loop_refs" by code_simp
qed simp

text \<open>
  A reference in the last token of a program, or to a label at its end, is never resolved: the loop
  only looks at references while there are tokens left to encode.
\<close>
theorem encode_last_ref:
  assumes "sorted_refs ts rs" "maxBytes < 2 ^ 32" "r \<in> set rs"
    "site r + 1 = int (length ts) \<or> int (length ts) \<le> targ r"
  shows "encode fuel base maxBytes ts rs \<noteq> Done (Inr out)"
proof
  assume "encode fuel base maxBytes ts rs = Done (Inr out)"
  then obtain enc where "encodeOptions (start_encoder base maxBytes ts rs) = Some (Inr enc)"
    "enc_loop fuel enc = Done (Inr out)"
    by (auto simp: encode_def split: option.splits sum.splits)
  from enc_loop_linking [OF start_linking [OF assms(2) this(1)] assms(1) this(2)] assms(3,4) show False by auto
qed

theorem encode_last_ref_witness:
  "\<forall>fuel out. encode fuel 64 20 (take 3 looping) loop_refs \<noteq> Done (Inr out)"
proof (intro allI)
  fix fuel out
  show "encode fuel 64 20 (take 3 looping) loop_refs \<noteq> Done (Inr out)"
  proof (rule encode_last_ref)
    show "sorted_refs (take 3 looping) loop_refs" by code_simp
    show "\<lparr>site = 2, targ = 1, off = 0\<rparr> \<in> set loop_refs" by (simp add: loop_refs_def)
  qed (simp_all add: looping_def)
qed

end
