(* ===== verification/Sections.thy ===== *)
theory Sections
  imports Linking
begin

text \<open>
  The sections and the assembler of \<open>x/assemble.go\<close>: tokens, references by name and labels while a
  program is scanned, and how \<open>finish\<close> puts the sections together for the encoder.

  \<open>stackSize\<close> and the other option pointers of the assembler point into the array behind the tokens of
  the options.  When \<open>append\<close> has to move that array, a pointer keeps the old element: \<open>Moved\<close> is an
  element that the section no longer has.  How far \<open>append\<close> grows an array is up to Go: a function of
  the capacity that has been used up.
\<close>

subsection \<open>Sections\<close>

record namedRef =
  targName :: string
  nref :: tok_ref

record sect =
  sec_toks :: "token list"
  sec_refs :: "namedRef list"
  labels :: "string \<rightharpoonup> int"
  maxBytes :: int

definition empty_section :: sect where
  "empty_section = \<lparr>sec_toks = [], sec_refs = [], labels = Map.empty, maxBytes = 0\<rparr>"

fun needed :: "token list \<Rightarrow> int option" where
  "needed [] = Some 0"
| "needed (t # ts) =
     (case (tok_NeededSize t, needed ts) of (Some n, Some k) \<Rightarrow> Some (int n + k) | _ \<Rightarrow> None)"

definition makeSection :: "token list \<Rightarrow> sect option" where
  "makeSection ts = map_option (\<lambda>n. empty_section\<lparr>sec_toks := ts, maxBytes := n\<rparr>) (needed ts)"

text \<open>A step of the loop of \<open>collectSections\<close>; the keys of a map are visited in any order.\<close>

definition collect :: "sect \<Rightarrow> sect \<Rightarrow> sect" where
  "collect s sec =
     (let base = int (length (sec_toks sec))
      in \<lparr>sec_toks = sec_toks sec @ sec_toks s,
          sec_refs = sec_refs sec @ map (\<lambda>r. r\<lparr>nref := (nref r)\<lparr>site := site (nref r) + base\<rparr>\<rparr>) (sec_refs s),
          labels = (\<lambda>name. case labels s name of
              Some i \<Rightarrow> if 0 \<le> i then Some (base + i) else labels sec name
            | None \<Rightarrow> labels sec name),
          maxBytes = maxBytes sec + maxBytes s\<rparr>)"

definition collectSections :: "sect list \<Rightarrow> sect" where
  "collectSections secs = fold collect secs empty_section"

text \<open>The labels that are referred to and have no place.  (\<open>noted\<close> is never written.)\<close>

definition undefined_labels :: "sect \<Rightarrow> string list" where
  "undefined_labels sec =
     filter (\<lambda>name. name \<noteq> '''' \<and> (case labels sec name of None \<Rightarrow> True | Some i \<Rightarrow> i < 0))
       (map targName (sec_refs sec))"

text \<open>A reference without a name panics; a name that the map lacks would have the target 0.\<close>

definition resolveRefs :: "sect \<Rightarrow> tok_ref list option" where
  "resolveRefs sec =
     (if list_ex (\<lambda>r. targName r = '''') (sec_refs sec) then None
      else Some (sort_key site
        (map (\<lambda>r. (nref r)\<lparr>targ := (case labels sec (targName r) of None \<Rightarrow> 0 | Some i \<Rightarrow> i)\<rparr>) (sec_refs sec))))"

definition sec_add :: "token \<Rightarrow> sect \<Rightarrow> sect option" where
  "sec_add tok sec =
     map_option (\<lambda>n. sec\<lparr>sec_toks := sec_toks sec @ [tok], maxBytes := maxBytes sec + int n\<rparr>) (tok_NeededSize tok)"

definition sec_addRef :: "token \<Rightarrow> string \<Rightarrow> int \<Rightarrow> sect \<Rightarrow> sect" where
  "sec_addRef tok name k sec =
     sec\<lparr>sec_refs := sec_refs sec @ [\<lparr>targName = name, nref = \<lparr>site = int (length (sec_toks sec)), targ = 0, off = k\<rparr>\<rparr>],
         sec_toks := sec_toks sec @ [tok], maxBytes := maxBytes sec + 6\<rparr>"

definition stubLabel :: "string \<Rightarrow> sect \<Rightarrow> sect" where
  "stubLabel name sec = (if labels sec name = None then sec\<lparr>labels := (labels sec)(name \<mapsto> -1)\<rparr> else sec)"

definition sec_addLabel :: "string \<Rightarrow> sect \<Rightarrow> sect" where
  "sec_addLabel name sec = sec\<lparr>labels := (labels sec)(name \<mapsto> int (length (sec_toks sec)))\<rparr>"

definition dec_string :: "nat \<Rightarrow> string" where
  "dec_string n = map (\<lambda>b. char_of (unat b)) (decimal n)"

text \<open>
  \<open>genLabel\<close> looks for a name that is not taken, and returns the one that it was given: the loop
  assigns to a variable of its own.  The counter is read before it is increased.
\<close>

partial_function (option) fresh_label :: "(string \<rightharpoonup> int) \<Rightarrow> string \<Rightarrow> nat \<Rightarrow> string \<Rightarrow> string option" where
  "fresh_label ls name n tmp =
     (if ls tmp = None then Some tmp else fresh_label ls name (n + 1) (name @ ''.'' @ dec_string n))"

declare fresh_label.simps [code]

definition genLabel :: "string \<Rightarrow> sect \<Rightarrow> string option" where
  "genLabel name sec =
     (if name = '''' then None
      else if hd name = CHR ''.'' \<or> labels sec name \<noteq> None
      then map_option (\<lambda>tmp. name) (fresh_label (labels sec) name 1 (name @ ''.1''))
      else Some name)"

definition sec_renameLabel :: "string \<Rightarrow> string \<Rightarrow> sect \<Rightarrow> sect" where
  "sec_renameLabel old new sec =
     (let sec = (case labels sec old of
          None \<Rightarrow> sec
        | Some n \<Rightarrow> sec\<lparr>labels := (labels sec)(old := None, new \<mapsto> n)\<rparr>)
      in sec\<lparr>sec_refs := map (\<lambda>r. if targName r = old then r\<lparr>targName := new\<rparr> else r) (sec_refs sec)\<rparr>)"

subsection \<open>The assembler\<close>

datatype tok_ptr = Elem nat | Moved token

record assembler =
  pendIn :: string
  pendOut :: string
  adls :: sect
  opts :: sect
  prog :: sect
  opt_cap :: nat
  stackSizeOpt :: "tok_ptr option"
  queueSizeOpt :: "tok_ptr option"
  maxOpsOpt :: "tok_ptr option"
  maxCopiesOpt :: "tok_ptr option"

definition defaultStackSize :: u32 where "defaultStackSize = 0x40"

definition deref :: "tok_ptr \<Rightarrow> sect \<Rightarrow> token" where
  "deref p sec = (case p of Elem i \<Rightarrow> sec_toks sec ! i | Moved t \<Rightarrow> t)"

definition with_arg :: "u32 \<Rightarrow> token \<Rightarrow> token" where
  "with_arg v t = t\<lparr>tok_op := (tok_op t)\<lparr>Arg := v\<rparr>\<rparr>"

text \<open>\<open>ptr.Arg = v\<close>: the section and the pointer after it.\<close>

definition assign_arg :: "u32 \<Rightarrow> tok_ptr \<Rightarrow> sect \<Rightarrow> tok_ptr \<times> sect" where
  "assign_arg v p sec =
     (case p of
        Elem i \<Rightarrow> (Elem i, sec\<lparr>sec_toks := (sec_toks sec)[i := with_arg v (sec_toks sec ! i)]\<rparr>)
      | Moved t \<Rightarrow> (Moved (with_arg v t), sec))"

definition moved :: "sect \<Rightarrow> tok_ptr option \<Rightarrow> tok_ptr option" where
  "moved sec = map_option (\<lambda>p. Moved (deref p sec))"

text \<open>What \<open>append\<close> does to the array of the options before it adds an element.\<close>

definition make_room :: "(nat \<Rightarrow> nat) \<Rightarrow> assembler \<Rightarrow> assembler" where
  "make_room grow asm =
     (if length (sec_toks (opts asm)) < opt_cap asm then asm
      else asm\<lparr>opt_cap := grow (opt_cap asm),
          stackSizeOpt := moved (opts asm) (stackSizeOpt asm),
          queueSizeOpt := moved (opts asm) (queueSizeOpt asm),
          maxOpsOpt := moved (opts asm) (maxOpsOpt asm),
          maxCopiesOpt := moved (opts asm) (maxCopiesOpt asm)\<rparr>)"

definition addOpt :: "(nat \<Rightarrow> nat) \<Rightarrow> string \<Rightarrow> u32 \<Rightarrow> bool \<Rightarrow> assembler \<Rightarrow> assembler option" where
  "addOpt grow name arg have asm =
     (let asm = make_room grow asm
      in map_option (\<lambda>sec. asm\<lparr>opts := sec\<rparr>) (sec_add (optToken name arg have) (opts asm)))"

definition refOpt :: "(nat \<Rightarrow> nat) \<Rightarrow> string \<Rightarrow> u32 \<Rightarrow> bool \<Rightarrow> assembler \<Rightarrow> (tok_ptr \<times> assembler) option" where
  "refOpt grow name arg have asm =
     map_option (\<lambda>asm'. (Elem (length (sec_toks (opts asm))), asm')) (addOpt grow name arg have asm)"

definition addRefOpt :: "(nat \<Rightarrow> nat) \<Rightarrow> string \<Rightarrow> string \<Rightarrow> int \<Rightarrow> assembler \<Rightarrow> assembler" where
  "addRefOpt grow name targetName k asm =
     (let asm = make_room grow asm
      in asm\<lparr>opts := sec_addRef ((optToken name 0 True)\<lparr>str := targetName\<rparr>) targetName k (opts asm)\<rparr>)"

text \<open>\<open>setOption\<close>, on the field of the assembler that it is given.\<close>

definition setOption ::
  "(nat \<Rightarrow> nat) \<Rightarrow> (assembler \<Rightarrow> tok_ptr option) \<Rightarrow> (tok_ptr option \<Rightarrow> assembler \<Rightarrow> assembler) \<Rightarrow>
    string \<Rightarrow> u32 \<Rightarrow> assembler \<Rightarrow> assembler option" where
  "setOption grow field set_field name v asm =
     (case field asm of
        None \<Rightarrow> map_option (\<lambda>(p, asm). set_field (Some p) asm) (refOpt grow name v True asm)
      | Some p \<Rightarrow> (let (p, sec) = assign_arg v p (opts asm) in Some (set_field (Some p) (asm\<lparr>opts := sec\<rparr>))))"

definition addAddrLabel :: "string \<Rightarrow> assembler \<Rightarrow> assembler option" where
  "addAddrLabel name asm =
     map_option (\<lambda>sec. asm\<lparr>adls := sec_addRef (addrLabelToken name) name 0 sec\<rparr>)
       (case sec_toks (adls asm) of
          [] \<Rightarrow> sec_add (optToken ''addrLabels'' 1 True) (adls asm)
        | t # ts \<Rightarrow> Some ((adls asm)\<lparr>sec_toks := with_arg (Arg (tok_op t) + 1) t # ts\<rparr>))"

definition genProgLabel :: "string \<Rightarrow> assembler \<Rightarrow> (string \<times> assembler) option" where
  "genProgLabel name asm =
     Option.bind (genLabel name (prog asm)) (\<lambda>name.
       map_option (Pair name) (addAddrLabel name (asm\<lparr>prog := sec_addLabel name (prog asm)\<rparr>)))"

text \<open>The loop of \<open>renameLabel\<close> over the address labels: the first token of the old name gets the new one.\<close>

fun rename_adl :: "string \<Rightarrow> string \<Rightarrow> token list \<Rightarrow> (token list \<times> int) option" where
  "rename_adl old new [] = Some ([], 0)"
| "rename_adl old new (t # ts) =
     (if kind t = addrLabelTK \<and> str t = old then
        (case (tok_NeededSize t, tok_NeededSize (t\<lparr>str := new\<rparr>)) of
           (Some a, Some b) \<Rightarrow> Some (t\<lparr>str := new\<rparr> # ts, int b - int a)
         | _ \<Rightarrow> None)
      else map_option (\<lambda>(ts, d). (t # ts, d)) (rename_adl old new ts))"

definition renameLabel :: "string \<Rightarrow> string \<Rightarrow> assembler \<Rightarrow> (string \<times> assembler) option" where
  "renameLabel old new asm =
     Option.bind (genLabel new (prog asm)) (\<lambda>new.
       (let adl = sec_renameLabel old new (adls asm)
        in map_option
             (\<lambda>(ts, d). (new, asm\<lparr>adls := adl\<lparr>sec_toks := ts, maxBytes := maxBytes adl + d\<rparr>,
                opts := sec_renameLabel old new (opts asm), prog := sec_renameLabel old new (prog asm)\<rparr>))
             (rename_adl old new (sec_toks adl))))"

text \<open>
  \<open>finish\<close>: the sections as one, the references of the encoder, and its base, which is what the pointer
  to the stack size points to.
\<close>

definition finish :: "assembler \<Rightarrow> (string list + sect \<times> tok_ref list \<times> u32) option" where
  "finish asm =
     (case (makeSection [optToken ''version'' 0 False], makeSection [optToken ''end'' 0 False], stackSizeOpt asm) of
        (Some v, Some e, Some p) \<Rightarrow>
          (let sec = collectSections [v, adls asm, opts asm, e, prog asm];
               bad = undefined_labels sec
           in if bad \<noteq> [] then Some (Inl bad)
              else map_option (\<lambda>rs. Inr (sec, rs, Arg (tok_op (deref p (opts asm))))) (resolveRefs sec))
      | _ \<Rightarrow> None)"

end
