(* ===== verification/Formats.thy ===== *)
theory Formats
  imports Tracers Sections
begin

text \<open>
  How the program writes numbers, operations and errors: the verbs of \<open>fmt\<close> that it uses, \<open>Op.String\<close> and
  \<open>opCode.String\<close> (\<open>api.go\<close>, \<open>ops.go\<close>), the texts of errors (\<open>vm.go\<close>, \<open>api.go\<close>, \<open>alloc.go\<close>, \<open>queue.go\<close>) and
  \<open>errors.Cause\<close> (\<open>internal/errors\<close>).
\<close>

subsection \<open>Verbs\<close>

definition padl :: "nat \<Rightarrow> char \<Rightarrow> string \<Rightarrow> string" where
  "padl w c s = replicate (w - length s) c @ s"

definition digit_char :: "nat \<Rightarrow> char" where
  "digit_char d = char_of (if d < 10 then 48 + d else 87 + d)"

fun hex_digits :: "nat \<Rightarrow> string" where
  "hex_digits n = (if n < 16 then [digit_char n] else hex_digits (n div 16) @ [digit_char (n mod 16)])"

declare hex_digits.simps [simp del]

text \<open>\<open>0x%04x\<close>, which is also \<open>%#04x\<close>; the sharp flag adds its prefix to the width.\<close>

definition hex_width :: "nat \<Rightarrow> u32 \<Rightarrow> string" where
  "hex_width w a = ''0x'' @ padl w (CHR ''0'') (hex_digits (unat a))"

definition dec_int :: "int \<Rightarrow> string" where
  "dec_int n = (if n < 0 then ''-'' @ dec_string (nat (- n)) else dec_string (nat n))"

text \<open>\<open>% 4d\<close> and \<open>%v\<close> of a slice of words.\<close>

definition spaced_dec :: "int \<Rightarrow> string" where
  "spaced_dec n = padl 4 (CHR '' '') (if n < 0 then dec_int n else '' '' @ dec_int n)"

fun spaced :: "string list \<Rightarrow> string" where
  "spaced [] = ''''"
| "spaced [x] = x"
| "spaced (x # xs) = x @ '' '' @ spaced xs"

definition words_string :: "u32 list \<Rightarrow> string" where
  "words_string ws = ''['' @ spaced (map (\<lambda>w. dec_string (unat w)) ws) @ '']''"

text \<open>\<open>%q\<close>, on bytes below 128.\<close>

definition quote_char :: "char \<Rightarrow> string" where
  "quote_char c =
     (let n = of_char c :: nat
      in if c = CHR 0x22 \<or> c = CHR 0x5C then [CHR 0x5C, c]
         else if 32 \<le> n \<and> n < 127 then [c]
         else if n = 7 then [CHR 0x5C, CHR ''a''] else if n = 8 then [CHR 0x5C, CHR ''b'']
         else if n = 12 then [CHR 0x5C, CHR ''f''] else if n = 10 then [CHR 0x5C, CHR ''n'']
         else if n = 13 then [CHR 0x5C, CHR ''r''] else if n = 9 then [CHR 0x5C, CHR ''t'']
         else if n = 11 then [CHR 0x5C, CHR ''v'']
         else [CHR 0x5C, CHR ''x''] @ padl 2 (CHR ''0'') (hex_digits n))"

definition quote :: "string \<Rightarrow> string" where
  "quote s = [CHR 0x22] @ concat (map quote_char s) @ [CHR 0x22]"

definition text_of :: "u8 list \<Rightarrow> string" where
  "text_of bs = map (\<lambda>b. char_of (unat b)) bs"

subsection \<open>Operations\<close>

definition imm_short :: "opImmKind \<Rightarrow> string" where
  "imm_short k =
     (if k = opImmNone then '''' else if k = opImmVal then ''val'' else if k = opImmAddr then ''addr''
      else if k = opImmOffset then ''offset'' else ''Invalid<'' @ dec_int k @ ''>'')"

definition opCode_String :: "u8 \<Rightarrow> string" where
  "opCode_String c =
     (let od = ops ! unat (opcode_code c);
          name = (if od_name od = '''' then ''UNDEFINED<'' @ hex_width 2 (ucast (opcode_code c)) @ ''>'' else od_name od)
      in if hasImm c then imm_short (od_imm od) @ ''-'' @ name else name)"

definition signed_offset :: "u32 \<Rightarrow> string" where
  "signed_offset a =
     (if sint a < 0 then ''-0x'' @ padl 4 (CHR ''0'') (hex_digits (nat (- sint a)))
      else ''+0x'' @ padl 4 (CHR ''0'') (hex_digits (nat (sint a))))"

definition op_String :: "Op \<Rightarrow> string option" where
  "op_String op =
     map_option (\<lambda>def.
       if \<not> Have op then od_name def
       else if imm_kind (od_imm def) = opImmVal then dec_string (unat (Arg op)) @ '' '' @ od_name def
       else if imm_kind (od_imm def) = opImmAddr then ''@'' @ hex_width 4 (Arg op) @ '' '' @ od_name def
       else if imm_kind (od_imm def) = opImmOffset then signed_offset (Arg op) @ '' '' @ od_name def
       else ''INVALID('' @ hex_width 0 (Arg op) @ '' '' @ hex_digits (unat (Code op)) @ '' '' @ quote (od_name def) @ '')'')
     (ops_at (Code op))"

subsection \<open>Errors\<close>

fun merr_Error :: "merr \<Rightarrow> string" where
  "merr_Error ErrVarIntTooBig = ''varint argument too big''"
| "merr_Error ErrInvalidIP = ''invalid IP''"
| "merr_Error ErrSegfault = ''segfault''"
| "merr_Error ErrNoQueue = ''no queue, cannot copy''"
| "merr_Error ErrHalted = ''halted''"
| "merr_Error ErrCrashed = ''crashed''"
| "merr_Error ErrLimit = ''op count limit exceeded''"
| "merr_Error ErrRunQFull = ''run queue full''"
| "merr_Error (AlignmentError op addr) = ''unaligned memory '' @ op @ '' @'' @ hex_width 4 addr"
| "merr_Error (StackRangeError name k) = name @ '' stack '' @ k @ ''flow''"
| "merr_Error (MaxCopiesExceeded n) = ''max copies('' @ dec_string n @ '') exceeded''"
| "merr_Error (InvalidOp c None) = ''invalid op '' @ opCode_String c"
| "merr_Error (InvalidOp c (Some arg)) = ''invalid op '' @ opCode_String c @ '' arg:'' @ hex_width 8 arg"
| "merr_Error (UnexpectedImm arg name) =
     ''unexpected immediate argument '' @ hex_width 4 arg @ '' for '' @ quote name @ '' op''"
| "merr_Error (MissingImm name) = ''missing immediate argument for '' @ quote name @ '' op''"
| "merr_Error (UnimplementedOp c) = ''unimplemented op '' @ opCode_String c"

fun out_err_Error :: "out_err \<Rightarrow> string" where
  "out_err_Error (MachFailed e) = merr_Error e"
| "out_err_Error (InvalidStackLength n) = ''invalid control stack length '' @ dec_string n"

text \<open>The errors of a machine: \<open>Cause\<close> takes the address off, and what is left is no \<open>Causer\<close>.\<close>

fun cause_Error :: "u32 + merr \<Rightarrow> string" where
  "cause_Error (Inl code) = ''HALT('' @ dec_string (unat code) @ '')''"
| "cause_Error (Inr e) = merr_Error e"

fun Cause :: "api_err \<Rightarrow> u32 + merr" where
  "Cause (MachError addr e) = e"

fun MachError_Error :: "api_err \<Rightarrow> string" where
  "MachError_Error (MachError addr e) = ''@'' @ hex_width 4 addr @ '': '' @ cause_Error e"

end
