(* ===== verification/LogTracer.thy ===== *)
theory LogTracer
  imports Formats "HOL-Library.List_Lexorder"
begin

text \<open>
  The log tracer, \<open>x/tracer/log.go\<close>: the line that each call of the tracer writes.

  The state is that of \<open>logfTracer\<close> with the lines that its function \<open>f\<close> was called with, formatted.  What
  the contexts "id" and "count" of the machine's tracer return is the argument \<open>cx\<close> of the calls, the debug
  information of the machine is \<open>di\<close>.  A method that may panic returns an option; \<open>fuel\<close> is that of the
  walks over the stacks.  \<open>text\<close> is the method \<open>Error\<close> of the handler's errors.
\<close>

record logf =
  afterName :: string
  afterFetch :: u32
  lines :: "string list"

type_synonym log_cx = "mach_id option \<times> int option"

definition mach_id_String :: "mach_id \<Rightarrow> string" where
  "mach_id_String mid = (let (a, b, c) = mid in dec_int a @ ''('' @ dec_int b @ '':'' @ dec_int c @ '')'')"

subsection \<open>Lines\<close>

definition noteWidth :: nat where "noteWidth = 15"

text \<open>A line, with what comes behind the instruction pointer.\<close>

definition log_line :: "string \<Rightarrow> int \<Rightarrow> string \<Rightarrow> string \<Rightarrow> u32 \<Rightarrow> string \<Rightarrow> string" where
  "log_line mid n mark what i behind =
     mid @ '' #'' @ spaced_dec n @ '' '' @ mark @ '' '' @ padl noteWidth (CHR '' '') what @ '' @'' @ hex_width 4 i @ behind"

definition quoted_labels :: "u8 list list \<Rightarrow> string" where
  "quoted_labels ls = ''['' @ spaced (map (\<lambda>l. quote (text_of l)) ls) @ '']''"

definition line_tail :: "string option \<Rightarrow> u8 list list \<Rightarrow> string" where
  "line_tail args ls =
     (case args of None \<Rightarrow> '''' | Some s \<Rightarrow> '' '' @ s) @
     (if ls = [] then '''' else '' labels='' @ quoted_labels ls)"

text \<open>\<open>note\<close>, whose further arguments are formatted already, if there are any.\<close>

definition note_line :: "log_cx \<Rightarrow> debugInfo \<Rightarrow> vm \<Rightarrow> string \<Rightarrow> string \<Rightarrow> string option \<Rightarrow> logf \<Rightarrow> logf" where
  "note_line cx di m mark what args lf =
     lf\<lparr>lines := lines lf @
       [log_line (case fst cx of None \<Rightarrow> ''<nil>'' | Some mid \<Rightarrow> mach_id_String mid)
          (case snd cx of None \<Rightarrow> 0 | Some n \<Rightarrow> n) mark what (IP m) (line_tail args (dbg_Labels di (IP m)))]\<rparr>"

definition namedValueParts :: "(u8 list, u32 list) mapping \<Rightarrow> string" where
  "namedValueParts nvs =
     spaced (map text_of (sort (map (\<lambda>n. bytes_of (''out_'' @ text_of n @ ''='' @ words_string (Mapping.lookup_default [] nvs n)))
       (sorted_list_of_set (Mapping.keys nvs)))))"

subsection \<open>Machines\<close>

definition bases :: "vm \<Rightarrow> string" where
  "bases m = '' pbp='' @ hex_width 4 (PBP m) @ '' cbp='' @ hex_width 4 (CBP m)"

definition log_Begin :: "nat \<Rightarrow> log_cx \<Rightarrow> debugInfo \<Rightarrow> vm \<Rightarrow> logf \<Rightarrow> logf option" where
  "log_Begin fuel cx di m lf =
     map_option (\<lambda>r. note_line cx di m ''==='' ''Begin'' (Some (case r of
         Inl e \<Rightarrow> ''values_err='' @ quote (out_err_Error e) @ bases m
       | Inr nvs \<Rightarrow> namedValueParts nvs @ bases m)) lf)
     (NamedValues fuel m)"

definition log_End :: "nat \<Rightarrow> log_cx \<Rightarrow> debugInfo \<Rightarrow> vm \<Rightarrow> logf \<Rightarrow> logf option" where
  "log_End fuel cx di m lf =
     (case Err m of
        Some e \<Rightarrow> Some (note_line cx di m ''==='' ''End'' (Some (''err='' @ quote (cause_Error (Cause e)))) lf)
      | None \<Rightarrow>
          map_option (\<lambda>r. note_line cx di m ''==='' ''End'' (Some (case r of
              Inl e \<Rightarrow> ''values_err='' @ quote (out_err_Error e)
            | Inr nvs \<Rightarrow> namedValueParts nvs)) lf)
          (NamedValues fuel m))"

text \<open>\<open>child\<close> is the context "id" of the copy.\<close>

definition log_Queue :: "nat \<Rightarrow> log_cx \<Rightarrow> debugInfo \<Rightarrow> vm \<Rightarrow> mach_id option \<Rightarrow> logf \<Rightarrow> logf option" where
  "log_Queue fuel cx di m child lf =
     (let c = '' child='' @ (case child of None \<Rightarrow> ''<nil>'' | Some mid \<Rightarrow> mach_id_String mid)
      in map_option (\<lambda>r. note_line cx di m ''+++'' ''Copy'' (Some (case r of
             Inl e \<Rightarrow> ''values_err='' @ quote (out_err_Error e) @ c
           | Inr nvs \<Rightarrow> namedValueParts nvs @ c)) lf)
         (NamedValues fuel m))"

definition log_Handle :: "('e \<Rightarrow> string) \<Rightarrow> log_cx \<Rightarrow> debugInfo \<Rightarrow> vm \<Rightarrow> 'e option \<Rightarrow> logf \<Rightarrow> logf" where
  "log_Handle text cx di m e lf =
     (case e of
        Some e \<Rightarrow> note_line cx di m ''!!!'' ''Handle'' (Some (''err='' @ quote (text e))) lf
      | None \<Rightarrow> note_line cx di m ''==='' ''Handle'' None lf)"

text \<open>The prefix that the context "logf" puts before what is logged through it.\<close>

definition logf_prefix :: "log_cx \<Rightarrow> string" where
  "logf_prefix cx = (case fst cx of None \<Rightarrow> ''<nil>'' | Some mid \<Rightarrow> mach_id_String mid) @ ''       ... ''"

subsection \<open>Operations\<close>

definition opExtra :: "debugInfo \<Rightarrow> u32 \<Rightarrow> Op \<Rightarrow> string option" where
  "opExtra di i op =
     map_option (\<lambda>name.
       (let (so, sc) = dbg_Span di i
        in ''opName='' @ name @ '' '' @ (if so then ''spanOpen=true '' else '''') @ (if sc then ''spanClose=true '' else '''')))
     (op_Name op)"

definition stacks_text :: "vm \<Rightarrow> merr + u32 list \<times> u32 list \<Rightarrow> string" where
  "stacks_text m r =
     (case r of
        Inl e \<Rightarrow> ''pbp='' @ hex_width 4 (PBP m) @ '' psp='' @ hex_width 4 (PSP m) @ '' csp='' @ hex_width 4 (CSP m) @
          '' cbp='' @ hex_width 4 (CBP m) @ '' stacks_err='' @ quote (merr_Error e)
      | Inr (ps, cs) \<Rightarrow> ''ps='' @ words_string ps @ '' cs='' @ words_string cs @
          '' psp='' @ hex_width 4 (PSP m) @ '' csp='' @ hex_width 4 (CSP m))"

fun region_name :: "u32 \<Rightarrow> Region list \<Rightarrow> string" where
  "region_name addr [] = ''''"
| "region_name addr (rg # rgs) =
     (if From rg \<le> addr \<and> addr < To rg then
        (let n = (To rg - From rg) div 4
         in if 1 < n then ''out_'' @ text_of (Name rg) @ ''['' @ dec_string (unat ((addr - From rg) div 4)) @ '']''
            else text_of (Name rg))
      else region_name addr rgs)"

definition nameAddr :: "nat \<Rightarrow> vm \<Rightarrow> u32 \<Rightarrow> string option" where
  "nameAddr fuel m addr =
     map_option (\<lambda>r. case r of Inl e \<Rightarrow> '''' | Inr rgs \<Rightarrow> region_name addr rgs) (Outputs fuel m)"

text \<open>The address that a store is about to write, by the code before \<open>afterFetch\<close> is looked up.\<close>

definition store_target :: "Op \<Rightarrow> string \<Rightarrow> u32 list \<Rightarrow> u32 \<Rightarrow> u32" where
  "store_target op name ps a =
     (if name = ''storeTo'' then (if Have op then Arg op else if ps \<noteq> [] then last ps else a)
      else if name = ''store'' then
        (if Have op \<and> ps \<noteq> [] then last ps
         else if \<not> Have op \<and> 1 < length ps then ps ! (length ps - 2) else a)
      else a)"

definition log_Before :: "nat \<Rightarrow> log_cx \<Rightarrow> debugInfo \<Rightarrow> vm \<Rightarrow> u32 \<Rightarrow> Op \<Rightarrow> logf \<Rightarrow> logf option" where
  "log_Before fuel cx di m i op lf =
     Option.bind (opExtra di i op) (\<lambda>ex.
     Option.bind (Stacks fuel m) (\<lambda>r.
     Option.bind (op_String op) (\<lambda>s.
     Option.bind (op_Name op) (\<lambda>name.
       (let lf = note_line cx di m ''>>>'' s (Some (ex @ stacks_text m r)) lf;
            ps = (case r of Inl e \<Rightarrow> [] | Inr (ps, cs) \<Rightarrow> ps);
            lf = lf\<lparr>afterFetch := store_target op name ps (afterFetch lf)\<rparr>
        in if afterFetch lf = 0 then Some lf
           else
             map_option (\<lambda>nm. (let lf = lf\<lparr>afterName := nm\<rparr> in if nm = '''' then lf\<lparr>afterFetch := 0\<rparr> else lf))
               (nameAddr fuel m (afterFetch lf)))))))"

definition log_After :: "nat \<Rightarrow> log_cx \<Rightarrow> debugInfo \<Rightarrow> vm \<Rightarrow> u32 \<Rightarrow> Op \<Rightarrow> logf \<Rightarrow> logf option" where
  "log_After fuel cx di m i op lf =
     Option.bind (opExtra di i op) (\<lambda>ex.
     Option.bind
       (if afterName lf = '''' then Some (ex, lf)
        else
          map_option (\<lambda>(val, e). (if e = None then ex @ afterName lf @ ''='' @ dec_string (unat val) @ '' '' else ex,
              lf\<lparr>afterName := '''', afterFetch := 0\<rparr>))
            (Fetch (afterFetch lf) m)) (\<lambda>(ex, lf).
     Option.bind (Stacks fuel m) (\<lambda>r.
       map_option (\<lambda>s. note_line cx di m ''...'' s (Some (ex @ stacks_text m r)) lf) (op_String op))))"

end
