(* ===== verification/KeyVals.thy ===== *)
theory KeyVals
  imports Formats
begin

text \<open>
  The key-value scanner of the log tool, \<open>tools/tracelog/parsing.go\<close>.

  The labels that the code jumps between are functions.  An index into \<open>s\<close> is the rest of \<open>s\<close> behind it,
  the end of a value is counted from its start.  Slicing beyond the end of \<open>s\<close> panics: \<^const>\<open>None\<close>.  The
  calls of \<open>each\<close> are the list of its arguments.
\<close>

definition is_ws :: "char \<Rightarrow> bool" where
  "is_ws c \<longleftrightarrow> c = CHR '' '' \<or> c = CHR 0x09 \<or> c = CHR 0x0A"

definition dq :: char where "dq = CHR 0x22"
definition sq :: char where "sq = CHR 0x27"
definition backslash :: char where "backslash = CHR 0x5C"

text \<open>The counters of open brackets, braces and parentheses.\<close>

type_synonym nest = "nat \<times> nat \<times> nat"

definition nested :: "char \<Rightarrow> nest \<Rightarrow> nest" where
  "nested c b =
     (let (bc, cc, pc) = b
      in if c = CHR ''['' then (bc + 1, cc, pc) else if c = CHR '']'' then (bc - 1, cc, pc)
         else if c = CHR ''{'' then (bc, cc + 1, pc) else if c = CHR ''}'' then (bc, cc - 1, pc)
         else if c = CHR ''('' then (bc, cc, pc + 1) else if c = CHR '')'' then (bc, cc, pc - 1)
         else b)"

subsection \<open>Keys and values\<close>

text \<open>
  From \<open>scanVal\<close> (no quote), \<open>scanDQ\<close> or \<open>scanSQ\<close>: how far \<open>ve\<close> moves until the code emits, and the
  counters then.  A backslash moves it by two, also the last character.
\<close>

fun scan_val :: "char option \<Rightarrow> nest \<Rightarrow> string \<Rightarrow> nat \<times> nest" where
  "scan_val q b [] = (0, b)"
| "scan_val None b (c # cs) =
     (if is_ws c \<and> b = (0, 0, 0) then (0, b)
      else
        (let (n, b) = scan_val (if c = dq \<or> c = sq then Some c else None) (nested c b) cs in (Suc n, b)))"
| "scan_val (Some q) b (c # cs) =
     (if c = backslash then (case cs of [] \<Rightarrow> (2, b) | d # ds \<Rightarrow> (let (n, b) = scan_val (Some q) b ds in (n + 2, b)))
      else (let (n, b) = scan_val (if c = q then None else Some q) b cs in (Suc n, b)))"

definition key_char :: "char \<Rightarrow> bool" where
  "key_char c \<longleftrightarrow> \<not> is_ws c \<and> c \<noteq> CHR ''=''"

text \<open>\<open>scanKey\<close>.\<close>

function scan_kvs :: "nest \<Rightarrow> string \<Rightarrow> (string \<times> string) list option" where
  "scan_kvs b s =
     (case dropWhile key_char s of
        [] \<Rightarrow> Some []
      | c # cs \<Rightarrow>
          if is_ws c then scan_kvs b (dropWhile is_ws cs)
          else
            (let (n, b) = scan_val None b cs
             in if length cs < n then None
                else map_option (Cons (takeWhile key_char s, take n cs)) (scan_kvs b (drop (n + 1) cs))))"
  by pat_completeness auto
termination
proof (relation "measure (\<lambda>(b, s). length s)", goal_cases)
  case (2 b s c cs)
  then have "length (dropWhile is_ws cs) < length (c # cs)" by (simp add: le_imp_less_Suc length_dropWhile_le)
  moreover have "length (c # cs) \<le> length s" using 2 length_dropWhile_le [of key_char s] by simp
  ultimately show ?case by simp
next
  case (3 b s c cs)
  then have "length (c # cs) \<le> length s" using length_dropWhile_le [of key_char s] by metis
  then show ?case by simp
qed simp

declare scan_kvs.simps [simp del]

definition scanKVs :: "string \<Rightarrow> (string \<times> string) list option" where
  "scanKVs s = scan_kvs (0, 0, 0) (dropWhile is_ws s)"

subsection \<open>Lists of values\<close>

text \<open>\<open>scanVal\<close> of \<open>scanVs\<close>: where it stops, and whether at a quote.\<close>

fun scan_word :: "nest \<Rightarrow> string \<Rightarrow> nat \<times> nest \<times> char option" where
  "scan_word b [] = (0, b, None)"
| "scan_word b (c # cs) =
     (if c = dq \<or> c = sq then (0, b, Some c)
      else if is_ws c \<and> b = (0, 0, 0) then (0, b, None)
      else (let (n, r) = scan_word (nested c b) cs in (Suc n, r)))"

text \<open>\<open>scanDQ\<close> and \<open>scanSQ\<close>: the buffer, how far \<open>ve\<close> moves, and whether it stops at the closing quote.\<close>

fun unquote :: "char \<Rightarrow> string \<Rightarrow> string \<times> nat \<times> bool" where
  "unquote q [] = ([], 0, False)"
| "unquote q (c # cs) =
     (if c = backslash then
        (case cs of [] \<Rightarrow> ([c], 2, False) | d # ds \<Rightarrow> (let (w, n, closed) = unquote q ds in (d # w, n + 2, closed)))
      else if c = q then ([], 0, True)
      else (let (w, n, closed) = unquote q cs in (c # w, Suc n, closed)))"

text \<open>The quotes drop what stands before them; after the closing one a character is skipped unseen.\<close>

function scan_vs :: "nest \<Rightarrow> string \<Rightarrow> string list option" where
  "scan_vs b s =
     (case dropWhile is_ws s of
        [] \<Rightarrow> Some []
      | c # cs \<Rightarrow>
          (case scan_word b (c # cs) of
             (n, b, None) \<Rightarrow> map_option (Cons (take n (c # cs))) (scan_vs b (drop n cs))
           | (n, b, Some q) \<Rightarrow>
               (let t = drop n cs; (w, k, closed) = unquote q t
                in if closed then map_option (Cons w) (scan_vs b (drop (k + 2) t))
                   else if length t < k then None
                   else Some [q # take k t])))"
  by pat_completeness auto
termination
proof (relation "measure (\<lambda>(b, s). length s)", goal_cases)
  case (2 b s c cs)
  then have "length (c # cs) \<le> length s" using length_dropWhile_le [of is_ws s] by metis
  then show ?case by simp
next
  case (3 b s c cs)
  then have "length (c # cs) \<le> length s" using length_dropWhile_le [of is_ws s] by metis
  with 3 show ?case by auto
qed simp

declare scan_vs.simps [simp del]

definition scanVs :: "string \<Rightarrow> string list option" where
  "scanVs = scan_vs (0, 0, 0)"

subsection \<open>Parsing a value\<close>

definition dec_digit :: "char \<Rightarrow> bool" where
  "dec_digit c \<longleftrightarrow> (48 :: int) \<le> of_char c \<and> (of_char c :: int) \<le> 57"

definition digits_val :: "string \<Rightarrow> int" where
  "digits_val = foldl (\<lambda>n c. 10 * n + (of_char c - 48)) 0"

text \<open>\<open>strconv.ParseInt(s, 10, 64)\<close>.\<close>

definition ParseInt :: "string \<Rightarrow> int option" where
  "ParseInt s =
     (let neg = (s \<noteq> [] \<and> hd s = CHR ''-'');
          ds = (if s \<noteq> [] \<and> (hd s = CHR ''-'' \<or> hd s = CHR ''+'') then tl s else s);
          n = digits_val ds
      in if ds = [] \<or> \<not> list_all dec_digit ds then None
         else if neg then (if n \<le> 2 ^ 63 then Some (- n) else None)
         else if n < 2 ^ 63 then Some n else None)"

definition ParseBool :: "string \<Rightarrow> bool option" where
  "ParseBool s =
     (if s \<in> {''1'', ''t'', ''T'', ''true'', ''TRUE'', ''True''} then Some True
      else if s \<in> {''0'', ''f'', ''F'', ''false'', ''FALSE'', ''False''} then Some False else None)"

text \<open>A parsed value; what \<open>strconv.ParseFloat\<close> accepts and returns is a parameter.\<close>

datatype 'f parsed = PStr string | PInt int | PBool bool | PFloat 'f | PSlice "'f parsed list"

fun all_some :: "('a \<Rightarrow> 'b option) \<Rightarrow> 'a list \<Rightarrow> 'b list option" where
  "all_some f [] = Some []"
| "all_some f (x # xs) = (case f x of None \<Rightarrow> None | Some y \<Rightarrow> map_option (Cons y) (all_some f xs))"

lemma all_some_cong [fundef_cong]:
  "xs = ys \<Longrightarrow> (\<And>x. x \<in> set ys \<Longrightarrow> f x = g x) \<Longrightarrow> all_some f xs = all_some g ys"
  by (induction ys arbitrary: xs) (auto split: option.split)

lemma unquote_length: "unquote q s = (w, n, closed) \<Longrightarrow> length w \<le> length s"
  by (induction q s arbitrary: w n closed rule: unquote.induct)
    (auto simp: Let_def le_SucI split: if_splits prod.splits list.splits)

lemma scan_vs_length: "scan_vs b s = Some vs \<Longrightarrow> v \<in> set vs \<Longrightarrow> length v \<le> length s"
proof (induction b s arbitrary: vs v rule: scan_vs.induct)
  case (1 b s)
  show ?case
  proof (cases "dropWhile is_ws s")
    case Nil
    with 1 show ?thesis by (simp add: scan_vs.simps [of b s])
  next
    case (Cons c cs)
    have le: "Suc (length cs) \<le> length s" using Cons length_dropWhile_le [of is_ws s] by simp
    obtain n b1 q where w: "scan_word b (c # cs) = (n, b1, q)" by (metis prod_cases3)
    show ?thesis
    proof (cases q)
      case None
      then obtain us where us: "scan_vs b1 (drop n cs) = Some us" "vs = take n (c # cs) # us"
        using "1.prems"(1) Cons w by (auto simp: scan_vs.simps [of b s])
      have "length u \<le> length (drop n cs)" if "u \<in> set us" for u
        using "1.IH"(1) [OF Cons w [symmetric] _ None us(1) that] by simp
      with us(2) "1.prems"(2) le show ?thesis by fastforce
    next
      case (Some d)
      obtain u k closed where u: "unquote d (drop n cs) = (u, k, closed)" by (metis prod_cases3)
      show ?thesis
      proof (cases closed)
        case True
        then obtain us where us: "scan_vs b1 (drop (k + 2) (drop n cs)) = Some us" "vs = u # us"
          using "1.prems"(1) Cons w Some u by (auto simp: scan_vs.simps [of b s] Let_def)
        have "length x \<le> length (drop (k + 2) (drop n cs))" if "x \<in> set us" for x
          using "1.IH"(2) [OF Cons w [symmetric] _ Some refl u [symmetric] _ _ True us(1) that] by simp
        with us(2) "1.prems"(2) le unquote_length [OF u] show ?thesis by fastforce
      next
        case False
        then show ?thesis using "1.prems" Cons w Some u le by (auto simp: scan_vs.simps [of b s] Let_def split: if_splits)
      qed
    qed
  qed
qed

text \<open>\<open>parseValue\<close>, with \<open>parseSliceValues\<close>.\<close>

function parseValue :: "(string \<Rightarrow> 'f option) \<Rightarrow> string \<Rightarrow> 'f parsed option" where
  "parseValue ParseFloat s =
     (if s \<noteq> [] \<and> hd s = CHR ''['' \<and> 2 \<le> length s \<and> last s = CHR '']'' then
        (case scanVs (butlast (tl s)) of
           None \<Rightarrow> None
         | Some vs \<Rightarrow> map_option PSlice (all_some (parseValue ParseFloat) vs))
      else
        (case ParseInt s of
           Some n \<Rightarrow> Some (PInt n)
         | None \<Rightarrow>
             (case ParseBool s of
                Some b \<Rightarrow> Some (PBool b)
              | None \<Rightarrow>
                  (case (if s = [] then None else ParseFloat s) of Some f \<Rightarrow> Some (PFloat f) | None \<Rightarrow> Some (PStr s)))))"
  by pat_completeness auto
termination
proof (relation "measure (\<lambda>(f, s). length s)", goal_cases)
  case (2 pf s vs v)
  then have "length v \<le> length (butlast (tl s))" unfolding scanVs_def by (intro scan_vs_length)
  with 2 show ?case by auto
qed simp

declare parseValue.simps [simp del]

definition parseSliceValues :: "(string \<Rightarrow> 'f option) \<Rightarrow> string \<Rightarrow> 'f parsed list option" where
  "parseSliceValues ParseFloat s = Option.bind (scanVs s) (all_some (parseValue ParseFloat))"

subsection \<open>Scanning again\<close>

fun format_kvs :: "(string \<times> string) list \<Rightarrow> string" where
  "format_kvs [] = ''''"
| "format_kvs [(k, v)] = k @ ''='' @ v"
| "format_kvs ((k, v) # kvs) = k @ ''='' @ v @ '' '' @ format_kvs kvs"

definition starts_ws :: "string \<Rightarrow> bool" where
  "starts_ws r \<longleftrightarrow> (case r of [] \<Rightarrow> True | c # cs \<Rightarrow> is_ws c)"

text \<open>A value that ends before the end of the text ends at a space, outside all quotes and brackets.\<close>

lemma scan_val_stop:
  "scan_val q b cs = (n, b') \<Longrightarrow> n < length cs \<Longrightarrow>
    b' = (0, 0, 0) \<and> is_ws (cs ! n) \<and> (\<forall>r. starts_ws r \<longrightarrow> scan_val q b (take n cs @ r) = (n, b'))"
proof (induction q b cs arbitrary: n b' rule: scan_val.induct)
  case (2 b c cs)
  show ?case
  proof (cases "is_ws c \<and> b = (0, 0, 0)")
    case True
    moreover have "scan_val None (0, 0, 0) r = (0, 0, 0, 0)" if "starts_ws r" for r
      using that by (cases r) (simp_all add: starts_ws_def)
    ultimately show ?thesis using "2.prems" by auto
  next
    case False
    then obtain m where "scan_val (if c = dq \<or> c = sq then Some c else None) (nested c b) cs = (m, b')" "n = Suc m"
      using "2.prems"(1) by (auto split: prod.splits)
    with "2.IH" [OF False this(1)] "2.prems"(2) False show ?thesis by auto
  qed
next
  case (3 q b c cs)
  show ?case
  proof (cases "c = backslash")
    case True
    then obtain d ds where cs: "cs = d # ds" using "3.prems" by (cases cs) auto
    then obtain m where "scan_val (Some q) b ds = (m, b')" "n = Suc (Suc m)"
      using "3.prems"(1) True by (auto split: prod.splits)
    with "3.IH"(1) [OF True cs this(1)] "3.prems"(2) True cs show ?thesis by auto
  next
    case False
    then obtain m where "scan_val (if c = q then None else Some q) b cs = (m, b')" "n = Suc m"
      using "3.prems"(1) by (auto split: prod.splits)
    with "3.IH"(2) [OF False this(1)] "3.prems"(2) False show ?thesis by auto
  qed
qed simp

lemma key_split:
  "dropWhile key_char s = c # cs \<Longrightarrow> \<not> is_ws c \<Longrightarrow> c = CHR ''='' "
  using hd_dropWhile [of key_char s] by (auto simp: key_char_def)

lemma scan_key_kv:
  assumes "list_all key_char k"
  shows "scan_kvs b (k @ ''='' @ r) =
    (let (n, b) = scan_val None b r in if length r < n then None
     else map_option (Cons (k, take n r)) (scan_kvs b (drop (n + 1) r)))"
proof -
  have "\<not> key_char (CHR ''='')" "\<not> is_ws (CHR ''='')" by (simp_all add: key_char_def is_ws_def)
  then have "dropWhile key_char (k @ ''='' @ r) = ''='' @ r" "takeWhile key_char (k @ ''='' @ r) = k"
    using assms by (simp_all add: dropWhile_append2 takeWhile_append2 list_all_iff)
  then show ?thesis using \<open>\<not> is_ws (CHR ''='')\<close> by (subst scan_kvs.simps) (simp add: Let_def split: prod.split)
qed

lemma scan_kvs_ws: "scan_kvs b (dropWhile is_ws s) = scan_kvs b s"
proof (cases s)
  case (Cons c cs)
  show ?thesis
  proof (cases "is_ws c")
    case True
    then have "dropWhile key_char s = s" by (simp add: Cons key_char_def)
    then show ?thesis using True by (subst (2) scan_kvs.simps) (simp add: Cons)
  qed (simp add: Cons)
qed simp

lemma format_Cons: "format_kvs ((k, v) # kvs) = k @ ''='' @ v @ (if kvs = [] then [] else '' '' @ format_kvs kvs)"
  by (cases kvs) simp_all

lemma rescan: "scan_kvs b s = Some kvs \<Longrightarrow> b = (0, 0, 0) \<Longrightarrow> scan_kvs b (format_kvs kvs) = Some kvs"
proof (induction b s arbitrary: kvs rule: scan_kvs.induct)
  case (1 b s)
  have e: "scan_kvs b [] = Some []" for b by (simp add: scan_kvs.simps [of b "[]"])
  show ?case
  proof (cases "dropWhile key_char s")
    case Nil
    with "1.prems"(1) e show ?thesis by (simp add: scan_kvs.simps [of b s])
  next
    case (Cons c cs)
    show ?thesis
    proof (cases "is_ws c")
      case True
      then have "scan_kvs b (dropWhile is_ws cs) = Some kvs"
        using "1.prems"(1) Cons by (simp add: scan_kvs.simps [of b s])
      with "1.IH"(1) [OF Cons True] "1.prems"(2) show ?thesis by blast
    next
      case False
      let ?k = "takeWhile key_char s"
      have k: "list_all key_char ?k" by (simp add: list_all_iff) (meson set_takeWhileD)
      obtain n b' where v: "scan_val None b cs = (n, b')" by (cases "scan_val None b cs")
      obtain rest where le: "n \<le> length cs" and rest: "scan_kvs b' (drop (n + 1) cs) = Some rest" and kvs: "kvs = (?k, take n cs) # rest"
        using "1.prems"(1) Cons False v by (auto simp: scan_kvs.simps [of b s] split: if_splits)
      show ?thesis
      proof (cases "n < length cs")
        case True
        from scan_val_stop [OF v True] have b': "b' = (0, 0, 0)"
          and again: "\<And>r. starts_ws r \<Longrightarrow> scan_val None b (take n cs @ r) = (n, b')" by simp_all
        have ih: "scan_kvs b' (format_kvs rest) = Some rest"
          using "1.IH"(2) [OF Cons False v [symmetric] refl _ rest b'] le by simp
        let ?r = "if rest = [] then [] else '' '' @ format_kvs rest"
        have "starts_ws ?r" by (simp add: starts_ws_def is_ws_def)
        from again [OF this] have "scan_val None b (take n cs @ ?r) = (n, b')" .
        moreover have "drop (n + 1) (take n cs @ ?r) = format_kvs rest" using le by simp
        ultimately show ?thesis
          using scan_key_kv [OF k, of b "take n cs @ ?r"] ih le unfolding kvs format_Cons by simp
      next
        case False
        then have "n = length cs" "rest = []" using le rest e by simp_all
        then show ?thesis using scan_key_kv [OF k, of b cs] v unfolding kvs format_Cons by (simp add: e)
      qed
    qed
  qed
qed

text \<open>
  C34: what the scanner finds, written out again as \<open>scanChildKV\<close> and \<open>addCoCopyRec\<close> write it, scans to the
  same keys and values, whatever the text was that it was found in: quotes, brackets that are not closed, stray
  words.  (It is why the counters of open brackets need no reset: they are zero wherever a key begins.)
\<close>
theorem scanKVs_rescan:
  assumes "scanKVs s = Some kvs"
  shows "scanKVs (format_kvs kvs) = Some kvs"
  using rescan [of "(0, 0, 0)" s kvs] assms by (simp add: scanKVs_def scan_kvs_ws)

theorem scanKVs_rescan_witness:
  "scanKVs ''mid=1(2:3) values=[3 1 4]'' = Some [(''mid'', ''1(2:3)''), (''values'', ''[3 1 4]'')]"
proof -
  have "scanKVs ''  mid=1(2:3) lol values=[3 1 4]'' = Some [(''mid'', ''1(2:3)''), (''values'', ''[3 1 4]'')]"
    by code_simp
  from scanKVs_rescan [OF this] show ?thesis by simp
qed

text \<open>
  A quote that the line ends in, right after a backslash, panics both scanners: the loop steps over
  the end, and the slice that is emitted is longer than the line.
\<close>
theorem trailing_backslash:
  "scanKVs (''err='' @ [dq] @ ''x'' @ [backslash]) = None \<and> scanVs ([sq, backslash]) = None"
  by code_simp

end
