(* ===== verification/Patterns.thy ===== *)
theory Patterns
  imports KeyVals
begin

text \<open>
  What the log tool uses of Go's \<open>regexp\<close>, \<open>strconv\<close> and \<open>strings\<close>.

  A match is the leftmost one, and the first among those in the order in which a backtracking search
  tries them: the more repetitions the earlier, the first alternative before the second.  All
  repetitions of the tool's patterns are of single characters.  Strings are sequences of bytes below 128.
\<close>

subsection \<open>Patterns\<close>

datatype re =
  Lit string
| Many nat "char \<Rightarrow> bool"
| Bol
| Seq re re
| Alt re re
| Opt re
| Cap re

fun groups :: "re \<Rightarrow> nat" where
  "groups (Seq p q) = groups p + groups q"
| "groups (Alt p q) = groups p + groups q"
| "groups (Opt p) = groups p"
| "groups (Cap p) = Suc (groups p)"
| "groups p = 0"

text \<open>
  All matches of a pattern at the start of a text, in their order: the texts of the groups and what is
  left.  A group of an option or alternative that is not taken has the empty text.  \<open>n\<close> is the length of the
  whole text.
\<close>

fun match_re :: "re \<Rightarrow> nat \<Rightarrow> string \<Rightarrow> (string list \<times> string) list" where
  "match_re (Lit l) n s = (if take (length l) s = l then [([], drop (length l) s)] else [])"
| "match_re (Many k P) n s = map (\<lambda>j. ([], drop j s)) (rev [k..<Suc (length (takeWhile P s))])"
| "match_re Bol n s = (if length s = n then [([], s)] else [])"
| "match_re (Seq p q) n s =
     concat (map (\<lambda>(gs, t). map (\<lambda>(hs, u). (gs @ hs, u)) (match_re q n t)) (match_re p n s))"
| "match_re (Alt p q) n s =
     map (\<lambda>(gs, t). (gs @ replicate (groups q) [], t)) (match_re p n s) @
     map (\<lambda>(gs, t). (replicate (groups p) [] @ gs, t)) (match_re q n s)"
| "match_re (Opt p) n s = match_re p n s @ [(replicate (groups p) [], s)]"
| "match_re (Cap p) n s = map (\<lambda>(gs, t). (take (length s - length t) s # gs, t)) (match_re p n s)"

text \<open>The leftmost match: the groups and what is left behind it.\<close>

fun find_from :: "re \<Rightarrow> nat \<Rightarrow> string \<Rightarrow> (string list \<times> string) option" where
  "find_from p n [] = (case match_re p n [] of [] \<Rightarrow> None | m # ms \<Rightarrow> Some m)"
| "find_from p n (c # cs) = (case match_re p n (c # cs) of [] \<Rightarrow> find_from p n cs | m # ms \<Rightarrow> Some m)"

definition FindSubmatch :: "re \<Rightarrow> string \<Rightarrow> (string list \<times> string) option" where
  "FindSubmatch p s = find_from p (length s) s"

text \<open>The classes of characters.\<close>

definition letter :: "char \<Rightarrow> bool" where
  "letter c \<longleftrightarrow> (let n = of_char c :: int in 97 \<le> n \<and> n \<le> 122)"

definition word_char :: "char \<Rightarrow> bool" where
  "word_char c \<longleftrightarrow> dec_digit c \<or> letter c \<or> c = CHR ''_'' \<or> (let n = of_char c :: int in 65 \<le> n \<and> n \<le> 90)"

definition space_only :: "char \<Rightarrow> bool" where "space_only c \<longleftrightarrow> c = CHR '' ''"
definition any_char :: "char \<Rightarrow> bool" where "any_char c \<longleftrightarrow> c \<noteq> CHR 0x0A"
definition alnum :: "char \<Rightarrow> bool" where "alnum c \<longleftrightarrow> dec_digit c \<or> letter c"

text \<open>The class \<open>\s\<close> of the patterns, and what \<open>TrimSpace\<close> trims.\<close>

definition re_space :: "char \<Rightarrow> bool" where
  "re_space c \<longleftrightarrow> c \<in> {CHR '' '', CHR 0x09, CHR 0x0A, CHR 0x0C, CHR 0x0D}"

definition space_char :: "char \<Rightarrow> bool" where
  "space_char c \<longleftrightarrow> re_space c \<or> c = CHR 0x0B"

subsection \<open>Matching from the front\<close>

definition first_match :: "re \<Rightarrow> nat \<Rightarrow> string \<Rightarrow> (string list \<times> string) option" where
  "first_match p n s = (case match_re p n s of [] \<Rightarrow> None | m # ms \<Rightarrow> Some m)"

lemma find_first: "first_match p (length s) s = Some m \<Longrightarrow> FindSubmatch p s = Some m"
  by (cases s) (auto simp: FindSubmatch_def first_match_def split: list.splits)

lemma first_concat:
  "(case concat (map f (xs @ x # ys)) of [] \<Rightarrow> None | m # ms \<Rightarrow> Some m) = Some m"
  if "\<forall>y \<in> set xs. f y = []" "f x = m # ms"
proof -
  have "concat (map f xs) = []" using that(1) by (induction xs) simp_all
  then show ?thesis using that(2) by (simp only: map_append list.map concat_append concat.simps append_Nil append_Cons list.case)
qed

lemma first_Lit: "first_match (Seq (Lit l) q) n (l @ s) = first_match q n s"
  by (cases "match_re q n s") (auto simp: first_match_def)

lemma first_Lit_end: "first_match (Lit l) n (l @ s) = Some ([], s)"
  by (simp add: first_match_def)

text \<open>A greedy run whose characters end where it should end.\<close>

lemma many_split:
  assumes "list_all P ds" "k \<le> length ds" "s = [] \<or> \<not> P (hd s)"
  shows "\<exists>ms. match_re (Many k P) n (ds @ s) = ([], s) # ms"
proof -
  have "takeWhile P (ds @ s) = ds" using assms(1,3) by (cases s) (auto simp: list_all_iff takeWhile_append2)
  moreover have "rev [k..<Suc (length ds)] = length ds # rev [k..<length ds]" using assms(2) by simp
  ultimately show ?thesis by simp
qed

lemma first_Many:
  assumes "list_all P ds" "k \<le> length ds" "s = [] \<or> \<not> P (hd s)" "first_match q n s = Some (gs, t)"
  shows "first_match (Seq (Many k P) q) n (ds @ s) = Some (gs, t)"
proof -
  obtain ms where "match_re (Many k P) n (ds @ s) = ([], s) # ms" using many_split [OF assms(1-3)] by blast
  moreover obtain qs where "match_re q n s = (gs, t) # qs" using assms(4) by (auto simp: first_match_def split: list.splits)
  ultimately show ?thesis by (simp add: first_match_def)
qed

lemma first_Cap_Many:
  assumes "list_all P ds" "k \<le> length ds" "s = [] \<or> \<not> P (hd s)" "first_match q n s = Some (gs, t)"
  shows "first_match (Seq (Cap (Many k P)) q) n (ds @ s) = Some (ds # gs, t)"
proof -
  obtain ms where "match_re (Many k P) n (ds @ s) = ([], s) # ms" using many_split [OF assms(1-3)] by blast
  moreover obtain qs where "match_re q n s = (gs, t) # qs" using assms(4) by (auto simp: first_match_def split: list.splits)
  ultimately show ?thesis by (simp add: first_match_def)
qed

lemma first_Cap_end:
  assumes "list_all P ds" "k \<le> length ds" "s = [] \<or> \<not> P (hd s)"
  shows "first_match (Cap (Many k P)) n (ds @ s) = Some ([ds], s)"
proof -
  obtain ms where "match_re (Many k P) n (ds @ s) = ([], s) # ms" using many_split [OF assms] by blast
  then show ?thesis by (simp add: first_match_def del: match_re.simps(2))
qed

text \<open>A greedy run that has to give back what follows it: no longer one is followed by a match.\<close>

lemma first_Cap_back:
  assumes P: "list_all P (a @ s)" "k \<le> length a"
    and no: "\<And>j. 0 < j \<Longrightarrow> j \<le> length s \<Longrightarrow> match_re q n (drop j s) = []"
    and q: "first_match q n s = Some (gs, t)"
  shows "first_match (Seq (Cap (Many k P)) q) n (a @ s) = Some (a # gs, t)"
proof -
  let ?l = "a @ s"
  let ?G = "\<lambda>j. map (\<lambda>(hs, u). (take j ?l # hs, u)) (match_re q n (drop j ?l))"
  have tw: "takeWhile P ?l = ?l" using P(1) by (simp add: takeWhile_eq_all_conv list_all_iff)
  have "match_re (Seq (Cap (Many k P)) q) n ?l = concat (map ?G (rev [k..<Suc (length ?l)]))"
    unfolding match_re.simps tw map_map comp_def
    by (intro arg_cong [where f = concat] map_cong refl) (simp del: drop_append take_append length_append upt_Suc)
  moreover have "rev [k..<Suc (length ?l)] = rev [Suc (length a)..<Suc (length ?l)] @ length a # rev [k..<length a]"
  proof -
    have "[k..<Suc (length ?l)] = [k..<length a] @ [length a..<Suc (length ?l)]"
      using upt_add_eq_append [of k "length a" "Suc (length s)"] P(2) by simp
    also have "[length a..<Suc (length ?l)] = length a # [Suc (length a)..<Suc (length ?l)]" by (rule upt_conv_Cons) simp
    finally show ?thesis by simp
  qed
  moreover have "\<forall>j \<in> set (rev [Suc (length a)..<Suc (length ?l)]). ?G j = []"
  proof
    fix j assume "j \<in> set (rev [Suc (length a)..<Suc (length ?l)])"
    then have "Suc (length a) \<le> j" "j \<le> length a + length s" by auto
    then have "match_re q n (drop (j - length a) s) = []" "drop j a = []" by (auto intro: no)
    then show "?G j = []" by simp
  qed
  moreover obtain qs where "match_re q n s = (gs, t) # qs" using q by (auto simp: first_match_def split: list.splits)
  then have "?G (length a) = (a # gs, t) # map (\<lambda>(hs, u). (take (length a) ?l # hs, u)) qs" by simp
  ultimately show ?thesis unfolding first_match_def by (simp only: first_concat)
qed

end
