(* ===== verification/Tracelog.thy ===== *)
theory Tracelog
  imports Patterns
begin

text \<open>
  The log tool, \<open>tools/tracelog/main.go\<close>: it parses the lines of a log into sessions, one for each machine,
  finds the ancestors of a machine, and writes sessions as JSON.

  A panic is \<^const>\<open>None\<close>.  The lines of \<open>bufio.Scanner\<close> are a list; a map of pointers to sessions is a map of
  sessions, for every session has one key.
\<close>

subsection \<open>Numbers and spaces\<close>

text \<open>\<open>Atoi\<close> on digits, without its error: it is the greatest \<open>int\<close> when the number is too big.\<close>

definition atoi :: "string \<Rightarrow> int" where
  "atoi s = min (digits_val s) (2 ^ 63 - 1)"

definition hex_val :: "char \<Rightarrow> int" where
  "hex_val c = (if dec_digit c then of_char c - 48 else of_char c - 97 + 10)"

text \<open>\<open>ParseUint(s, 16, 64)\<close> on digits and small letters, without its error.\<close>

fun parse_hex :: "int \<Rightarrow> string \<Rightarrow> int" where
  "parse_hex n [] = n"
| "parse_hex n (c # cs) =
     (if 16 \<le> hex_val c then 0 else if 2 ^ 60 \<le> n then 2 ^ 64 - 1 else parse_hex (16 * n + hex_val c) cs)"

definition TrimRight :: "string \<Rightarrow> string" where
  "TrimRight s = rev (dropWhile (\<lambda>c. c \<in> {CHR '' '', CHR 0x0D, CHR 0x0A}) (rev s))"

definition TrimSpace :: "string \<Rightarrow> string" where
  "TrimSpace s = rev (dropWhile space_char (rev (dropWhile space_char s)))"

subsection \<open>Records and sessions\<close>

type_synonym machID = "int \<times> int \<times> int"

definition zeroMachID :: machID where
  "zeroMachID = (0, 0, 0)"

definition machID_String :: "machID \<Rightarrow> string" where
  "machID_String mid =
     (let (a, b, c) = mid in dec_int a @ ''('' @ dec_int b @ '':'' @ dec_int c @ '')'')"

datatype recordKind =
  unknownLine | genericLine | copyLine | beginLine | endLine | hndlLine | noteLine | preOpLine | postOpLine

fun recordKind_String :: "recordKind \<Rightarrow> string" where
  "recordKind_String unknownLine = ''unknown''"
| "recordKind_String genericLine = ''generic''"
| "recordKind_String copyLine = ''copy''"
| "recordKind_String beginLine = ''begin''"
| "recordKind_String endLine = ''end''"
| "recordKind_String hndlLine = ''hndl''"
| "recordKind_String noteLine = ''note''"
| "recordKind_String preOpLine = ''preOp''"
| "recordKind_String postOpLine = ''postOp''"

record logRec =
  rkind :: recordKind
  rmid :: machID
  cid :: machID
  rcount :: int
  rip :: int
  act :: string
  rest :: string
  rnotes :: "string list"

record session =
  smid :: machID
  pid :: machID
  recs :: "logRec list"
  serr :: string
  extra :: "string \<rightharpoonup> string"
  unknown :: "string list"

type_synonym sessions = "machID \<rightharpoonup> session"

definition new_session :: "machID \<Rightarrow> session" where
  "new_session mid = \<lparr>smid = mid, pid = zeroMachID, recs = [], serr = '''', extra = Map.empty, unknown = []\<rparr>"

text \<open>\<open>ss.session(mid)\<close>: the sessions with that of \<open>mid\<close> among them.\<close>

definition session_in :: "machID \<Rightarrow> sessions \<Rightarrow> sessions" where
  "session_in mid ss = (case ss mid of None \<Rightarrow> ss(mid \<mapsto> new_session mid) | Some s \<Rightarrow> ss)"

definition on_session :: "machID \<Rightarrow> (session \<Rightarrow> session) \<Rightarrow> sessions \<Rightarrow> sessions" where
  "on_session mid f ss = (let ss = session_in mid ss in ss(mid \<mapsto> f (the (ss mid))))"

definition ss_extend :: "machID \<Rightarrow> string \<Rightarrow> sessions \<Rightarrow> sessions" where
  "ss_extend mid line = on_session mid (\<lambda>s. s\<lparr>unknown := unknown s @ [line]\<rparr>)"

subsection \<open>Patterns\<close>

definition digits :: re where "digits = Many 1 dec_digit"

text \<open>\<open>(\d+)\((\d+):(\d+)\)\<close>, and what follows it.\<close>

definition mid_re :: "re \<Rightarrow> re" where
  "mid_re p = Seq (Cap digits) (Seq (Lit ''('') (Seq (Cap digits) (Seq (Lit '':'') (Seq (Cap digits) (Seq (Lit '')'') p)))))"

definition midPat :: re where "midPat = mid_re (Lit '''')"

definition midLogPat :: re where
  "midLogPat =
     Seq (Alt (Seq (Many 1 word_char) (Seq (Lit ''.go:'') (Seq digits (Seq (Lit '':'') (Many 1 space_only))))) Bol)
       (mid_re (Seq (Many 1 space_only) (Cap (Many 1 any_char))))"

definition recPat :: re where
  "recPat =
     Seq (Lit ''#'') (Seq (Many 1 space_only) (Seq (Cap digits) (Seq (Many 1 space_only) (Seq (Cap (Many 1 any_char))
       (Seq (Many 1 space_only) (Seq (Lit ''@0x'') (Seq (Cap (Many 1 alnum))
         (Opt (Seq (Many 1 space_only) (Cap (Many 1 any_char)))))))))))"

definition markPat :: re where
  "markPat = Seq Bol (Seq (Cap (Alt (Lit ''+++'') (Alt (Lit ''==='') (Alt (Lit ''...'') (Lit ''>>>''))))) (Many 0 re_space))"

definition haltPat :: re where
  "haltPat = Seq (Lit ''HALT('') (Seq (Cap digits) (Lit '')''))"

subsection \<open>Parsing lines\<close>

definition mid_of :: "string list \<Rightarrow> machID" where
  "mid_of gs = (atoi (gs ! 0), atoi (gs ! 1), atoi (gs ! 2))"

text \<open>The id and the rest, if the line has them.\<close>

definition parseMidLog :: "string \<Rightarrow> (machID \<times> string) option" where
  "parseMidLog line = map_option (\<lambda>(gs, t). (mid_of gs, gs ! 3)) (FindSubmatch midLogPat line)"

definition blank_rec :: "machID \<Rightarrow> logRec" where
  "blank_rec mid =
     \<lparr>rkind = unknownLine, rmid = mid, cid = zeroMachID, rcount = 0, rip = 0, act = '''', rest = '''', rnotes = []\<rparr>"

definition parseRecord :: "machID \<Rightarrow> string \<Rightarrow> logRec" where
  "parseRecord mid s =
     (case FindSubmatch recPat s of
        None \<Rightarrow> (blank_rec mid)\<lparr>rkind := noteLine, rest := s\<rparr>
      | Some (gs, t) \<Rightarrow>
          (blank_rec mid)\<lparr>rcount := atoi (gs ! 0), act := TrimRight (gs ! 1), rip := parse_hex 0 (gs ! 2),
             rest := gs ! 3\<rparr>)"

text \<open>The parts that \<open>scanChildKV\<close> joins, and the last child that it found.\<close>

fun child_parts :: "machID \<Rightarrow> (string \<times> string) list \<Rightarrow> machID \<times> (string \<times> string) list" where
  "child_parts c [] = (c, [])"
| "child_parts c ((k, v) # kvs) =
     (if k = ''child'' then
        (case FindSubmatch midPat v of
           None \<Rightarrow> child_parts c kvs
         | Some (gs, t) \<Rightarrow>
             (let (c', ps) = child_parts (mid_of gs) kvs in (c', (k, machID_String (mid_of gs)) # ps)))
      else (let (c', ps) = child_parts c kvs in (c', (k, v) # ps)))"

definition scanChildKV :: "string \<Rightarrow> (machID \<times> string) option" where
  "scanChildKV s = map_option (\<lambda>kvs. let (c, ps) = child_parts zeroMachID kvs in (c, format_kvs ps)) (scanKVs s)"

definition handleEndKV :: "string \<times> string \<Rightarrow> session \<Rightarrow> session" where
  "handleEndKV kv s =
     (let (k, v) = kv in if k = ''err'' then s\<lparr>serr := v\<rparr> else s\<lparr>extra := (extra s)(k \<mapsto> v)\<rparr>)"

definition add_note :: "logRec \<Rightarrow> session \<Rightarrow> logRec \<times> session" where
  "add_note rec s =
     (let rec = (case FindSubmatch markPat (rest rec) of None \<Rightarrow> rec | Some (gs, t) \<Rightarrow> rec\<lparr>rest := t\<rparr>)
      in if recs s = [] then (rec, s\<lparr>recs := [rec]\<rparr>)
         else
           (let l = last (recs s)
            in (rec, s\<lparr>recs := butlast (recs s) @ [l\<lparr>rnotes := rnotes l @ [rest rec]\<rparr>]\<rparr>)))"

definition marked :: "string \<Rightarrow> logRec \<Rightarrow> session \<Rightarrow> (logRec \<times> session) option" where
  "marked mark rec s =
     (if mark = ''>>>'' then Some (rec\<lparr>rkind := preOpLine\<rparr>, s)
      else if mark = ''...'' then Some (rec\<lparr>rkind := postOpLine\<rparr>, s)
      else if mark = ''+++'' then
        map_option (\<lambda>(c, r). (rec\<lparr>rkind := copyLine, cid := c, rest := r\<rparr>, s)) (scanChildKV (rest rec))
      else if mark = ''==='' then
        (if act rec = ''Begin'' then Some (rec\<lparr>rkind := beginLine\<rparr>, s)
         else if act rec = ''End'' then
           map_option (\<lambda>kvs. (rec\<lparr>rkind := endLine\<rparr>, fold handleEndKV kvs s)) (scanKVs (rest rec))
         else if act rec = ''Handle'' then Some (rec\<lparr>rkind := hndlLine\<rparr>, s)
         else Some (rec, s))
      else Some (rec\<lparr>rkind := genericLine\<rparr>, s))"

text \<open>\<open>sess.add(rec)\<close>.\<close>

definition sess_add :: "logRec \<Rightarrow> session \<Rightarrow> (logRec \<times> session) option" where
  "sess_add rec s =
     (if rkind rec = noteLine then Some (add_note rec s)
      else
        map_option (\<lambda>(rec, s). (let rec = rec\<lparr>act := TrimSpace (act rec)\<rparr> in (rec, s\<lparr>recs := recs s @ [rec]\<rparr>)))
          (case FindSubmatch markPat (act rec) of
             None \<Rightarrow> Some (rec, s)
           | Some (gs, t) \<Rightarrow> marked (gs ! 0) (rec\<lparr>act := t\<rparr>) s))"

definition addCoCopyRec :: "logRec \<Rightarrow> session \<Rightarrow> session option" where
  "addCoCopyRec rec s =
     map_option
       (\<lambda>kvs. s\<lparr>pid := rmid rec, recs := recs s @ [rec\<lparr>rmid := cid rec, cid := zeroMachID,
          rest := format_kvs (map (\<lambda>(k, v). if k = ''child'' then (''parent'', machID_String (rmid rec)) else (k, v)) kvs)\<rparr>]\<rparr>)
       (scanKVs (rest rec))"

text \<open>
  The body of the loop of \<open>parseAll\<close>, on the session that is being read and all sessions: what a copy does
  to the session of the child, what a record leaves to the next lines, and the whole.
\<close>

definition copy_rec :: "logRec \<Rightarrow> sessions \<Rightarrow> sessions option" where
  "copy_rec rec ss =
     (if rkind rec = copyLine then
        (let ss = session_in (cid rec) ss
         in map_option (\<lambda>s. ss(cid rec \<mapsto> s)) (addCoCopyRec rec (the (ss (cid rec)))))
      else Some ss)"

definition line_done :: "string \<Rightarrow> machID \<Rightarrow> logRec \<Rightarrow> sessions \<Rightarrow> machID \<times> sessions" where
  "line_done line m rec ss =
     (case rkind rec of
        unknownLine \<Rightarrow> (m, ss_extend m (TrimRight line) ss)
      | hndlLine \<Rightarrow> (zeroMachID, ss)
      | _ \<Rightarrow> (rmid rec, ss))"

definition parse_line :: "string \<Rightarrow> machID \<times> sessions \<Rightarrow> (machID \<times> sessions) option" where
  "parse_line line ms =
     (let (m, ss) = ms
      in case parseMidLog line of
           None \<Rightarrow> Some (m, ss_extend m (TrimRight line) ss)
         | Some (mid, r) \<Rightarrow>
             (let ss = session_in mid ss
              in Option.bind (sess_add (parseRecord mid r) (the (ss mid))) (\<lambda>(rec, sess).
                   map_option (line_done line m rec) (copy_rec rec (ss(mid \<mapsto> sess))))))"

fun parse_lines :: "string list \<Rightarrow> machID \<times> sessions \<Rightarrow> (machID \<times> sessions) option" where
  "parse_lines [] cs = Some cs"
| "parse_lines (l # ls) cs = Option.bind (parse_line l cs) (parse_lines ls)"

definition parseAll :: "string list \<Rightarrow> sessions \<Rightarrow> sessions option" where
  "parseAll lines ss = map_option snd (parse_lines lines (zeroMachID, ss))"

definition parseSessions :: "string list \<Rightarrow> sessions option" where
  "parseSessions lines = parseAll lines Map.empty"

subsection \<open>Ancestors\<close>

text \<open>
  The loops of \<open>idPath\<close>, which both go from \<open>sess.pid\<close> up to the root: the ids on the way, the nearest first.
  A parent without a session is a nil pointer.
\<close>

fun ancestors :: "nat \<Rightarrow> sessions \<Rightarrow> machID \<Rightarrow> machID list outcome" where
  "ancestors 0 ss i = Timeout"
| "ancestors (Suc fuel) ss i =
     (if i = zeroMachID then Done []
      else
        (case ss i of
           None \<Rightarrow> Panic
         | Some s \<Rightarrow>
             (case ancestors fuel ss (pid s) of Done is \<Rightarrow> Done (i # is) | Panic \<Rightarrow> Panic | Timeout \<Rightarrow> Timeout)))"

definition idPath :: "nat \<Rightarrow> sessions \<Rightarrow> session \<Rightarrow> machID list outcome" where
  "idPath fuel ss sess =
     (case ancestors fuel ss (pid sess) of
        Done is \<Rightarrow> Done (rev is @ [smid sess]) | Panic \<Rightarrow> Panic | Timeout \<Rightarrow> Timeout)"

definition self_id :: "machID \<Rightarrow> int" where
  "self_id mid = snd (snd mid)"

definition path_string :: "machID \<Rightarrow> machID list \<Rightarrow> string" where
  "path_string mid ids =
     dec_int (fst mid) @ ''('' @ dec_int (self_id (hd ids)) @
       concat (map (\<lambda>i. '':'' @ dec_int (self_id i)) (tl ids)) @ '')''"

definition fullID :: "nat \<Rightarrow> sessions \<Rightarrow> session \<Rightarrow> string outcome" where
  "fullID fuel ss sess =
     (case idPath fuel ss sess of
        Done ids \<Rightarrow> Done (path_string (smid sess) ids) | Panic \<Rightarrow> Panic | Timeout \<Rightarrow> Timeout)"

text \<open>
  What \<open>sessionLog\<close> passes to \<open>logf\<close>, as far as it gets: the records of the ancestors, of each up to the copy
  that leads on, then its own records, and the extra values in the order \<open>extras\<close> of the range over the map.
  The errors of \<open>logf\<close> for notes are dropped.
\<close>

datatype log_item = LogRec logRec | LogNote string | LogExtra string

type_synonym ('e, 'w) logf = "log_item \<Rightarrow> 'w \<Rightarrow> 'e option \<times> 'w"

fun log_notes :: "('e, 'w) logf \<Rightarrow> string list \<Rightarrow> 'w \<Rightarrow> 'w" where
  "log_notes logf [] w = w"
| "log_notes logf (n # ns) w = log_notes logf ns (snd (logf (LogNote n) w))"

fun log_recs :: "('e, 'w) logf \<Rightarrow> (logRec \<Rightarrow> bool) \<Rightarrow> logRec list \<Rightarrow> 'w \<Rightarrow> 'e option \<times> 'w" where
  "log_recs logf stop [] w = (None, w)"
| "log_recs logf stop (r # rs) w =
     (if stop r then (None, w)
      else
        (case logf (LogRec r) w of
           (Some e, w) \<Rightarrow> (Some e, w)
         | (None, w) \<Rightarrow> log_recs logf stop rs (log_notes logf (rnotes r) w)))"

fun log_path :: "('e, 'w) logf \<Rightarrow> sessions \<Rightarrow> machID list \<Rightarrow> 'w \<Rightarrow> 'e option \<times> 'w" where
  "log_path logf ss (i # j # ids) w =
     (case log_recs logf (\<lambda>r. rkind r = copyLine \<and> cid r = j) (recs (the (ss i))) w of
        (Some e, w) \<Rightarrow> (Some e, w) | (None, w) \<Rightarrow> log_path logf ss (j # ids) w)"
| "log_path logf ss ids w = (None, w)"

fun log_extras :: "('e, 'w) logf \<Rightarrow> string list \<Rightarrow> 'w \<Rightarrow> 'e option \<times> 'w" where
  "log_extras logf [] w = (None, w)"
| "log_extras logf (x # xs) w =
     (case logf (LogExtra x) w of (Some e, w) \<Rightarrow> (Some e, w) | (None, w) \<Rightarrow> log_extras logf xs w)"

definition sessionLog ::
  "nat \<Rightarrow> ('e, 'w) logf \<Rightarrow> string list \<Rightarrow> sessions \<Rightarrow> session \<Rightarrow> 'w \<Rightarrow> ('e option \<times> 'w) outcome" where
  "sessionLog fuel logf extras ss sess w =
     (case idPath fuel ss sess of
        Panic \<Rightarrow> Panic | Timeout \<Rightarrow> Timeout
      | Done ids \<Rightarrow> Done
          (case log_path logf ss ids w of
             (Some e, w) \<Rightarrow> (Some e, w)
           | (None, w) \<Rightarrow>
               (case log_recs logf (\<lambda>r. False) (recs sess) w of
                  (Some e, w) \<Rightarrow> (Some e, w) | (None, w) \<Rightarrow> log_extras logf extras w)))"

subsection \<open>Writing JSON\<close>

record 'f recDat =
  Kind :: string
  Action :: string
  Count :: int
  ripDat :: int
  Extra :: "string \<rightharpoonup> 'f parsed"
  Notes :: "string list"

record 'f sessDat =
  ID :: string
  ParentID :: "string option"
  Error :: string
  Records :: "'f recDat list"
  sExtra :: "string \<rightharpoonup> string"
  Unknown :: "string list"

fun parse_extra ::
  "(string \<Rightarrow> 'f option) \<Rightarrow> (string \<times> string) list \<Rightarrow> (string \<rightharpoonup> 'f parsed) \<Rightarrow> (string \<rightharpoonup> 'f parsed) option" where
  "parse_extra ParseFloat [] m = Some m"
| "parse_extra ParseFloat ((k, v) # kvs) m =
     (case parseValue ParseFloat v of None \<Rightarrow> None | Some x \<Rightarrow> parse_extra ParseFloat kvs (m(k \<mapsto> x)))"

text \<open>The conversion to \<open>int\<close> wraps.\<close>

definition wrap64 :: "int \<Rightarrow> int" where
  "wrap64 n = signed_take_bit 63 n"

definition rec_dat :: "(string \<Rightarrow> 'f option) \<Rightarrow> logRec \<Rightarrow> 'f recDat option" where
  "rec_dat ParseFloat r =
     Option.bind (scanKVs (rest r)) (\<lambda>kvs.
       map_option (\<lambda>m. \<lparr>Kind = recordKind_String (rkind r), Action = act r, Count = rcount r, ripDat = wrap64 (rip r),
           Extra = m, Notes = rnotes r\<rparr>)
         (parse_extra ParseFloat kvs
           (if cid r \<noteq> zeroMachID then [''child'' \<mapsto> PStr (machID_String (cid r))] else Map.empty)))"

definition toJSON :: "(string \<Rightarrow> 'f option) \<Rightarrow> session \<Rightarrow> 'f sessDat option" where
  "toJSON ParseFloat s =
     map_option (\<lambda>rs. \<lparr>ID = machID_String (smid s),
         ParentID = (if pid s \<noteq> zeroMachID then Some (machID_String (pid s)) else None),
         Error = serr s, Records = rs, sExtra = extra s, Unknown = unknown s\<rparr>)
       (all_some (rec_dat ParseFloat) (recs s))"

text \<open>A writer.\<close>

record ('e, 'w) writer =
  Write :: "string \<Rightarrow> 'w \<Rightarrow> 'e option \<times> 'w"
  wClose :: "'w \<Rightarrow> 'e option \<times> 'w"

text \<open>
  \<open>WriteSession\<close> of the \<open>jsonDumper\<close>; the flag is its field \<open>st\<close>.  The encoder, \<open>enc\<close>, gives the text of a session, or
  its error and writes nothing.
\<close>

definition WriteSession ::
  "(string \<Rightarrow> 'f option) \<Rightarrow> ('f sessDat \<Rightarrow> 'e + string) \<Rightarrow> ('e, 'w) writer \<Rightarrow> sessions \<Rightarrow> machID \<Rightarrow>
    bool \<times> 'w \<Rightarrow> ('e option \<times> bool \<times> 'w) outcome" where
  "WriteSession ParseFloat enc W ss mid jd =
     (let (st, w) = jd
      in if mid = zeroMachID then Done (None, st, w)
         else
           (let (e, w) = Write W (if st then '', '' else ''['' @ [CHR 0x0A] @ ''  '') w;
                st = (st \<or> e = None)
            in case e of
                 Some e \<Rightarrow> Done (Some e, st, w)
               | None \<Rightarrow>
                   (case ss mid of
                      None \<Rightarrow> Panic
                    | Some s \<Rightarrow>
                        (case toJSON ParseFloat s of
                           None \<Rightarrow> Panic
                         | Some d \<Rightarrow>
                             (case enc d of
                                Inl e \<Rightarrow> Done (Some e, st, w)
                              | Inr x \<Rightarrow> (let (e, w) = Write W x w in Done (e, st, w)))))))"

definition json_Close :: "('e, 'w) writer \<Rightarrow> bool \<times> 'w \<Rightarrow> 'e option \<times> 'w" where
  "json_Close W jd =
     (let (st, w) = jd;
          (e, w) = (if st then Write W ('']'' @ [CHR 0x0A]) w else (None, w));
          (ce, w) = wClose W w
      in (if e = None then ce else e, w))"

subsection \<open>The command\<close>

text \<open>\<open>intsetFlag.Set\<close> keeps what it has read when it fails.\<close>

fun split_comma :: "string \<Rightarrow> string list" where
  "split_comma [] = [[]]"
| "split_comma (c # cs) =
     (if c = CHR '','' then [] # split_comma cs
      else (case split_comma cs of [] \<Rightarrow> [[c]] | w # ws \<Rightarrow> (c # w) # ws))"

definition Atoi :: "string \<Rightarrow> int option" where
  "Atoi = ParseInt"

fun set_codes :: "string list \<Rightarrow> int set \<Rightarrow> bool \<times> int set" where
  "set_codes [] ns = (True, ns)"
| "set_codes (s # ss) ns = (case Atoi s of None \<Rightarrow> (False, ns) | Some n \<Rightarrow> set_codes ss (insert n ns))"

definition intset_Set :: "string \<Rightarrow> int set \<Rightarrow> bool \<times> int set" where
  "intset_Set s ns = set_codes (split_comma s) ns"

text \<open>Whether \<open>main\<close> writes a session: not if it halted with a code to ignore.\<close>

definition kept_session :: "int set \<Rightarrow> session \<Rightarrow> bool" where
  "kept_session ign s =
     (case FindSubmatch haltPat (serr s) of None \<Rightarrow> True | Some (gs, t) \<Rightarrow> atoi (gs ! 0) \<notin> ign)"

text \<open>The comparison of \<open>sort.Slice\<close>.\<close>

definition mid_less :: "machID \<Rightarrow> machID \<Rightarrow> bool" where
  "mid_less x y \<longleftrightarrow> fst x < fst y \<or> fst (snd x) < fst (snd y) \<or> snd (snd x) < snd (snd y)"

text \<open>The loop that writes the sessions, with \<open>Close\<close> after it, for a session writer.\<close>

fun write_all :: "(machID \<Rightarrow> 's \<Rightarrow> ('e option \<times> 's) outcome) \<Rightarrow> machID list \<Rightarrow> 's \<Rightarrow> ('e option \<times> 's) outcome" where
  "write_all wr [] st = Done (None, st)"
| "write_all wr (mid # mids) st =
     (case wr mid st of
        Done (Some e, st) \<Rightarrow> Done (Some e, st)
      | Done (None, st) \<Rightarrow> write_all wr mids st
      | Panic \<Rightarrow> Panic | Timeout \<Rightarrow> Timeout)"

definition write_sessions ::
  "(machID \<Rightarrow> 's \<Rightarrow> ('e option \<times> 's) outcome) \<Rightarrow> ('s \<Rightarrow> 'e option \<times> 'r) \<Rightarrow> machID list \<Rightarrow> 's \<Rightarrow> ('e option \<times> 'r) outcome" where
  "write_sessions wr cl mids st =
     (case write_all wr mids st of
        Done (e, st) \<Rightarrow> (let (ce, r) = cl st in Done (if e = None then ce else e, r))
      | Panic \<Rightarrow> Panic | Timeout \<Rightarrow> Timeout)"

subsection \<open>Parents\<close>

text \<open>Every session is at its own id, and the parent that it has is one of the sessions.\<close>

definition parented :: "sessions \<Rightarrow> bool" where
  "parented ss \<longleftrightarrow>
     (\<forall>mid s. ss mid = Some s \<longrightarrow> smid s = mid \<and> (pid s = zeroMachID \<or> ss (pid s) \<noteq> None))"

lemma parentedD: "parented ss \<Longrightarrow> ss mid = Some s \<Longrightarrow> smid s = mid \<and> (pid s = zeroMachID \<or> ss (pid s) \<noteq> None)"
  unfolding parented_def by blast

lemma parented_upd:
  assumes "parented ss" "smid s = mid" "pid s = zeroMachID \<or> pid s = mid \<or> ss (pid s) \<noteq> None"
  shows "parented (ss(mid \<mapsto> s))"
  unfolding parented_def
proof (intro allI impI)
  fix i t
  assume "(ss(mid \<mapsto> s)) i = Some t"
  then show "smid t = i \<and> (pid t = zeroMachID \<or> (ss(mid \<mapsto> s)) (pid t) \<noteq> None)"
    using parentedD [OF assms(1), of i t] assms(2,3) by (cases "i = mid") auto
qed

lemma parented_session: "parented ss \<Longrightarrow> parented (session_in mid ss)"
  unfolding session_in_def by (auto simp: new_session_def intro!: parented_upd split: option.split)

lemma session_in_ss: "session_in mid ss mid \<noteq> None" "ss i \<noteq> None \<Longrightarrow> session_in mid ss i \<noteq> None"
  by (auto simp: session_in_def split: option.split)

lemma parented_same:
  assumes "parented ss" "ss mid = Some s" "smid s' = smid s" "pid s' = pid s"
  shows "parented (ss(mid \<mapsto> s'))"
  using parentedD [OF assms(1,2)] assms(3,4) by (intro parented_upd [OF assms(1)]) auto

lemma parented_extend:
  assumes "parented ss"
  shows "parented (ss_extend mid line ss)"
proof -
  obtain s where s: "session_in mid ss mid = Some s" using session_in_ss(1) by fastforce
  show ?thesis unfolding ss_extend_def on_session_def Let_def s option.sel
    by (rule parented_same [OF parented_session [OF assms] s]) simp_all
qed

lemma handleEndKV_frame: "smid (fold handleEndKV kvs s) = smid s" "pid (fold handleEndKV kvs s) = pid s"
  by (induction kvs arbitrary: s) (auto simp: handleEndKV_def split: prod.split)

lemma sess_add_frame:
  assumes "sess_add rec s = Some (rec', s')"
  shows "smid s' = smid s" "pid s' = pid s" "rmid rec' = rmid rec"
proof -
  have m: "smid s' = smid s \<and> pid s' = pid s \<and> rmid r' = rmid r" if "marked k r s = Some (r', s')" for k r r' s'
    using that by (auto simp: marked_def handleEndKV_frame split: if_splits)
  have "smid s' = smid s \<and> pid s' = pid s \<and> rmid rec' = rmid rec"
  proof (cases "rkind rec = noteLine")
    case True
    then show ?thesis using assms by (auto simp: sess_add_def add_note_def Let_def split: option.splits if_splits)
  next
    case False
    then show ?thesis using assms by (auto simp: sess_add_def Let_def dest!: m split: option.splits)
  qed
  then show "smid s' = smid s" "pid s' = pid s" "rmid rec' = rmid rec" by simp_all
qed

lemma parseRecord_mid [simp]: "rmid (parseRecord mid s) = mid"
  by (simp add: parseRecord_def blank_rec_def split: option.split)

lemma parented_copy:
  assumes "parented ss" "ss (rmid rec) \<noteq> None" "addCoCopyRec rec (the (session_in (cid rec) ss (cid rec))) = Some s'"
  shows "parented ((session_in (cid rec) ss)(cid rec \<mapsto> s'))"
proof -
  let ?ss = "session_in (cid rec) ss"
  obtain s where s: "?ss (cid rec) = Some s" using session_in_ss(1) by fastforce
  have p: "parented ?ss" by (rule parented_session [OF assms(1)])
  have "smid s' = smid s" "pid s' = rmid rec" using assms(3) by (auto simp: addCoCopyRec_def s)
  moreover have "?ss (rmid rec) \<noteq> None" using assms(2) by (rule session_in_ss(2))
  ultimately show ?thesis using parentedD [OF p s] by (intro parented_upd [OF p]) auto
qed

lemma copy_rec_parented: "parented ss \<Longrightarrow> ss (rmid rec) \<noteq> None \<Longrightarrow> copy_rec rec ss = Some ss' \<Longrightarrow> parented ss'"
  by (auto simp: copy_rec_def Let_def parented_copy split: if_splits)

lemma line_done_parented: "parented ss \<Longrightarrow> line_done line m rec ss = (n, ss') \<Longrightarrow> parented ss'"
  by (auto simp: line_done_def parented_extend split: recordKind.splits)

lemma parse_line_parented:
  assumes "parented ss" "parse_line line (m0, ss) = Some (n0, ss')"
  shows "parented ss'"
proof (cases "parseMidLog line")
  case None
  then show ?thesis using assms by (auto simp: parse_line_def intro: parented_extend)
next
  case (Some mr)
  obtain mid r where mr: "mr = (mid, r)" by (cases mr)
  let ?ss = "session_in mid ss"
  obtain s where s: "?ss mid = Some s" using session_in_ss(1) by fastforce
  obtain rec sess ss1 where a: "sess_add (parseRecord mid r) s = Some (rec, sess)"
    and c: "copy_rec rec (?ss(mid \<mapsto> sess)) = Some ss1" and l: "line_done line m0 rec ss1 = (n0, ss')"
    using assms(2) Some mr s by (auto simp: parse_line_def Let_def bind_eq_Some_conv)
  note f = sess_add_frame [OF a]
  have "parented (?ss(mid \<mapsto> sess))" by (rule parented_same [OF parented_session [OF assms(1)] s f(1,2)])
  moreover have "(?ss(mid \<mapsto> sess)) (rmid rec) \<noteq> None" using f(3) by simp
  ultimately show ?thesis using copy_rec_parented [OF _ _ c] line_done_parented [OF _ l] by blast
qed

lemma parse_lines_parented:
  "parse_lines lines (m0, ss) = Some (n0, ss') \<Longrightarrow> parented ss \<Longrightarrow> parented ss'"
proof (induction lines arbitrary: m0 ss)
  case (Cons l ls)
  then obtain c s where "parse_line l (m0, ss) = Some (c, s)" "parse_lines ls (c, s) = Some (n0, ss')"
    by (auto simp: bind_eq_Some_conv)
  with Cons show ?case by (blast intro: parse_line_parented)
qed simp

lemma parseSessions_parented:
  assumes "parseSessions lines = Some ss"
  shows "parented ss"
proof -
  obtain m0 where "parse_lines lines (zeroMachID, Map.empty) = Some (m0, ss)"
    using assms by (auto simp: parseSessions_def parseAll_def)
  then show ?thesis by (rule parse_lines_parented) (simp add: parented_def)
qed

text \<open>A chain of ids: each is the parent of the next, and the first has none.\<close>

fun chain :: "sessions \<Rightarrow> machID \<Rightarrow> machID list \<Rightarrow> bool" where
  "chain ss p [] = True"
| "chain ss p (i # is) \<longleftrightarrow> (\<exists>s. ss i = Some s \<and> pid s = p) \<and> chain ss i is"

lemma chain_append: "chain ss p (is @ js) \<longleftrightarrow> chain ss p is \<and> chain ss (last (p # is)) js"
  by (induction "is" arbitrary: p) auto

lemma ancestors_parented:
  assumes "parented ss" "i = zeroMachID \<or> ss i \<noteq> None"
  shows "ancestors fuel ss i \<noteq> Panic \<and>
    (\<forall>is. ancestors fuel ss i = Done is \<longrightarrow> chain ss zeroMachID (rev is) \<and> last (zeroMachID # rev is) = i)"
  using assms(2)
proof (induction fuel arbitrary: i)
  case (Suc fuel)
  show ?case
  proof (cases "i = zeroMachID")
    case False
    then obtain s where s: "ss i = Some s" using Suc.prems by auto
    then have "pid s = zeroMachID \<or> ss (pid s) \<noteq> None" using parentedD [OF assms(1)] by blast
    note ih = Suc.IH [OF this]
    show ?thesis using ih False s by (auto simp: chain_append split: outcome.split)
  qed simp
qed simp

lemma idPath_chain:
  assumes "parented ss" "ss mid = Some sess"
  shows "idPath fuel ss sess \<noteq> Panic \<and>
    (\<forall>ids. idPath fuel ss sess = Done ids \<longrightarrow> chain ss zeroMachID ids \<and> last ids = mid)"
proof -
  have s: "smid sess = mid" "pid sess = zeroMachID \<or> ss (pid sess) \<noteq> None" using parentedD [OF assms] by simp_all
  from ancestors_parented [OF assms(1) s(2), of fuel] show ?thesis
    using assms(2) s(1) by (auto simp: idPath_def chain_append split: outcome.split)
qed

text \<open>
  C35: the ancestors of every session of every log are sessions: \<open>idPath\<close> finds no nil pointer on its way, and
  what it returns is the line of descent, from a machine without a parent to the session itself.
\<close>
theorem idPath_descent:
  assumes "parseSessions lines = Some ss" "ss mid = Some sess"
  shows "idPath fuel ss sess \<noteq> Panic \<and>
    (\<forall>ids. idPath fuel ss sess = Done ids \<longrightarrow> chain ss zeroMachID ids \<and> last ids = mid)"
  by (rule idPath_chain [OF parseSessions_parented [OF assms(1)] assms(2)])

text \<open>A log of one copy.\<close>

definition copy_line :: string where
  "copy_line = ''1(0:1) # 7 +++ Copy @0x9 a=b child=1(1:2)''"

definition copied :: logRec where
  "copied = (blank_rec (1, 0, 1))\<lparr>rkind := copyLine, cid := (1, 1, 2), rcount := 7, rip := 9, act := ''Copy'',
     rest := ''a=b child=1(1:2)''\<rparr>"

definition copied_sessions :: sessions where
  "copied_sessions =
     [(1, 0, 1) \<mapsto> (new_session (1, 0, 1))\<lparr>recs := [copied]\<rparr>,
      (1, 1, 2) \<mapsto> (new_session (1, 1, 2))\<lparr>pid := (1, 0, 1),
        recs := [copied\<lparr>rmid := (1, 1, 2), cid := zeroMachID, rest := ''a=b parent=1(0:1)''\<rparr>]\<rparr>]"

lemma copy_line_parts:
  "parseMidLog copy_line = Some ((1, 0, 1), ''# 7 +++ Copy @0x9 a=b child=1(1:2)'')"
  "FindSubmatch recPat ''# 7 +++ Copy @0x9 a=b child=1(1:2)'' = Some ([''7'', ''+++ Copy'', ''9'', ''a=b child=1(1:2)''], '''')"
  "FindSubmatch markPat ''+++ Copy'' = Some ([''+++''], ''Copy'')"
  "scanChildKV ''a=b child=1(1:2)'' = Some ((1, 1, 2), ''a=b child=1(1:2)'')"
  "scanKVs ''a=b child=1(1:2)'' = Some [(''a'', ''b''), (''child'', ''1(1:2)'')]"
  "atoi ''7'' = 7" "hex_val (CHR ''9'') = 9" "TrimRight ''+++ Copy'' = ''+++ Copy''" "TrimSpace ''Copy'' = ''Copy''"
  "machID_String (1, 0, 1) = ''1(0:1)''"
  by code_simp+

lemma copy_line_sessions: "parseSessions [copy_line] = Some copied_sessions"
proof -
  have "parseRecord (1, 0, 1) ''# 7 +++ Copy @0x9 a=b child=1(1:2)'' =
      (blank_rec (1, 0, 1))\<lparr>rcount := 7, act := ''+++ Copy'', rip := 9, rest := ''a=b child=1(1:2)''\<rparr>"
    by (simp add: parseRecord_def copy_line_parts)
  then have "sess_add (parseRecord (1, 0, 1) ''# 7 +++ Copy @0x9 a=b child=1(1:2)'') (new_session (1, 0, 1)) =
      Some (copied, (new_session (1, 0, 1))\<lparr>recs := [copied]\<rparr>)"
    by (simp add: sess_add_def marked_def copy_line_parts blank_rec_def copied_def new_session_def Let_def)
  then show ?thesis
    by (simp add: parseSessions_def parseAll_def parse_line_def copy_line_parts session_in_def copy_rec_def addCoCopyRec_def
        line_done_def copied_def blank_rec_def copied_sessions_def new_session_def Let_def zeroMachID_def)
qed

definition descending :: "sessions \<Rightarrow> bool" where
  "descending ss \<longleftrightarrow>
     (\<forall>mid s. ss mid = Some s \<longrightarrow> pid s \<noteq> zeroMachID \<longrightarrow> 0 \<le> self_id (pid s) \<and> self_id (pid s) < self_id mid)"

lemma ancestors_descending:
  assumes "parented ss" "descending ss"
  shows "i = zeroMachID \<and> 0 < fuel \<or> ss i \<noteq> None \<and> nat (self_id i) + 1 < fuel \<and> 0 \<le> self_id i \<Longrightarrow>
    \<exists>is. \<forall>k \<ge> fuel. ancestors k ss i = Done is"
proof (induction fuel arbitrary: i)
  case (Suc fuel)
  show ?case
  proof (cases "i = zeroMachID")
    case True
    then have "ancestors k ss i = Done []" if "Suc fuel \<le> k" for k using that by (cases k) simp_all
    then show ?thesis by blast
  next
    case False
    then obtain s where s: "ss i = Some s" and n: "nat (self_id i) + 1 < Suc fuel" "0 \<le> self_id i" using Suc.prems by auto
    have "pid s = zeroMachID \<and> 0 < fuel \<or> ss (pid s) \<noteq> None \<and> nat (self_id (pid s)) + 1 < fuel \<and> 0 \<le> self_id (pid s)"
      using parentedD [OF assms(1) s] assms(2) s n unfolding descending_def by (cases "pid s = zeroMachID") fastforce+
    from Suc.IH [OF this] obtain "is" where "\<forall>k \<ge> fuel. ancestors k ss (pid s) = Done is" by blast
    then have "ancestors k ss i = Done (i # is)" if "Suc fuel \<le> k" for k using that False s by (cases k) simp_all
    then show ?thesis by blast
  qed
qed auto

lemma idPath_fuel:
  assumes "parented ss" "descending ss" "ss mid = Some sess"
  shows "\<exists>ids. \<forall>fuel > nat (self_id mid) + 1. idPath fuel ss sess = Done ids"
proof -
  have "pid sess = zeroMachID \<and> 0 < nat (self_id mid) + 2 \<or>
      ss (pid sess) \<noteq> None \<and> nat (self_id (pid sess)) + 1 < nat (self_id mid) + 2 \<and> 0 \<le> self_id (pid sess)"
    using parentedD [OF assms(1,3)] assms(2,3) unfolding descending_def by (cases "pid sess = zeroMachID") fastforce+
  from ancestors_descending [OF assms(1,2) this] obtain "is"
    where "\<forall>k \<ge> nat (self_id mid) + 2. ancestors k ss (pid sess) = Done is" by blast
  then show ?thesis by (intro exI [of _ "rev is @ [smid sess]"]) (simp add: idPath_def)
qed

text \<open>
  C36: \<open>idPath\<close> ends for every session, if only children have greater ids than their parents, as the machines
  that the id tracer names have.
\<close>
theorem idPath_ends:
  assumes "parseSessions lines = Some ss" "ss mid = Some sess" "descending ss"
  shows "\<exists>ids. \<forall>fuel > nat (self_id mid) + 1. idPath fuel ss sess = Done ids"
  by (rule idPath_fuel [OF parseSessions_parented [OF assms(1)] assms(3,2)])

text \<open>
  A log can make the tool hang: a machine that is its own child is its own parent, and \<open>idPath\<close>
  never comes to an end.
\<close>
theorem own_child_hangs:
  "\<exists>ss sess. parseSessions [''1(0:1) # 7 +++ Copy @0x9 child=1(0:1)''] = Some ss \<and> ss (1, 0, 1) = Some sess \<and>
    (\<forall>fuel. idPath fuel ss sess = Timeout)"
proof -
  have "case parseSessions [''1(0:1) # 7 +++ Copy @0x9 child=1(0:1)''] of
      None \<Rightarrow> False | Some ss \<Rightarrow> (case ss (1, 0, 1) of None \<Rightarrow> False | Some sess \<Rightarrow> pid sess = (1, 0, 1))" by code_simp
  then obtain ss sess where s: "parseSessions [''1(0:1) # 7 +++ Copy @0x9 child=1(0:1)''] = Some ss"
    "ss (1, 0, 1) = Some sess" "pid sess = (1, 0, 1)" by (auto split: option.splits)
  have "ancestors fuel ss (1, 0, 1) = Timeout" for fuel
    by (induction fuel) (simp_all add: s zeroMachID_def)
  with s show ?thesis by (auto simp: idPath_def)
qed

lemma copied_child: "\<exists>sess. copied_sessions (1, 1, 2) = Some sess \<and> pid sess = (1, 0, 1) \<and> smid sess = (1, 1, 2)"
  by (simp add: copied_sessions_def new_session_def)

lemma copied_path: "copied_sessions (1, 1, 2) = Some sess \<Longrightarrow> idPath 3 copied_sessions sess = Done [(1, 0, 1), (1, 1, 2)]"
  by (auto simp: idPath_def copied_sessions_def new_session_def zeroMachID_def numeral_3_eq_3)

theorem idPath_descent_witness:
  "\<exists>sess. copied_sessions (1, 1, 2) = Some sess \<and> chain copied_sessions zeroMachID [(1, 0, 1), (1, 1, 2)]"
proof -
  obtain sess where s: "copied_sessions (1, 1, 2) = Some sess" using copied_child by blast
  from idPath_descent [OF copy_line_sessions s, of 3] copied_path [OF s] s show ?thesis by simp
qed

theorem idPath_ends_witness:
  "\<exists>sess ids. copied_sessions (1, 1, 2) = Some sess \<and> idPath 4 copied_sessions sess = Done ids"
proof -
  obtain sess where s: "copied_sessions (1, 1, 2) = Some sess" using copied_child by blast
  have "descending copied_sessions"
    by (auto simp: descending_def copied_sessions_def new_session_def zeroMachID_def self_id_def split: if_splits)
  from idPath_ends [OF copy_line_sessions s this] s show ?thesis by (auto simp: self_id_def)
qed

text \<open>
  The comparison that \<open>main\<close> sorts the ids with is no order: of two ids each can be less than the other.
\<close>
theorem mid_less_cycle: "\<exists>x y. mid_less x y \<and> mid_less y x"
  by (intro exI [of _ "(0, 1, 0)"] exI [of _ "(1, 0, 0)"]) (simp add: mid_less_def)

subsection \<open>The JSON text\<close>

text \<open>A writer to a buffer.\<close>

definition buffer :: "('e, string) writer" where
  "buffer = \<lparr>Write = \<lambda>x w. (None, w @ x), wClose = \<lambda>w. (None, w)\<rparr>"

fun json_items :: "bool \<Rightarrow> string list \<Rightarrow> string" where
  "json_items st [] = ''''"
| "json_items st (x # xs) = (if st then '', '' else ''['' @ [CHR 0x0A] @ ''  '') @ x @ json_items True xs"

definition json_text :: "string list \<Rightarrow> string" where
  "json_text xs = json_items False xs @ (if xs = [] then '''' else '']'' @ [CHR 0x0A])"

text \<open>What the encoder gives of the values before the first that it refuses, and its error.\<close>

fun encoded :: "('d \<Rightarrow> 'e + string) \<Rightarrow> 'd list \<Rightarrow> string list \<times> 'e option" where
  "encoded enc [] = ([], None)"
| "encoded enc (d # ds) =
     (case enc d of Inl e \<Rightarrow> ([], Some e) | Inr x \<Rightarrow> (let (xs, e) = encoded enc ds in (x # xs, e)))"

lemma encoded_all: "encoded (\<lambda>d. Inr (f d)) ds = (map f ds, None)"
  by (induction ds) simp_all

text \<open>What is in the buffer then: the separator before the refused value is there.\<close>

fun json_open :: "bool \<Rightarrow> string list \<times> 'e option \<Rightarrow> string" where
  "json_open st (xs, None) = json_items st xs"
| "json_open st (xs, Some e) = json_items st (xs @ [''''])"

lemma json_open_Cons:
  "json_open st (x # xs, e) = (if st then '', '' else ''['' @ [CHR 0x0A] @ ''  '') @ x @ json_open True (xs, e)"
  by (cases e) simp_all

lemma write_all_json:
  "list_all (\<lambda>mid. ss mid \<noteq> None) (filter (\<lambda>mid. mid \<noteq> zeroMachID) mids) \<Longrightarrow>
    all_some (\<lambda>mid. toJSON pf (the (ss mid))) (filter (\<lambda>mid. mid \<noteq> zeroMachID) mids) = Some ds \<Longrightarrow>
    write_all (WriteSession pf enc (buffer :: ('e, string) writer) ss) mids (st, w) =
      Done (snd (encoded enc ds), st \<or> ds \<noteq> [], w @ json_open st (encoded enc ds))"
proof (induction mids arbitrary: st w ds)
  case (Cons mid mids)
  show ?case
  proof (cases "mid = zeroMachID")
    case True
    then have "WriteSession pf enc (buffer :: ('e, string) writer) ss mid (st, w) = Done (None, st, w)"
      by (simp add: WriteSession_def)
    then show ?thesis using Cons.IH [of ds st w] Cons.prems True by simp
  next
    case z: False
    obtain s where s: "ss mid = Some s" using Cons.prems(1) z by auto
    then obtain d ds' where d: "toJSON pf s = Some d"
      "all_some (\<lambda>mid. toJSON pf (the (ss mid))) (filter (\<lambda>mid. mid \<noteq> zeroMachID) mids) = Some ds'" "ds = d # ds'"
      using Cons.prems(2) z by (auto split: option.splits)
    let ?sep = "if st then '', '' else ''['' @ [CHR 0x0A] @ ''  ''"
    have w: "WriteSession pf enc (buffer :: ('e, string) writer) ss mid (st, w) = (case enc d of
        Inl e \<Rightarrow> Done (Some e, True, w @ ?sep) | Inr x \<Rightarrow> Done (None, True, w @ ?sep @ x))"
      using z s d(1) by (simp add: WriteSession_def buffer_def Let_def split: sum.split)
    have "list_all (\<lambda>mid. ss mid \<noteq> None) (filter (\<lambda>mid. mid \<noteq> zeroMachID) mids)" using Cons.prems(1) z by simp
    note IH = Cons.IH [OF this d(2)]
    show ?thesis
    proof (cases "enc d")
      case (Inl e)
      then show ?thesis by (simp add: w d(3))
    next
      case (Inr x)
      then show ?thesis using IH [of True "w @ ?sep @ x"]
        by (cases "encoded enc ds'") (simp add: w d(3) json_open_Cons)
    qed
  qed
qed simp

lemma json_Close_buffer: "json_Close buffer (st, w) = (None, w @ (if st then '']'' @ [CHR 0x0A] else ''''))"
  by (simp add: json_Close_def buffer_def)

lemma encoded_none: "ds = [] \<longleftrightarrow> encoded enc ds = ([], None)"
  by (cases ds) (auto split: sum.split prod.split)

text \<open>
  C37: what the JSON dumper writes of sessions whose records can be scanned.  If the encoder takes them all, it is one
  array of their texts, in their order, without the session that has no id, and nothing at all, not an empty array, when
  there is no other.  If it refuses one (as Go's does, of a value that was parsed as an infinite number), the
  dump ends there with its error, behind a separator, and what is written is closed all the same.
\<close>
theorem json_array:
  assumes "list_all (\<lambda>mid. ss mid \<noteq> None) (filter (\<lambda>mid. mid \<noteq> zeroMachID) mids)"
    "all_some (\<lambda>mid. toJSON pf (the (ss mid))) (filter (\<lambda>mid. mid \<noteq> zeroMachID) mids) = Some ds"
  shows "write_sessions (WriteSession pf enc buffer ss) (json_Close buffer) mids (False, '''') =
    (case encoded enc ds of
       (xs, None) \<Rightarrow> Done (None, json_text xs)
     | (xs, Some e) \<Rightarrow> Done (Some e, json_items False (xs @ ['''']) @ '']'' @ [CHR 0x0A]))"
proof (cases "encoded enc ds")
  case (Pair xs e)
  have "ds = [] \<longleftrightarrow> xs = [] \<and> e = None" using encoded_none [of ds enc] Pair by simp
  then show ?thesis unfolding write_sessions_def write_all_json [OF assms] Pair
    by (cases e) (auto simp: json_text_def json_Close_buffer)
qed

text \<open>An encoder that refuses the sessions with a parent.\<close>

definition roots_only :: "'f sessDat \<Rightarrow> string + string" where
  "roots_only d = (if ParentID d = None then Inr (ID d) else Inl ''unsupported'')"

theorem json_array_witness:
  "write_sessions (WriteSession (\<lambda>s. None :: int option) (\<lambda>d. Inr (ID d)) buffer copied_sessions) (json_Close buffer)
      [zeroMachID, (1, 0, 1), (1, 1, 2)] (False, '''') =
    Done (None :: unit option, ''['' @ [CHR 0x0A] @ ''  1(0:1), 1(1:2)]'' @ [CHR 0x0A]) \<and>
  write_sessions (WriteSession (\<lambda>s. None :: int option) roots_only buffer copied_sessions) (json_Close buffer)
      [(1, 0, 1), (1, 1, 2)] (False, '''') =
    Done (Some ''unsupported'', ''['' @ [CHR 0x0A] @ ''  1(0:1), ]'' @ [CHR 0x0A])"
proof -
  let ?f = "\<lambda>mid. toJSON (\<lambda>s. None :: int option) (the (copied_sessions mid))" and ?mids = "[(1, 0, 1), (1, 1, 2)] :: machID list"
  have "case all_some ?f ?mids of Some [d, d'] \<Rightarrow> ID d = ''1(0:1)'' \<and> ParentID d = None \<and> ID d' = ''1(1:2)'' \<and> ParentID d' \<noteq> None | _ \<Rightarrow> False"
    by code_simp
  then obtain d d' where ds: "all_some ?f ?mids = Some [d, d']" "ID d = ''1(0:1)''" "ParentID d = None" "ID d' = ''1(1:2)''" "ParentID d' \<noteq> None"
    by (auto split: option.splits list.splits)
  have f: "filter (\<lambda>mid. mid \<noteq> zeroMachID) (zeroMachID # ?mids) = ?mids" "filter (\<lambda>mid. mid \<noteq> zeroMachID) ?mids = ?mids"
    by (simp_all add: zeroMachID_def)
  have l: "list_all (\<lambda>mid. copied_sessions mid \<noteq> None) ?mids" by (simp add: copied_sessions_def)
  note j = json_array [of copied_sessions _ "\<lambda>s. None :: int option" "[d, d']"]
  show ?thesis
    using j [of "zeroMachID # ?mids" "\<lambda>d. Inr (ID d)"] j [of ?mids roots_only] l ds(2-)
    unfolding f ds(1) by (simp add: roots_only_def json_text_def)
qed

end
