(* ===== verification/LogLines.thy ===== *)
theory LogLines
  imports LogTracer Tracelog
begin

text \<open>
  The log tracer and the log tool together: what \<open>x/tracer/log.go\<close> writes, \<open>tools/tracelog\<close> reads back, but
  for two kinds of lines.
\<close>

subsection \<open>Numbers\<close>

lemma dec_string_simps:
  "dec_string n = (if n < 10 then [char_of (48 + n)] else dec_string (n div 10) @ [char_of (48 + n mod 10)])"
proof -
  have u: "unat (of_nat (48 + k) :: u8) = 48 + k" if "k < 10" for k
    using that by (simp only: unsigned_of_nat) (simp add: take_bit_nat_eq_self)
  show ?thesis
    unfolding dec_string_def by (subst decimal.simps) (simp add: u del: of_nat_add)
qed

lemma of_char_int: "n < 256 \<Longrightarrow> (of_char (char_of n) :: int) = int n"
proof -
  assume "n < 256"
  then have "(of_char (char_of n) :: nat) = n" by simp
  moreover have "int (of_char c) = of_char c" for c by (rule of_nat_of_char)
  ultimately show ?thesis by metis
qed

lemma of_char_digit [simp]: "d < 10 \<Longrightarrow> (of_char (char_of (48 + d :: nat)) :: int) = 48 + int d"
  by (simp add: of_char_int del: of_char_of)

lemma digits_val_snoc: "digits_val (s @ [c]) = 10 * digits_val s + (of_char c - 48)"
  by (simp add: digits_val_def)

lemma dec_string_digits: "list_all dec_digit (dec_string n)" "dec_string n \<noteq> []" "digits_val (dec_string n) = int n"
proof -
  have "list_all dec_digit (dec_string n) \<and> dec_string n \<noteq> [] \<and> digits_val (dec_string n) = int n"
  proof (induction n rule: less_induct)
    case (less n)
    show ?case
    proof (cases "n < 10")
      case True
      then show ?thesis by (subst (1 2 3) dec_string_simps) (simp add: dec_digit_def digits_val_def)
    next
      case False
      then have ih: "list_all dec_digit (dec_string (n div 10)) \<and> digits_val (dec_string (n div 10)) = int (n div 10)"
        using less.IH [of "n div 10"] by simp
      have e: "dec_string n = dec_string (n div 10) @ [char_of (48 + n mod 10)]" using False by (subst dec_string_simps) simp
      have "10 * int (n div 10) + int (n mod 10) = int n" by (simp flip: of_nat_mult of_nat_add add: zdiv_int zmod_int)
      moreover have "n mod 10 < 10" by simp
      then have "dec_digit (char_of (48 + n mod 10))" "(of_char (char_of (48 + n mod 10)) :: int) = 48 + int (n mod 10)"
        by (auto simp: dec_digit_def simp del: of_char_of)
      ultimately show ?thesis unfolding e using ih by (simp add: digits_val_snoc del: of_char_of)
    qed
  qed
  then show "list_all dec_digit (dec_string n)" "dec_string n \<noteq> []" "digits_val (dec_string n) = int n" by simp_all
qed

lemma dec_int_nat: "0 \<le> n \<Longrightarrow> dec_int n = dec_string (nat n)"
  by (simp add: dec_int_def)

lemma atoi_dec: "0 \<le> n \<Longrightarrow> n < 2 ^ 63 \<Longrightarrow> atoi (dec_string (nat n)) = n"
  by (simp add: atoi_def dec_string_digits)

lemma spaced_dec_split:
  assumes "0 \<le> n"
  obtains k where "spaced_dec n = replicate (Suc k) (CHR '' '') @ dec_string (nat n)"
proof -
  have "spaced_dec n = replicate (4 - Suc (length (dec_string (nat n)))) (CHR '' '') @ '' '' @ dec_string (nat n)"
    using assms by (simp add: spaced_dec_def padl_def dec_int_nat)
  also have "\<dots> = replicate (Suc (4 - Suc (length (dec_string (nat n))))) (CHR '' '') @ dec_string (nat n)"
    by (simp add: replicate_app_Cons_same)
  finally show thesis by (rule that)
qed

definition hex_char :: "char \<Rightarrow> bool" where
  "hex_char c \<longleftrightarrow> alnum c \<and> 0 \<le> hex_val c \<and> hex_val c < 16"

lemma hex_digit_char: "d < 16 \<Longrightarrow> hex_char (digit_char d) \<and> hex_val (digit_char d) = int d"
proof -
  assume "d < 16"
  then show ?thesis
    by (cases "d < 10") (auto simp: hex_char_def digit_char_def hex_val_def alnum_def dec_digit_def letter_def of_char_int Let_def
        simp del: of_char_of)
qed

definition hex_fold :: "int \<Rightarrow> string \<Rightarrow> int" where
  "hex_fold = foldl (\<lambda>n c. 16 * n + hex_val c)"

lemma hex_fold_ge: "list_all hex_char s \<Longrightarrow> 0 \<le> n \<Longrightarrow> n \<le> hex_fold n s"
proof (induction s arbitrary: n)
  case (Cons c s)
  then have "n \<le> 16 * n + hex_val c" "0 \<le> 16 * n + hex_val c" by (auto simp: hex_char_def)
  with Cons.IH [of "16 * n + hex_val c"] Cons.prems show ?case by (simp add: hex_fold_def)
qed (simp add: hex_fold_def)

lemma parse_hex_fold: "list_all hex_char s \<Longrightarrow> 0 \<le> n \<Longrightarrow> hex_fold n s < 2 ^ 60 \<Longrightarrow> parse_hex n s = hex_fold n s"
proof (induction s arbitrary: n)
  case (Cons c s)
  have c: "0 \<le> hex_val c" "hex_val c < 16" using Cons.prems(1) by (simp_all add: hex_char_def)
  have "16 * n + hex_val c \<le> hex_fold n (c # s)"
    using hex_fold_ge [of s "16 * n + hex_val c"] Cons.prems(1,2) c by (simp add: hex_fold_def)
  then have "n < 2 ^ 60" using Cons.prems(2,3) c by linarith
  with Cons.IH [of "16 * n + hex_val c"] Cons.prems c show ?case by (simp add: hex_fold_def)
qed (simp add: hex_fold_def)

lemma hex_digits_ok: "list_all hex_char (hex_digits n) \<and> hex_digits n \<noteq> [] \<and> hex_fold 0 (hex_digits n) = int n"
proof (induction n rule: hex_digits.induct)
  case (1 n)
  show ?case
  proof (cases "n < 16")
    case True
    then show ?thesis by (simp add: hex_digits.simps [of n] hex_digit_char hex_fold_def)
  next
    case False
    have "16 * int (n div 16) + int (n mod 16) = int n" by (simp flip: of_nat_mult of_nat_add add: zdiv_int zmod_int)
    with False 1 show ?thesis by (simp add: hex_digits.simps [of n] hex_digit_char hex_fold_def)
  qed
qed

lemma parse_hex_padded:
  "parse_hex 0 (padl w (CHR ''0'') (hex_digits (unat (a :: u32)))) = uint a"
  "list_all alnum (padl w (CHR ''0'') (hex_digits (unat a)))" "padl w (CHR ''0'') (hex_digits (unat a)) \<noteq> []"
proof -
  let ?s = "padl w (CHR ''0'') (hex_digits (unat a))"
  have "digit_char 0 = CHR ''0''" by code_simp
  then have z: "hex_char (CHR ''0'')" "hex_val (CHR ''0'') = 0" using hex_digit_char [of 0] by simp_all
  have h: "list_all hex_char ?s" using hex_digits_ok [of "unat a"] z(1) by (auto simp add: padl_def list_all_iff)
  have "hex_fold 0 (replicate k (CHR ''0'') @ s) = hex_fold 0 s" for k s by (induction k) (simp_all add: hex_fold_def z(2))
  then have f: "hex_fold 0 ?s = int (unat a)" using hex_digits_ok by (simp add: padl_def)
  have "uint a < 2 ^ 32" using unsigned_less [of a, where ?'a = int] by simp
  then show "parse_hex 0 ?s = uint a" using parse_hex_fold [OF h] f by simp
  show "list_all alnum ?s" using h by (simp add: list_all_iff hex_char_def)
  show "?s \<noteq> []" using hex_digits_ok by (simp add: padl_def)
qed


subsection \<open>Lines\<close>

lemma no_match_Many:
  "(\<And>j. j \<le> length (takeWhile P s) \<Longrightarrow> match_re q n (drop j s) = []) \<Longrightarrow> match_re (Seq (Many k P) q) n s = []"
  by auto

lemma no_match_head: "l \<noteq> [] \<Longrightarrow> s = [] \<or> hd s \<noteq> hd l \<Longrightarrow> match_re (Seq (Lit l) q) n s = []"
  by (cases s; cases l) auto

lemma no_match_absent: "c \<notin> set s \<Longrightarrow> match_re (Seq (Many k P) (Seq (Lit (c # l)) q)) n s = []"
  by (intro no_match_Many no_match_head) (auto, metis hd_in_set drop_eq_Nil in_set_dropD leD linorder_le_less_linear)

lemma no_match_other: "0 < k \<Longrightarrow> s = [] \<or> \<not> P (hd s) \<Longrightarrow> match_re (Seq (Many k P) q) n s = []"
  by (cases s) auto

lemma first_Alt_second:
  "match_re p n s = [] \<Longrightarrow> groups p = 0 \<Longrightarrow> match_re q n s = [([], s)] \<Longrightarrow> first_match (Seq (Alt p q) r) n s = first_match r n s"
  by (cases "match_re r n s") (auto simp: first_match_def)

lemma first_Opt: "first_match p n s = Some m \<Longrightarrow> first_match (Opt p) n s = Some m"
  by (auto simp: first_match_def split: list.splits)

lemma first_Opt_none: "match_re p n s = [] \<Longrightarrow> first_match (Opt p) n s = Some (replicate (groups p) [], s)"
  by (simp add: first_match_def)

lemma digits_word: "list_all dec_digit ds \<Longrightarrow> list_all word_char ds"
  by (simp add: list_all_iff word_char_def)

lemma dec_digit_not: "\<not> dec_digit (CHR ''('')" "\<not> dec_digit (CHR '':'')" "\<not> dec_digit (CHR '')'')" "\<not> dec_digit (CHR ''.'')"
  "\<not> dec_digit (CHR '' '')" "\<not> word_char (CHR ''('')"
  by (simp_all add: dec_digit_def word_char_def letter_def)

definition id_ok :: "machID \<Rightarrow> bool" where
  "id_ok mid \<longleftrightarrow> (let (a, b, c) = mid in 0 \<le> a \<and> a < 2 ^ 63 \<and> 0 \<le> b \<and> b < 2 ^ 63 \<and> 0 \<le> c \<and> c < 2 ^ 63)"

lemma first_digits:
  assumes "s = [] \<or> \<not> dec_digit (hd s)" "first_match q n s = Some (gs, t)"
  shows "first_match (Seq (Cap digits) q) n (dec_string k @ s) = Some (dec_string k # gs, t)"
proof -
  have "1 \<le> length (dec_string k)" using dec_string_digits(2) [of k] by (cases "dec_string k") simp_all
  then show ?thesis unfolding digits_def by (intro first_Cap_Many dec_string_digits assms)
qed

lemma first_mid:
  assumes "id_ok mid" "first_match p n s = Some (gs, t)"
  obtains ds where "first_match (mid_re p) n (mach_id_String mid @ s) = Some (ds @ gs, t)" "length ds = 3" "mid_of ds = mid"
proof -
  obtain a b c where mid: "mid = (a, b, c)" by (cases mid)
  let ?d = "\<lambda>n. dec_string (nat n)"
  have "first_match (mid_re p) n (?d a @ ''('' @ ?d b @ '':'' @ ?d c @ '')'' @ s) = Some (?d a # ?d b # ?d c # gs, t)"
    unfolding mid_re_def
    by (intro first_digits, simp add: dec_digit_not, subst first_Lit, intro first_digits, simp add: dec_digit_not, subst first_Lit,
        intro first_digits, simp add: dec_digit_not, subst first_Lit, rule assms(2))
  then have "first_match (mid_re p) n (mach_id_String mid @ s) = Some ([?d a, ?d b, ?d c] @ gs, t)"
    using assms(1) by (simp add: mid mach_id_String_def dec_int_nat id_ok_def)
  moreover have "mid_of [?d a, ?d b, ?d c] = mid" using assms(1) by (simp add: mid mid_of_def atoi_dec id_ok_def)
  ultimately show thesis by (intro that [of "[?d a, ?d b, ?d c]"]) simp_all
qed


lemma parseMidLog_ok:
  assumes "id_ok mid" "r \<noteq> []" "hd r \<noteq> CHR '' ''" "list_all any_char r"
  shows "parseMidLog (mach_id_String mid @ '' '' @ r) = Some (mid, r)"
proof -
  let ?s = "mach_id_String mid @ '' '' @ r" and ?q = "Seq digits (Seq (Lit '':'') (Many 1 space_only))"
  obtain a b c where mid: "mid = (a, b, c)" by (cases mid)
  define t where "t = dec_int b @ '':'' @ dec_int c @ '')'' @ '' '' @ r"
  have s: "?s = dec_string (nat a) @ CHR ''('' # t" using assms(1) by (simp add: mid t_def mach_id_String_def id_ok_def dec_int_nat)
  have tw: "takeWhile word_char ?s = dec_string (nat a)"
    unfolding s using digits_word [OF dec_string_digits(1), of "nat a"] by (simp add: takeWhile_append list_all_iff dec_digit_not)
  have "hd (drop j ?s) \<noteq> CHR ''.''" if j: "j \<le> length (dec_string (nat a))" for j
  proof (cases "j = length (dec_string (nat a))")
    case True
    then show ?thesis unfolding s by simp
  next
    case False
    then have "hd (drop j ?s) = dec_string (nat a) ! j" using j unfolding s by (simp add: hd_append hd_drop_conv_nth)
    moreover have "dec_digit (dec_string (nat a) ! j)" using False j dec_string_digits(1) [of "nat a"] by (simp add: list_all_length)
    ultimately show ?thesis using dec_digit_not(4) by metis
  qed
  then have none: "match_re (Seq (Many 1 word_char) (Seq (Lit ''.go:'') ?q)) (length ?s) ?s = []"
    by (intro no_match_Many no_match_head) (simp_all only: tw, simp_all)
  let ?p = "Seq (Many 1 space_only) (Cap (Many 1 any_char))"
  have "1 \<le> length r" using assms(2) by (cases r) simp_all
  then have r: "first_match (Cap (Many 1 any_char)) (length ?s) r = Some ([r], [])"
    using first_Cap_end [of any_char r 1 "[]" "length ?s"] assms(4) by simp
  have "first_match ?p (length ?s) ('' '' @ r) = Some ([r], [])"
    using assms(3) by (intro first_Many r) (simp_all add: space_only_def)
  then obtain ds where ds: "first_match (mid_re ?p) (length ?s) ?s = Some (ds @ [r], [])" "length ds = 3" "mid_of ds = mid"
    by (rule first_mid [OF assms(1)])
  have "first_match midLogPat (length ?s) ?s = Some (ds @ [r], [])"
    unfolding midLogPat_def by (subst first_Alt_second [OF none]) (simp add: digits_def, simp, rule ds(1))
  then have "FindSubmatch midLogPat ?s = Some (ds @ [r], [])" by (rule find_first)
  moreover have "mid_of (ds @ [r]) = mid" using ds(2,3) by (simp add: mid_of_def nth_append)
  ultimately show ?thesis using ds(2) by (simp add: parseMidLog_def nth_append)
qed

lemma alnum_not: "\<not> alnum (CHR ''@'')" "\<not> alnum (CHR 0x0A)" "\<not> alnum (CHR '' '')"
  by (simp_all add: alnum_def dec_digit_def letter_def)

lemma alnum_all: "list_all alnum s \<Longrightarrow> list_all any_char s \<and> CHR ''@'' \<notin> set s"
  using alnum_not by (induction s) (auto simp: any_char_def)

lemma space_all: "list_all space_only s \<Longrightarrow> list_all any_char s \<and> CHR ''@'' \<notin> set s"
  by (induction s) (auto simp: any_char_def space_only_def)

definition tail_ok :: "string \<Rightarrow> string \<Rightarrow> bool" where
  "tail_ok gap x \<longleftrightarrow> list_all space_only gap \<and> list_all any_char x \<and> CHR ''@'' \<notin> set x \<and>
     (if x = [] then length gap \<le> 1 else gap \<noteq> [] \<and> hd x \<noteq> CHR '' '')"

definition rest_re :: re where "rest_re = Opt (Seq (Many 1 space_only) (Cap (Many 1 any_char)))"

text \<open>What may stand behind the instruction pointer, and the text that the record has of it.\<close>

definition behind_ok :: "string \<Rightarrow> string \<Rightarrow> bool" where
  "behind_ok b x \<longleftrightarrow> list_all any_char b \<and> CHR ''@'' \<notin> set b \<and> (b = [] \<or> \<not> alnum (hd b)) \<and>
     (\<forall>n. \<exists>u. first_match rest_re n b = Some ([x], u))"

lemma tail_behind: "tail_ok gap x \<Longrightarrow> behind_ok (gap @ x) x"
proof -
  let ?opt = "Seq (Many 1 space_only) (Cap (Many 1 any_char))"
  assume t: "tail_ok gap x"
  have "\<exists>u. first_match (Opt ?opt) n (gap @ x) = Some ([x], u)" for n
  proof (cases "x = []")
    case True
    then have "match_re ?opt n (gap @ x) = []" using t by (auto simp: tail_ok_def length_Suc_conv le_Suc_eq space_only_def)
    then show ?thesis using True by (simp add: first_Opt_none)
  next
    case False
    then have g: "list_all space_only gap" "1 \<le> length gap" "1 \<le> length x" "\<not> space_only (hd x)" "list_all any_char x"
      using t by (auto simp: tail_ok_def space_only_def Suc_le_eq)
    have "first_match (Cap (Many 1 any_char)) n x = Some ([x], [])"
      using first_Cap_end [of any_char x 1 "[]"] g by simp
    then show ?thesis using g by (intro exI first_Opt first_Many) auto
  qed
  moreover have "gap @ x = [] \<or> hd (gap @ x) = CHR '' ''"
    using t by (cases gap) (auto simp: tail_ok_def space_only_def split: if_splits)
  then have "gap @ x = [] \<or> \<not> alnum (hd (gap @ x))" using alnum_not(3) by metis
  ultimately show ?thesis using space_all [of gap] t by (simp add: behind_ok_def rest_re_def tail_ok_def)
qed

lemma recPat_ok:
  assumes n: "0 \<le> n" and a: "a \<noteq> []" "list_all any_char a" "hd a \<noteq> CHR '' ''" "\<not> dec_digit (hd a)" and t: "behind_ok b x"
  shows "\<exists>u. FindSubmatch recPat (''#'' @ spaced_dec n @ '' '' @ a @ '' @'' @ hex_width 4 i @ b) =
    Some ([dec_string (nat n), a, padl 4 (CHR ''0'') (hex_digits (unat i)), x], u)"
proof -
  obtain k where k: "spaced_dec n = replicate (Suc k) (CHR '' '') @ dec_string (nat n)" using spaced_dec_split [OF n] .
  let ?h = "padl 4 (CHR ''0'') (hex_digits (unat i))"
  let ?s = "''#'' @ spaced_dec n @ '' '' @ a @ '' @'' @ hex_width 4 i @ b" let ?n = "length ?s"
  obtain u where u: "first_match rest_re ?n b = Some ([x], u)" using t unfolding behind_ok_def by blast
  have "1 \<le> length ?h" using parse_hex_padded(3) [of 4 i] by (cases ?h) simp_all
  then have 1: "first_match (Seq (Cap (Many 1 alnum)) rest_re) ?n (?h @ b) = Some ([?h, x], u)"
    using t by (intro first_Cap_Many parse_hex_padded u) (auto simp: behind_ok_def)
  let ?at = "Seq (Many 1 space_only) (Seq (Lit ''@0x'') (Seq (Cap (Many 1 alnum)) rest_re))"
  let ?b = "?h @ b"
  have 2: "first_match ?at ?n ('' '' @ ''@0x'' @ ?b) = Some ([?h, x], u)"
    by (rule first_Many, simp_all only: first_Lit 1) (simp_all add: space_only_def)
  have hb: "CHR ''@'' \<notin> set ?b \<and> list_all any_char ?b"
    using alnum_all [OF parse_hex_padded(2), of 4 i] t by (simp add: behind_ok_def)
  have 3: "match_re ?at ?n (drop j ('' '' @ ''@0x'' @ ?b)) = []" if "0 < j" for j
  proof (cases "j = 1")
    case True
    then show ?thesis by (intro no_match_other) (simp_all add: space_only_def)
  next
    case False
    with that obtain l where "j = Suc (Suc l)" by (metis One_nat_def gr0_implies_Suc not_gr0 Suc_lessI)
    then have "CHR ''@'' \<notin> set (drop j ('' '' @ ''@0x'' @ ?b))"
      using hb in_set_dropD [of "CHR ''@''" l "''0x'' @ ?b"] by auto
    then show ?thesis by (rule no_match_absent)
  qed
  have "list_all any_char (a @ '' '' @ ''@0x'' @ ?b)" using a(2) hb by (simp add: any_char_def)
  moreover have "1 \<le> length a" using a(1) by (cases a) simp_all
  ultimately have 4: "first_match (Seq (Cap (Many 1 any_char)) ?at) ?n (a @ '' '' @ ''@0x'' @ ?b) = Some ([a, ?h, x], u)"
    by (rule first_Cap_back) (simp_all only: 2 3)
  have 5: "first_match (Seq (Many 1 space_only) (Seq (Cap (Many 1 any_char)) ?at)) ?n ('' '' @ a @ '' '' @ ''@0x'' @ ?b) = Some ([a, ?h, x], u)"
    using a(1,3) by (intro first_Many 4) (simp_all add: space_only_def hd_append)
  have 6: "first_match (Seq (Cap digits) (Seq (Many 1 space_only) (Seq (Cap (Many 1 any_char)) ?at))) ?n
    (dec_string (nat n) @ '' '' @ a @ '' '' @ ''@0x'' @ ?b) = Some ([dec_string (nat n), a, ?h, x], u)"
    by (rule first_digits [OF _ 5]) (simp add: dec_digit_not)
  have "dec_digit (hd (dec_string (nat n)))"
    using dec_string_digits(1,2) [of "nat n"] by (simp add: list_all_iff)
  then have h: "\<not> space_only (hd (dec_string (nat n)))" using dec_digit_not(5) by (auto simp: space_only_def)
  have "first_match recPat ?n (''#'' @ replicate (Suc k) (CHR '' '') @ dec_string (nat n) @ '' '' @ a @ '' '' @ ''@0x'' @ ?b) =
    Some ([dec_string (nat n), a, ?h, x], u)"
    unfolding recPat_def rest_re_def [symmetric] first_Lit
    by (rule first_Many [OF _ _ _ 6]) (simp_all add: h dec_string_digits list_all_iff hd_append, simp add: space_only_def)
  then have "first_match recPat ?n ?s = Some ([dec_string (nat n), a, ?h, x], u)"
    by (simp add: k hex_width_def)
  then show ?thesis by (intro exI find_first)
qed


definition note_ok :: "string \<Rightarrow> bool" where
  "note_ok w \<longleftrightarrow> w \<noteq> [] \<and> list_all any_char w \<and> \<not> space_char (hd w) \<and> \<not> space_char (last w)"

definition log_marks :: "string list" where
  "log_marks = [''+++'', ''==='', ''...'', ''>>>'']"

definition mark_field :: "string \<Rightarrow> string \<Rightarrow> string" where
  "mark_field mark w = mark @ '' '' @ padl noteWidth (CHR '' '') w"

lemma mark_field_trim: "note_ok w \<Longrightarrow> TrimRight (mark_field mark w) = mark_field mark w"
proof -
  assume w: "note_ok w"
  then obtain c cs where c: "rev w = c # cs" "\<not> space_char c" by (cases "rev w") (auto simp: note_ok_def last_rev hd_rev)
  have "c \<notin> {CHR '' '', CHR 0x0D, CHR 0x0A}" using c(2) by (auto simp: space_char_def re_space_def)
  then show ?thesis
    using c(1) rev_swap [of w "c # cs"] by (simp add: TrimRight_def mark_field_def padl_def)
qed

lemma dropWhile_head: "s \<noteq> [] \<Longrightarrow> \<not> P (hd s) \<Longrightarrow> dropWhile P s = s"
  by (cases s) simp_all

lemma trim_note: "note_ok w \<Longrightarrow> TrimSpace w = w"
  using dropWhile_head [of w space_char] dropWhile_head [of "rev w" space_char] by (simp add: TrimSpace_def note_ok_def hd_rev)

definition mark_ok :: "string \<Rightarrow> bool" where
  "mark_ok mark \<longleftrightarrow> mark \<noteq> [] \<and> list_all any_char mark \<and> hd mark \<noteq> CHR '' '' \<and> \<not> dec_digit (hd mark)"

lemma mark_field_shape:
  assumes "mark_ok mark" "note_ok w"
  shows "mark_field mark w \<noteq> []" "list_all any_char (mark_field mark w)" "hd (mark_field mark w) \<noteq> CHR '' ''"
    "\<not> dec_digit (hd (mark_field mark w))"
proof -
  let ?sp = "'' '' @ replicate (noteWidth - length w) (CHR '' '')"
  have e: "mark_field mark w = mark @ ?sp @ w" by (simp add: mark_field_def padl_def)
  show "mark_field mark w \<noteq> []" "hd (mark_field mark w) \<noteq> CHR '' ''" "\<not> dec_digit (hd (mark_field mark w))"
    unfolding e using assms(1) by (simp_all add: mark_ok_def)
  show "list_all any_char (mark_field mark w)"
    unfolding e using assms space_all [of ?sp] by (auto simp: mark_ok_def note_ok_def list_all_iff space_only_def)
qed

lemma log_marks_ok: "mark = ''!!!'' \<or> mark \<in> set log_marks \<Longrightarrow> mark_ok mark"
  unfolding log_marks_def list.set insert_iff empty_iff by (elim disjE) (simp_all add: mark_ok_def any_char_def dec_digit_def)

lemma mark_field_mark:
  assumes "mark \<in> set log_marks" "note_ok w"
  shows "FindSubmatch markPat (mark_field mark w @ v) = Some ([mark], w @ v)"
proof -
  let ?sp = "'' '' @ replicate (noteWidth - length w) (CHR '' '')" and ?n = "length (mark_field mark w @ v)"
  have e: "mark_field mark w @ v = mark @ ?sp @ w @ v" by (simp add: mark_field_def padl_def)
  have "first_match (Many 0 re_space) ?n (?sp @ w @ v) = Some ([], w @ v)"
    using many_split [of re_space ?sp 0 "w @ v" ?n] assms(2)
    by (auto simp: first_match_def note_ok_def space_char_def re_space_def list_all_iff simp del: match_re.simps)
  then obtain ms where "match_re (Many 0 re_space) ?n (?sp @ w @ v) = ([], w @ v) # ms"
    by (auto simp: first_match_def simp del: match_re.simps split: list.splits)
  then have "first_match markPat ?n (mark @ ?sp @ w @ v) = Some ([mark], w @ v)"
    using assms(1) by (auto simp: first_match_def markPat_def e log_marks_def simp del: match_re.simps(2))
  then show ?thesis by (intro find_first) (simp add: e)
qed

text \<open>Another mark is not found: the pattern is bound to the start of the text.\<close>

lemma no_mark:
  assumes "hd s \<notin> hd ` set log_marks" "s \<noteq> []"
  shows "FindSubmatch markPat s = None"
proof -
  have late: "length t < n \<Longrightarrow> find_from markPat n t = None" for t n
    by (induction t) (simp_all add: markPat_def)
  obtain c cs where s: "s = c # cs" using assms(2) by (cases s) auto
  have "match_re markPat (length s) s = []" using assms(1) by (auto simp: s markPat_def log_marks_def)
  then show ?thesis by (simp add: FindSubmatch_def s late)
qed

lemma marked_act: "marked mark rec s = Some (rec', s') \<Longrightarrow> act rec' = act rec"
  by (auto simp: marked_def split: if_splits)

text \<open>The record that a line is read as, before its mark is looked at.\<close>

definition logged :: "machID \<Rightarrow> int \<Rightarrow> string \<Rightarrow> u32 \<Rightarrow> string \<Rightarrow> logRec" where
  "logged mid n what i x = (blank_rec mid)\<lparr>rcount := n, act := what, rip := uint i, rest := x\<rparr>"

definition line_rest :: "int \<Rightarrow> string \<Rightarrow> u32 \<Rightarrow> string \<Rightarrow> string" where
  "line_rest n a i behind = ''#'' @ spaced_dec n @ '' '' @ a @ '' @'' @ hex_width 4 i @ behind"

lemma logged_mid: "rmid (logged mid n what i x) = mid"
  by (simp add: logged_def blank_rec_def)

lemma split_record:
  assumes "id_ok mid" "0 \<le> n" "n < 2 ^ 63" and a: "a \<noteq> []" "list_all any_char a" "hd a \<noteq> CHR '' ''" "\<not> dec_digit (hd a)"
    and b: "behind_ok b x"
  shows "parseMidLog (mach_id_String mid @ '' '' @ line_rest n a i b) = Some (mid, line_rest n a i b)"
    "parseRecord mid (line_rest n a i b) = (logged mid n what i x)\<lparr>act := TrimRight a\<rparr>"
proof -
  let ?r = "line_rest n a i b"
  obtain u where u: "FindSubmatch recPat ?r = Some ([dec_string (nat n), a, padl 4 (CHR ''0'') (hex_digits (unat i)), x], u)"
    using recPat_ok [OF assms(2) a b] unfolding line_rest_def by blast
  obtain k where k: "spaced_dec n = replicate (Suc k) (CHR '' '') @ dec_string (nat n)" using spaced_dec_split [OF assms(2)] .
  have "list_all alnum (dec_string (nat n))" using dec_string_digits(1) [of "nat n"] by (simp add: list_all_iff alnum_def)
  then have "list_all any_char (spaced_dec n)"
    unfolding k using alnum_all space_all [of "replicate (Suc k) (CHR '' '')"] by (auto simp: list_all_iff space_only_def)
  then have "list_all any_char ?r"
    using a(2) b alnum_all [OF parse_hex_padded(2), of 4 i] by (simp add: line_rest_def behind_ok_def hex_width_def any_char_def)
  then show "parseMidLog (mach_id_String mid @ '' '' @ ?r) = Some (mid, ?r)"
    by (intro parseMidLog_ok assms(1)) (simp_all add: line_rest_def)
  show "parseRecord mid ?r = (logged mid n what i x)\<lparr>act := TrimRight a\<rparr>"
    unfolding parseRecord_def u
    by (simp add: logged_def blank_rec_def atoi_dec [OF assms(2,3)] parse_hex_padded(1))
qed

lemma line_record:
  assumes "id_ok mid" "0 \<le> n" "n < 2 ^ 63" "mark_ok mark" "note_ok what" "tail_ok gap x"
  shows "parseMidLog (log_line (mach_id_String mid) n mark what i (gap @ x)) =
      Some (mid, line_rest n (mark_field mark what) i (gap @ x))"
    "parseRecord mid (line_rest n (mark_field mark what) i (gap @ x)) =
      (logged mid n what i x)\<lparr>act := mark_field mark what\<rparr>"
proof -
  note split = split_record [OF assms(1-3) mark_field_shape [OF assms(4,5)] tail_behind [OF assms(6)]]
  show "parseMidLog (log_line (mach_id_String mid) n mark what i (gap @ x)) =
      Some (mid, line_rest n (mark_field mark what) i (gap @ x))"
    using split(1) [of i] by (simp add: log_line_def line_rest_def mark_field_def)
  show "parseRecord mid (line_rest n (mark_field mark what) i (gap @ x)) =
      (logged mid n what i x)\<lparr>act := mark_field mark what\<rparr>"
    using split(2) [of i what] by (simp add: mark_field_trim [OF assms(5)])
qed

lemma line_added:
  assumes "id_ok mid" "0 \<le> n" "n < 2 ^ 63" "mark \<in> set log_marks" "note_ok what" "tail_ok gap x"
  shows "sess_add (parseRecord mid (line_rest n (mark_field mark what) i (gap @ x))) s =
    map_option (\<lambda>(rec, s). (rec, s\<lparr>recs := recs s @ [rec]\<rparr>)) (marked mark (logged mid n what i x) s)"
  using line_record(2) [OF assms(1-3) log_marks_ok [OF disjI2 [OF assms(4)]] assms(5,6)] trim_note [OF assms(5)]
    marked_act [of mark "logged mid n what i x" s]
  by (cases "marked mark (logged mid n what i x) s")
    (auto simp: sess_add_def logged_def blank_rec_def mark_field_mark [OF assms(4,5), of "[]", simplified])

text \<open>
  C24: what the log tracer writes the log tool reads: of a line that \<open>note\<close> writes with one of the four marks
  that the tool knows, the tool finds the id of the machine, the count, the mark, the note, the instruction
  pointer and the text behind it, if that has no at sign.
\<close>
theorem log_line_parses:
  assumes "id_ok mid" "0 \<le> n" "n < 2 ^ 63" "mark \<in> set log_marks" "note_ok what" "tail_ok gap x"
  shows "\<exists>r. parseMidLog (log_line (mach_id_String mid) n mark what i (gap @ x)) = Some (mid, r) \<and>
    sess_add (parseRecord mid r) s =
      map_option (\<lambda>(rec, s). (rec, s\<lparr>recs := recs s @ [rec]\<rparr>)) (marked mark (logged mid n what i x) s)"
  using line_record(1) [OF assms(1-3) log_marks_ok [OF disjI2 [OF assms(4)]] assms(5,6)] line_added [OF assms] by blast


subsection \<open>Lost lines\<close>

definition clean :: "string \<Rightarrow> bool" where
  "clean w \<longleftrightarrow> list_all any_char w \<and> CHR ''@'' \<notin> set w"

lemma clean_simps [simp]: "clean []" "clean (c # w) \<longleftrightarrow> c \<noteq> CHR 0x0A \<and> c \<noteq> CHR ''@'' \<and> clean w"
  "clean (v @ w) \<longleftrightarrow> clean v \<and> clean w" "clean (if P then v else w) \<longleftrightarrow> (if P then clean v else clean w)"
  by (auto simp: clean_def any_char_def)

lemma clean_hex: "clean (padl 2 (CHR ''0'') (hex_digits n))"
proof -
  have "alnum (CHR ''0'')" by (simp add: alnum_def dec_digit_def)
  then have "list_all alnum (padl 2 (CHR ''0'') (hex_digits n))"
    using hex_digits_ok [of n] by (auto simp: padl_def list_all_iff hex_char_def)
  then show ?thesis unfolding clean_def by (rule alnum_all)
qed

lemma clean_if: "clean v \<Longrightarrow> clean w \<Longrightarrow> clean (if P then v else w)"
  by simp

lemma quote_char_clean: "c \<noteq> CHR ''@'' \<Longrightarrow> clean (quote_char c)"
proof (cases "c = CHR 0x0A")
  case True
  then show ?thesis by (simp add: quote_char_def)
next
  case False
  moreover assume "c \<noteq> CHR ''@''"
  ultimately have "clean [CHR 0x5C, c]" "clean [c]" by simp_all
  then show ?thesis
    unfolding quote_char_def Let_def
    by (intro clean_if) (simp_all only: clean_simps clean_hex, simp_all)
qed

lemma quote_clean: "CHR ''@'' \<notin> set s \<Longrightarrow> clean (quote s)"
proof -
  have "CHR ''@'' \<notin> set s \<Longrightarrow> clean (concat (map quote_char s))"
  proof (induction s)
    case (Cons c s)
    then have "clean (quote_char c)" by (intro quote_char_clean) auto
    moreover have "clean (concat (map quote_char s))" using Cons by simp
    ultimately show ?case by simp
  qed simp
  moreover assume "CHR ''@'' \<notin> set s"
  ultimately show ?thesis by (simp add: quote_def)
qed

lemma parse_unknown:
  assumes "parseMidLog line = Some (mid, r)" "\<And>s. sess_add (parseRecord mid r) s = Some (rec, s\<lparr>recs := recs s @ [rec]\<rparr>)"
    and "rkind rec = unknownLine"
  shows "\<exists>ss' sess s0. parse_line line (m0, ss) = Some (m0, ss') \<and>
    ss' mid = Some sess \<and> recs sess \<noteq> [] \<and> last (recs sess) = rec \<and>
    serr sess = (case ss mid of None \<Rightarrow> '''' | Some s \<Rightarrow> serr s) \<and>
    ss' m0 = Some s0 \<and> last (unknown s0) = TrimRight line"
proof -
  obtain s1 where s1: "session_in mid ss mid = Some s1" using session_in_ss(1) by fastforce
  then have e: "serr s1 = (case ss mid of None \<Rightarrow> '''' | Some s \<Rightarrow> serr s)"
    by (auto simp: session_in_def new_session_def split: option.splits)
  let ?s1 = "s1\<lparr>recs := recs s1 @ [rec]\<rparr>" let ?ss1 = "(session_in mid ss)(mid \<mapsto> ?s1)"
  obtain s0 where s0: "session_in m0 ?ss1 m0 = Some s0" using session_in_ss(1) by fastforce
  let ?s0 = "s0\<lparr>unknown := unknown s0 @ [TrimRight line]\<rparr>" let ?ss' = "(session_in m0 ?ss1)(m0 \<mapsto> ?s0)"
  have "parse_line line (m0, ss) = Some (m0, ?ss')"
    by (simp add: parse_line_def assms s1 copy_rec_def line_done_def ss_extend_def on_session_def s0 Let_def)
  moreover have "\<exists>sess. ?ss' mid = Some sess \<and> recs sess = recs s1 @ [rec] \<and> serr sess = serr s1"
    using s0 by (auto simp: session_in_def split: option.splits if_splits)
  ultimately show ?thesis using e by (auto simp del: fun_upd_apply) (simp add: fun_upd_apply)
qed

text \<open>
  C40: the line of a handler's error is lost: the log tool does not know the mark, keeps the record without
  a kind and goes on with the session that it was reading, to which it adds the line as an unknown one.
\<close>
theorem Handle_error_unknown:
  assumes "dbg_Labels di (IP m) = []" "id_ok mid" "0 \<le> n" "n < 2 ^ 63" "CHR ''@'' \<notin> set (text e)"
  shows "\<exists>line ss' sess s0. log_Handle text (Some mid, Some n) di m (Some e) lf = lf\<lparr>lines := lines lf @ [line]\<rparr> \<and>
    parse_line line (m0, ss) = Some (m0, ss') \<and> ss' mid = Some sess \<and> recs sess \<noteq> [] \<and>
    rkind (last (recs sess)) = unknownLine \<and> ss' m0 = Some s0 \<and> last (unknown s0) = TrimRight line"
proof -
  let ?x = "''err='' @ quote (text e)" let ?line = "log_line (mach_id_String mid) n ''!!!'' ''Handle'' (IP m) ('' '' @ ?x)"
  have l: "log_Handle text (Some mid, Some n) di m (Some e) lf = lf\<lparr>lines := lines lf @ [?line]\<rparr>"
    by (simp add: log_Handle_def assms(1) note_line_def line_tail_def)
  have t: "tail_ok '' '' ?x" using quote_clean [OF assms(5)] by (simp add: tail_ok_def space_only_def any_char_def clean_def)
  have w: "note_ok ''Handle''" by (simp add: note_ok_def any_char_def space_char_def re_space_def)
  have k: "mark_ok ''!!!''" by (rule log_marks_ok) simp
  note rec = line_record [OF assms(2-4) k w t]
  let ?r = "line_rest n (mark_field ''!!!'' ''Handle'') (IP m) ('' '' @ ?x)" and ?a = "mark_field ''!!!'' ''Handle''"
  have "FindSubmatch markPat ?a = None" by (rule no_mark) (auto simp: mark_field_def log_marks_def)
  then have "\<exists>rec. rkind rec = unknownLine \<and> (\<forall>s. sess_add (parseRecord mid ?r) s = Some (rec, s\<lparr>recs := recs s @ [rec]\<rparr>))"
    unfolding rec(2) by (simp add: sess_add_def logged_def blank_rec_def Let_def)
  then obtain q where q: "rkind q = unknownLine" "\<And>s. sess_add (parseRecord mid ?r) s = Some (q, s\<lparr>recs := recs s @ [q]\<rparr>)"
    by blast
  from parse_unknown [OF rec(1) q(2,1), of m0 ss] l q(1) show ?thesis by metis
qed

lemma quote_char_plain: "alnum c \<or> c \<in> set '' @'' \<Longrightarrow> quote_char c = [c]"
proof -
  assume a: "alnum c \<or> c \<in> set '' @''"
  have "int (of_char c) = of_char c" by (rule of_nat_of_char)
  then have "32 \<le> (of_char c :: nat) \<and> (of_char c :: nat) < 127"
    using a by (auto simp: alnum_def dec_digit_def letter_def Let_def)
  moreover have "c \<noteq> CHR 0x22" "c \<noteq> CHR 0x5C" using a by (auto simp: alnum_def dec_digit_def letter_def)
  ultimately show ?thesis by (simp add: quote_char_def Let_def)
qed

lemma trim_last: "s \<noteq> [] \<Longrightarrow> last s \<notin> {CHR '' '', CHR 0x0D, CHR 0x0A} \<Longrightarrow> TrimRight s = s"
  using dropWhile_head [of "rev s" "\<lambda>c. c \<in> {CHR '' '', CHR 0x0D, CHR 0x0A}"] by (simp add: TrimRight_def hd_rev)

lemma quote_plain: "\<forall>c \<in> set s. alnum c \<or> c \<in> set '' @'' \<Longrightarrow> concat (map quote_char s) = s"
  by (induction s) (simp_all add: quote_char_plain)

text \<open>
  C39: a session that ends with an alignment error loses it: the error's text has an address after an at sign, which the
  log tool takes for the instruction pointer of the line.  It keeps the record without a kind and no error
  in the session.
\<close>
theorem alignment_error_lost:
  assumes "Err m = Some (MachError a (Inr (AlignmentError op addr)))" "op \<in> {''fetch'', ''store''}"
    and "dbg_Labels di (IP m) = []" "id_ok mid" "0 \<le> n" "n < 2 ^ 63"
  shows "\<exists>line ss' sess. log_End fuel (Some mid, Some n) di m lf = Some (lf\<lparr>lines := lines lf @ [line]\<rparr>) \<and>
    parse_line line (m0, ss) = Some (m0, ss') \<and> ss' mid = Some sess \<and> recs sess \<noteq> [] \<and>
    rkind (last (recs sess)) = unknownLine \<and> rip (last (recs sess)) = uint addr \<and>
    serr sess = (case ss mid of None \<Rightarrow> '''' | Some s \<Rightarrow> serr s)"
proof -
  let ?h = "hex_width 4 addr" and ?e = "''unaligned memory '' @ op"
  let ?line = "log_line (mach_id_String mid) n ''==='' ''End'' (IP m) ('' err='' @ quote (?e @ '' @'' @ ?h))"
  have l: "log_End fuel (Some mid, Some n) di m lf = Some (lf\<lparr>lines := lines lf @ [?line]\<rparr>)"
    by (simp add: log_End_def assms(1,3) note_line_def line_tail_def)
  let ?v = "'' @'' @ hex_width 4 (IP m) @ '' err='' @ [CHR 0x22] @ ?e" and ?b = "[CHR 0x22]"
  let ?a = "mark_field ''==='' ''End'' @ ?v"
  have op: "list_all (\<lambda>c. alnum c \<or> c \<in> set '' @'') op"
    using assms(2) by (auto simp: alnum_def letter_def)
  have hx: "list_all alnum (hex_width 4 i)" for i
    using parse_hex_padded(2) [of 4 i] by (simp add: hex_width_def) (simp add: alnum_def dec_digit_def letter_def)
  have "concat (map quote_char (?e @ '' @'' @ ?h)) = ?e @ '' @'' @ ?h"
    using op hx [of addr] by (intro quote_plain) (auto simp: list_all_iff alnum_def letter_def)
  then have line: "?line = mach_id_String mid @ '' '' @ line_rest n ?a addr ?b"
    by (simp add: quote_def log_line_def line_rest_def mark_field_def)
  have w: "note_ok ''End''" by (simp add: note_ok_def any_char_def space_char_def re_space_def)
  have k: "''==='' \<in> set log_marks" by (simp add: log_marks_def)
  note m = mark_field_shape [OF log_marks_ok [OF disjI2 [OF k]] w]
  have b: "behind_ok ?b ''''"
    by (auto simp: behind_ok_def rest_re_def any_char_def alnum_def dec_digit_def letter_def first_match_def space_only_def)
  have v: "list_all any_char ?v"
    using alnum_all [OF hx, of "IP m"] assms(2) by (auto simp: any_char_def)
  have a: "?a \<noteq> []" "list_all any_char ?a" "hd ?a \<noteq> CHR '' ''" "\<not> dec_digit (hd ?a)"
    using m v by simp_all
  have "TrimRight ?a = ?a" using assms(2) by (intro trim_last) auto
  note rec = split_record(1) [OF assms(4-6) a b, of addr] split_record(2) [OF assms(4-6) a b, of addr "''''"]
  have "\<exists>rec. rkind rec = unknownLine \<and> rip rec = uint addr \<and>
      (\<forall>s. sess_add (parseRecord mid (line_rest n ?a addr ?b)) s = Some (rec, s\<lparr>recs := recs s @ [rec]\<rparr>))"
    unfolding rec(2) \<open>TrimRight ?a = ?a\<close> sess_add_def
    by (simp add: mark_field_mark [OF k w, of ?v, simplified] marked_def logged_def blank_rec_def Let_def)
  then obtain q where q: "rkind q = unknownLine" "rip q = uint addr"
    "\<And>s. sess_add (parseRecord mid (line_rest n ?a addr ?b)) s = Some (q, s\<lparr>recs := recs s @ [q]\<rparr>)" by blast
  from parse_unknown [OF rec(1) q(3,1), of m0 ss] l q(1,2) show ?thesis unfolding line by metis
qed

theorem log_line_parses_witness:
  "\<exists>r. parseMidLog (log_line (mach_id_String (1, 0, 1)) 7 ''>>>'' ''2 push'' 9 ('' '' @ ''ps=[3]'')) = Some ((1, 0, 1), r)"
  using log_line_parses [of "(1, 0, 1)" 7 "''>>>''" "''2 push''" "'' ''" "''ps=[3]''" 9]
  by (auto simp: id_ok_def log_marks_def note_ok_def tail_ok_def any_char_def space_char_def re_space_def space_only_def)

lemma quiet_machine: "NamedValues 1 (blank 60) = Some (Inr Mapping.empty)" "dbg_Labels no_debug (IP (blank 60)) = []"
  by (simp_all add: NamedValues_def outValues_def outputs_def blank_def dbg_Labels_def no_debug_def Mapping.lookup_default_empty)

theorem Handle_error_unknown_witness:
  "\<exists>line ss'. parse_line line ((0, 0, 0), Map.empty) = Some ((0, 0, 0), ss') \<and>
    (\<exists>sess. ss' (1, 0, 1) = Some sess \<and> rkind (last (recs sess)) = unknownLine)"
  using Handle_error_unknown [OF quiet_machine(2), of "(1, 0, 1)" 7 "\<lambda>e. e" "''boom''" "\<lparr>afterName = '''', afterFetch = 0, lines = []\<rparr>" "(0, 0, 0)" Map.empty]
  by (auto simp: id_ok_def)


lemma misaligned_machine:
  "\<exists>a. Err ((blank 60)\<lparr>err := Some (AlignmentError ''fetch'' 3)\<rparr>) = Some (MachError a (Inr (AlignmentError ''fetch'' 3)))"
  "dbg_Labels no_debug (IP ((blank 60)\<lparr>err := Some (AlignmentError ''fetch'' 3)\<rparr>)) = []"
  by (simp_all add: Err_def blank_def dbg_Labels_def no_debug_def Mapping.lookup_default_empty halted_def)

theorem alignment_error_lost_witness:
  "\<exists>line ss'. parse_line line ((1, 0, 1), Map.empty) = Some ((1, 0, 1), ss') \<and>
    (\<exists>sess. ss' (1, 0, 1) = Some sess \<and> rip (last (recs sess)) = 3 \<and> serr sess = '''')"
proof -
  obtain a where "Err ((blank 60)\<lparr>err := Some (AlignmentError ''fetch'' 3)\<rparr>) = Some (MachError a (Inr (AlignmentError ''fetch'' 3)))"
    using misaligned_machine(1) by blast
  from alignment_error_lost [OF this _ misaligned_machine(2), of "(1, 0, 1)" 7 0 "\<lparr>afterName = '''', afterFetch = 0, lines = []\<rparr>" "(1, 0, 1)" Map.empty]
  show ?thesis by (auto simp: id_ok_def)
qed

end
