(* ===== verification/Console.thy ===== *)
theory Console
  imports LogLines
begin

text \<open>
  What the log tool prints: \<open>record.String\<close>, the writers \<open>printSession\<close> and \<open>printFullSession\<close>, and the HTML
  dumper around the JSON dumper (\<open>tools/tracelog/main.go\<close>).

  The standard output is a \<^typ>\<open>('e, 'w) writer\<close>.  The text of \<open>%v\<close> for a map, \<open>show_map\<close>, and the order of a
  range over one, \<open>extras\<close>, are arguments.
\<close>

subsection \<open>Records\<close>

definition padr :: "nat \<Rightarrow> char \<Rightarrow> string \<Rightarrow> string" where
  "padr w c s = s @ replicate (w - length s) c"

definition logRec_String :: "logRec \<Rightarrow> string" where
  "logRec_String r =
     padl 10 (CHR '' '') (machID_String (rmid r)) @
     (if rkind r = noteLine then '' '' @ padl 13 (CHR '' '') '''' @ '' '' @ rest r
      else '' #'' @ spaced_dec (rcount r) @ '' @0x'' @ padl 4 (CHR ''0'') (hex_digits (nat (rip r))) @ '' '' @
        padr 30 (CHR '' '') (act r) @ '' '' @ rest r)"

text \<open>The formats of \<open>sessionLog\<close>, and the \<open>Printf\<close> of an \<open>indentPrintf\<close>.\<close>

fun item_text :: "log_item \<Rightarrow> string" where
  "item_text (LogRec r) = logRec_String r"
| "item_text (LogNote n) = ''    '' @ n"
| "item_text (LogExtra x) = x"

definition indentPrintf :: "('e, 'w) writer \<Rightarrow> string \<Rightarrow> ('e, 'w) logf" where
  "indentPrintf W prefix item = Write W (prefix @ item_text item @ [CHR 0x0A])"

subsection \<open>Sessions\<close>

definition session_line :: "((string \<rightharpoonup> string) \<Rightarrow> string) \<Rightarrow> string \<Rightarrow> session \<Rightarrow> string" where
  "session_line show_map full sess =
     full @ [CHR 0x09] @
     (if serr sess \<noteq> '''' then ''err='' @ serr sess else ''extra='' @ show_map (extra sess)) @ [CHR 0x0A]"

definition printSession ::
  "nat \<Rightarrow> ((string \<rightharpoonup> string) \<Rightarrow> string) \<Rightarrow> ('e, 'w) writer \<Rightarrow> sessions \<Rightarrow> machID \<Rightarrow> 'w \<Rightarrow> ('e option \<times> 'w) outcome" where
  "printSession fuel show_map W ss mid w =
     (case ss mid of
        None \<Rightarrow> Panic
      | Some sess \<Rightarrow>
          (case fullID fuel ss sess of
             Done full \<Rightarrow> Done (Write W (session_line show_map full sess) w)
           | Panic \<Rightarrow> Panic | Timeout \<Rightarrow> Timeout))"

definition printFullSession ::
  "nat \<Rightarrow> ((string \<rightharpoonup> string) \<Rightarrow> string) \<Rightarrow> (session \<Rightarrow> string list) \<Rightarrow> ('e, 'w) writer \<Rightarrow> sessions \<Rightarrow> machID \<Rightarrow> 'w \<Rightarrow>
    ('e option \<times> 'w) outcome" where
  "printFullSession fuel show_map extras W ss mid w =
     (case printSession fuel show_map W ss mid w of
        Done (None, w) \<Rightarrow>
          (case sessionLog fuel (indentPrintf W [CHR 0x09]) (extras (the (ss mid))) ss (the (ss mid)) w of
             Done (None, w) \<Rightarrow> Done (Write W [CHR 0x0A] w)
           | r \<Rightarrow> r)
      | r \<Rightarrow> r)"

text \<open>The \<open>Close\<close> of a \<open>sessionWriterFunc\<close>.\<close>

definition func_Close :: "'w \<Rightarrow> 'e option \<times> 'w" where
  "func_Close w = (None, w)"

subsection \<open>HTML\<close>

text \<open>
  The dumper writes JSON to a buffer, whose \<open>Close\<close> is that of a \<open>nopWriteCloser\<close> (\<^const>\<open>buffer\<close>).  Its own \<open>Close\<close> executes the
  template, \<open>Execute\<close>, with the text of the buffer.  The state is that of the JSON dumper and the output.
\<close>

definition html_WriteSession ::
  "(string \<Rightarrow> 'f option) \<Rightarrow> ('f sessDat \<Rightarrow> 'e + string) \<Rightarrow> sessions \<Rightarrow> machID \<Rightarrow> (bool \<times> string) \<times> 'w \<Rightarrow>
    ('e option \<times> (bool \<times> string) \<times> 'w) outcome" where
  "html_WriteSession ParseFloat enc ss mid h =
     (let (jd, w) = h
      in case WriteSession ParseFloat enc buffer ss mid jd of
           Done (e, jd) \<Rightarrow> Done (e, jd, w) | Panic \<Rightarrow> Panic | Timeout \<Rightarrow> Timeout)"

definition html_Close ::
  "(string \<Rightarrow> 'w \<Rightarrow> 'e option \<times> 'w) \<Rightarrow> ('e, 'w) writer \<Rightarrow> (bool \<times> string) \<times> 'w \<Rightarrow> 'e option \<times> 'w" where
  "html_Close Execute W h =
     (let (jd, w) = h;
          (e, buf) = json_Close buffer jd;
          (e, w) = (if e = None then Execute buf w else (e, w));
          (ce, w) = wClose W w
      in (if e = None then ce else e, w))"

subsection \<open>The command\<close>

text \<open>
  \<open>main\<close>, from the flags to the output, for the formats that start no other program.  \<open>ign\<close> are the halt codes to
  ignore.  \<open>sort_ids\<close> stands for the range over the map of sessions and \<open>sort.Slice\<close>, whose comparison is no order.
\<close>

record flags =
  terse :: bool
  fmtJSON :: bool
  fmtHTML :: bool
  fmtWeb :: bool
  fmtWebDev :: bool

datatype out_format = FullText | Terse | JSONText | HTMLText | WebPage | WebDevServer

definition out_format_of :: "flags \<Rightarrow> out_format" where
  "out_format_of f =
     (if fmtJSON f then JSONText else if fmtHTML f then HTMLText else if fmtWeb f then WebPage
      else if fmtWebDev f then WebDevServer else if terse f then Terse else FullText)"

definition kept_ids :: "int set \<Rightarrow> sessions \<Rightarrow> machID set" where
  "kept_ids ign ss = {mid. case ss mid of None \<Rightarrow> False | Some sess \<Rightarrow> kept_session ign sess}"

definition main_writes ::
  "nat \<Rightarrow> ((string \<rightharpoonup> string) \<Rightarrow> string) \<Rightarrow> (session \<Rightarrow> string list) \<Rightarrow> (string \<Rightarrow> 'f option) \<Rightarrow> ('f sessDat \<Rightarrow> 'e + string) \<Rightarrow>
    (string \<Rightarrow> 'w \<Rightarrow> 'e option \<times> 'w) \<Rightarrow> ('e, 'w) writer \<Rightarrow> (machID set \<Rightarrow> machID list) \<Rightarrow> flags \<Rightarrow> int set \<Rightarrow> string list \<Rightarrow> 'w \<Rightarrow>
    ('e option \<times> 'w) outcome option" where
  "main_writes fuel show_map extras ParseFloat enc Execute W sort_ids f ign ls w =
     (case parseSessions ls of
        None \<Rightarrow> Some Panic
      | Some ss \<Rightarrow>
          (let mids = sort_ids (kept_ids ign ss)
           in case out_format_of f of
                JSONText \<Rightarrow> Some (write_sessions (WriteSession ParseFloat enc W ss) (json_Close W) mids (False, w))
              | HTMLText \<Rightarrow>
                  Some (write_sessions (html_WriteSession ParseFloat enc ss) (html_Close Execute W) mids ((False, ''''), w))
              | Terse \<Rightarrow> Some (write_sessions (printSession fuel show_map W ss) func_Close mids w)
              | FullText \<Rightarrow> Some (write_sessions (printFullSession fuel show_map extras W ss) func_Close mids w)
              | WebPage \<Rightarrow> None
              | WebDevServer \<Rightarrow> None))"

subsection \<open>The printed text\<close>

text \<open>What \<open>sessionLog\<close> logs: each record with its notes.\<close>

definition rec_items :: "logRec \<Rightarrow> log_item list" where
  "rec_items r = LogRec r # map LogNote (rnotes r)"

fun path_items :: "sessions \<Rightarrow> machID list \<Rightarrow> log_item list" where
  "path_items ss (i # j # ids) =
     concat (map rec_items (takeWhile (\<lambda>r. \<not> (rkind r = copyLine \<and> cid r = j)) (recs (the (ss i))))) @ path_items ss (j # ids)"
| "path_items ss ids = []"

definition session_items :: "sessions \<Rightarrow> machID list \<Rightarrow> session \<Rightarrow> string list \<Rightarrow> log_item list" where
  "session_items ss ids sess extras =
     path_items ss ids @ concat (map rec_items (recs sess)) @ map LogExtra extras"

definition item_lines :: "string \<Rightarrow> log_item list \<Rightarrow> string" where
  "item_lines prefix items = concat (map (\<lambda>x. prefix @ item_text x @ [CHR 0x0A]) items)"

lemma item_lines_simps [simp]:
  "item_lines p [] = ''''" "item_lines p (x # xs) = p @ item_text x @ [CHR 0x0A] @ item_lines p xs"
  "item_lines p (xs @ ys) = item_lines p xs @ item_lines p ys"
  by (simp_all add: item_lines_def)

lemma indentPrintf_buffer [simp]: "indentPrintf buffer p x w = (None, w @ p @ item_text x @ [CHR 0x0A])"
  by (simp add: indentPrintf_def buffer_def)

lemma log_notes_buffer [simp]: "log_notes (indentPrintf buffer p) ns w = w @ item_lines p (map LogNote ns)"
  by (induction ns arbitrary: w) simp_all

lemma log_recs_buffer:
  "log_recs (indentPrintf buffer p) stop rs w =
    (None, w @ item_lines p (concat (map rec_items (takeWhile (\<lambda>r. \<not> stop r) rs))))"
  by (induction rs arbitrary: w) (simp_all add: rec_items_def)

lemma takeWhile_all [simp]: "takeWhile (\<lambda>x. True) xs = xs"
  by (induction xs) simp_all

lemma log_path_buffer: "log_path (indentPrintf buffer p) ss ids w = (None, w @ item_lines p (path_items ss ids))"
  by (induction ss ids arbitrary: w rule: path_items.induct) (simp_all add: log_recs_buffer)

lemma log_extras_buffer: "log_extras (indentPrintf buffer p) xs w = (None, w @ item_lines p (map LogExtra xs))"
  by (induction xs arbitrary: w) simp_all

lemma sessionLog_buffer:
  "sessionLog fuel (indentPrintf buffer p) extras ss sess w =
     (case idPath fuel ss sess of
        Done ids \<Rightarrow> Done (None, w @ item_lines p (session_items ss ids sess extras)) | Panic \<Rightarrow> Panic | Timeout \<Rightarrow> Timeout)"
  by (simp add: sessionLog_def session_items_def log_path_buffer log_recs_buffer log_extras_buffer
      split: outcome.split)

text \<open>The whole text of a session.\<close>

definition full_text ::
  "((string \<rightharpoonup> string) \<Rightarrow> string) \<Rightarrow> (session \<Rightarrow> string list) \<Rightarrow> sessions \<Rightarrow> session \<Rightarrow> machID list \<Rightarrow> string" where
  "full_text show_map extras ss sess ids =
     session_line show_map (path_string (smid sess) ids) sess @
     item_lines [CHR 0x09] (session_items ss ids sess (extras sess)) @ [CHR 0x0A]"

lemma Write_buffer [simp]: "Write buffer x w = (None, w @ x)"
  by (simp add: buffer_def)

lemma printFullSession_buffer:
  assumes "ss mid = Some sess" "idPath fuel ss sess = Done ids"
  shows "printFullSession fuel show_map extras buffer ss mid w = Done (None, w @ full_text show_map extras ss sess ids)"
  using assms by (simp add: printFullSession_def printSession_def fullID_def sessionLog_buffer full_text_def)

lemma write_all_texts:
  "(\<And>mid w. mid \<in> set mids \<Longrightarrow> wr mid w = Done (None, w @ f mid)) \<Longrightarrow>
    write_all wr mids w = Done (None, w @ concat (map f mids))"
  by (induction mids arbitrary: w) simp_all

text \<open>The text that a writer gives of a session with its path, for all sessions.\<close>

lemma sessions_printed:
  assumes "parented ss" "descending ss" "list_all (\<lambda>mid. ss mid \<noteq> None \<and> nat (self_id mid) + 1 < fuel) mids"
    and wr: "\<And>mid sess ids w. ss mid = Some sess \<Longrightarrow> idPath fuel ss sess = Done ids \<Longrightarrow> wr mid w = Done (None, w @ f sess ids)"
  obtains path where "\<forall>mid \<in> set mids. chain ss zeroMachID (path mid) \<and> last (path mid) = mid \<and>
      idPath fuel ss (the (ss mid)) = Done (path mid)"
    "write_sessions wr func_Close mids '''' = Done (None :: 'e option, concat (map (\<lambda>mid. f (the (ss mid)) (path mid)) mids))"
proof -
  define path where "path mid = (case idPath fuel ss (the (ss mid)) of Done ids \<Rightarrow> ids | _ \<Rightarrow> [])" for mid
  have mid: "ss mid = Some (the (ss mid)) \<and> idPath fuel ss (the (ss mid)) = Done (path mid)" if "mid \<in> set mids" for mid
  proof -
    obtain sess where s: "ss mid = Some sess" "nat (self_id mid) + 1 < fuel" using assms(3) \<open>mid \<in> set mids\<close> by (auto simp: list_all_iff)
    with idPath_fuel [OF assms(1,2) s(1)] show ?thesis by (auto simp: path_def)
  qed
  have "chain ss zeroMachID (path mid) \<and> last (path mid) = mid \<and> idPath fuel ss (the (ss mid)) = Done (path mid)"
    if "mid \<in> set mids" for mid
    using idPath_chain [OF assms(1), of mid "the (ss mid)" fuel] mid [OF that] by blast
  moreover have "write_all wr mids '''' = Done (None :: 'e option, '''' @ concat (map (\<lambda>mid. f (the (ss mid)) (path mid)) mids))"
    by (rule write_all_texts) (use mid wr in blast)
  ultimately show thesis using that [of path] by (simp add: write_sessions_def func_Close_def)
qed

lemma printSession_buffer:
  assumes "ss mid = Some sess" "idPath fuel ss sess = Done ids"
  shows "printSession fuel show_map buffer ss mid w = Done (None, w @ session_line show_map (path_string (smid sess) ids) sess)"
  using assms by (simp add: printSession_def fullID_def)

text \<open>
  C33: what the log tool prints of a log whose children have greater ids than their parents: just the sessions that did not
  halt with an ignored code; with the terse flag a line for each, with the path of its ancestors; without flags also the
  records, those of each ancestor up to the copy that leads on and those of the session itself, each with its notes.
\<close>
theorem main_prints:
  assumes "parseSessions ls = Some ss" "descending ss" "set mids = kept_ids ign ss" "sort_ids (kept_ids ign ss) = mids"
    "list_all (\<lambda>mid. nat (self_id mid) + 1 < fuel) mids" "\<not> fmtJSON f \<and> \<not> fmtHTML f \<and> \<not> fmtWeb f \<and> \<not> fmtWebDev f"
  shows "\<exists>path. (\<forall>mid \<in> set mids. chain ss zeroMachID (path mid) \<and> last (path mid) = mid) \<and>
    main_writes fuel show_map extras pf enc Execute buffer sort_ids f ign ls '''' = Some (Done (None :: 'e option,
      if terse f then concat (map (\<lambda>mid. session_line show_map (path_string mid (path mid)) (the (ss mid))) mids)
      else concat (map (\<lambda>mid. full_text show_map extras ss (the (ss mid)) (path mid)) mids)))"
proof -
  note p = parseSessions_parented [OF assms(1)]
  have kept: "ss mid \<noteq> None" if "mid \<in> set mids" for mid using that assms(3) by (auto simp: kept_ids_def split: option.splits)
  with assms(5) have l: "list_all (\<lambda>mid. ss mid \<noteq> None \<and> nat (self_id mid) + 1 < fuel) mids" by (simp add: list_all_iff)
  have id: "smid (the (ss mid)) = mid" if "mid \<in> set mids" for mid using kept [OF that] parentedD [OF p] by auto
  have fmt: "out_format_of f = (if terse f then Terse else FullText)" using assms(6) by (simp add: out_format_of_def)
  show ?thesis
  proof (cases "terse f")
    case True
    obtain path where path: "\<forall>mid \<in> set mids. chain ss zeroMachID (path mid) \<and> last (path mid) = mid \<and>
        idPath fuel ss (the (ss mid)) = Done (path mid)"
      "write_sessions (printSession fuel show_map buffer ss) func_Close mids '''' = Done (None :: 'e option,
        concat (map (\<lambda>mid. session_line show_map (path_string (smid (the (ss mid))) (path mid)) (the (ss mid))) mids))"
      using printSession_buffer by (rule sessions_printed [OF p assms(2) l])
    have "map (\<lambda>mid. session_line show_map (path_string (smid (the (ss mid))) (path mid)) (the (ss mid))) mids =
        map (\<lambda>mid. session_line show_map (path_string mid (path mid)) (the (ss mid))) mids" by (simp add: id)
    with path show ?thesis by (intro exI [of _ path]) (simp add: main_writes_def assms(1,4) fmt True Let_def)
  next
    case False
    obtain path where path: "\<forall>mid \<in> set mids. chain ss zeroMachID (path mid) \<and> last (path mid) = mid \<and>
        idPath fuel ss (the (ss mid)) = Done (path mid)"
      "write_sessions (printFullSession fuel show_map extras buffer ss) func_Close mids '''' = Done (None :: 'e option,
        concat (map (\<lambda>mid. full_text show_map extras ss (the (ss mid)) (path mid)) mids))"
      using printFullSession_buffer by (rule sessions_printed [OF p assms(2) l])
    then show ?thesis by (intro exI [of _ path]) (simp add: main_writes_def assms(1,4) fmt False Let_def)
  qed
qed

theorem main_prints_witness:
  "\<exists>path :: machID \<Rightarrow> machID list. last (path (1, 1, 2)) = (1, 1, 2) \<and>
    main_writes 4 (\<lambda>m. ''map[]'') (\<lambda>s. []) (\<lambda>s. None :: int option) (\<lambda>d. Inr '''') (\<lambda>x w. (None, w @ x)) buffer (\<lambda>A. [(1, 0, 1), (1, 1, 2)])
      \<lparr>terse = False, fmtJSON = False, fmtHTML = False, fmtWeb = False, fmtWebDev = False\<rparr> {1} [copy_line] '''' =
      Some (Done (None :: unit option,
        full_text (\<lambda>m. ''map[]'') (\<lambda>s. []) copied_sessions (the (copied_sessions (1, 0, 1))) (path (1, 0, 1)) @
        full_text (\<lambda>m. ''map[]'') (\<lambda>s. []) copied_sessions (the (copied_sessions (1, 1, 2))) (path (1, 1, 2))))"
proof -
  let ?f = "\<lparr>terse = False, fmtJSON = False, fmtHTML = False, fmtWeb = False, fmtWebDev = False\<rparr>"
  let ?mids = "[(1, 0, 1), (1, 1, 2)] :: machID list"
  have d: "descending copied_sessions"
    by (auto simp: descending_def copied_sessions_def new_session_def zeroMachID_def self_id_def split: if_splits)
  have "FindSubmatch haltPat '''' = None" by code_simp
  then have k: "set ?mids = kept_ids {1} copied_sessions"
    by (auto simp: kept_ids_def kept_session_def copied_sessions_def new_session_def split: if_splits)
  have l: "list_all (\<lambda>mid. nat (self_id mid) + 1 < 4) ?mids" by (simp add: self_id_def)
  obtain path where "\<forall>mid \<in> set ?mids. chain copied_sessions zeroMachID (path mid) \<and> last (path mid) = mid"
    "main_writes 4 (\<lambda>m. ''map[]'') (\<lambda>s. []) (\<lambda>s. None :: int option) (\<lambda>d. Inr '''') (\<lambda>x w. (None, w @ x)) buffer (\<lambda>A. ?mids)
      ?f {1} [copy_line] '''' = Some (Done (None :: unit option, if terse ?f
        then concat (map (\<lambda>mid. session_line (\<lambda>m. ''map[]'') (path_string mid (path mid)) (the (copied_sessions mid))) ?mids)
        else concat (map (\<lambda>mid. full_text (\<lambda>m. ''map[]'') (\<lambda>s. []) copied_sessions (the (copied_sessions mid)) (path mid)) ?mids)))"
    using main_prints [OF copy_line_sessions d k, where sort_ids = "\<lambda>A. ?mids" and fuel = 4 and f = ?f] l by fastforce
  then show ?thesis by (intro exI [of _ path]) simp
qed

lemma write_all_html:
  "write_all (html_WriteSession pf enc ss) mids (jd, w) =
     (case write_all (WriteSession pf enc buffer ss) mids jd of
        Done (e, jd) \<Rightarrow> Done (e, jd, w) | Panic \<Rightarrow> Panic | Timeout \<Rightarrow> Timeout)"
  by (induction mids arbitrary: jd) (auto simp: html_WriteSession_def split: outcome.split option.split)

text \<open>
  The HTML dumper executes its template once, with the text that the JSON dumper has come to, and closes the output
  in any case: so it does without sessions, with no text at all, and also when the encoder has refused a session, with the
  text cut off there.  The first error counts.
\<close>
theorem html_page:
  assumes "list_all (\<lambda>mid. ss mid \<noteq> None) (filter (\<lambda>mid. mid \<noteq> zeroMachID) mids)"
    "all_some (\<lambda>mid. toJSON pf (the (ss mid))) (filter (\<lambda>mid. mid \<noteq> zeroMachID) mids) = Some ds"
  shows "write_sessions (html_WriteSession pf enc ss) (html_Close Execute W) mids ((False, ''''), w) =
    (let (xs, e) = encoded enc ds;
         text = (if e = None then json_text xs else json_items False (xs @ ['''']) @ '']'' @ [CHR 0x0A]);
         (ee, w) = Execute text w;
         (ce, w) = wClose W w
     in Done (if e \<noteq> None then e else if ee \<noteq> None then ee else ce, w))"
proof (cases "encoded enc ds")
  case (Pair xs e)
  have m: "ds = [] \<longleftrightarrow> xs = [] \<and> e = None" using encoded_none [of ds enc] Pair by simp
  show ?thesis
    unfolding write_sessions_def write_all_html write_all_json [OF assms] Pair
    by (cases e) (auto simp: html_Close_def json_Close_buffer json_text_def m split: prod.split)
qed

theorem html_page_witness:
  "write_sessions (html_WriteSession (\<lambda>s. None :: int option) (\<lambda>d. Inr (ID d)) copied_sessions)
     (html_Close (\<lambda>x w. (None, w @ ''<script>'' @ x @ ''</script>'')) buffer) [zeroMachID] ((False, ''''), ''<html>'') =
    Done (None :: unit option, ''<html><script></script>'')"
  by (subst html_page [of _ _ _ "[]"]) (simp_all add: json_text_def buffer_def)

end
