(* ===== verification/CopyLines.thy ===== *)
theory CopyLines
  imports LogLines
begin

text \<open>
  The line of a copy, from the log tracer to the session of the copy: what \<open>Queue\<close> of \<open>x/tracer/log.go\<close> writes, the
  scanner of \<open>tools/tracelog/parsing.go\<close> takes apart into the same keys and values, and \<open>scanChildKV\<close> and \<open>addCoCopyRec\<close> of
  \<open>tools/tracelog/main.go\<close> link the two sessions by it.
\<close>

subsection \<open>Scanning what was formatted\<close>

definition plain_char :: "char \<Rightarrow> bool" where
  "plain_char c \<longleftrightarrow> \<not> is_ws c \<and> c \<noteq> dq \<and> c \<noteq> sq \<and> c \<notin> set ''[]{}()''"

lemma scan_val_plain:
  "list_all plain_char w \<Longrightarrow> scan_val None b (w @ s) = (let (n, b) = scan_val None b s in (length w + n, b))"
  by (induction w) (auto simp: plain_char_def nested_def Let_def split: prod.splits)

text \<open>The scanner passes a piece of a value, from one mode and nesting to another.\<close>

definition passes :: "char option \<Rightarrow> nest \<Rightarrow> string \<Rightarrow> char option \<Rightarrow> nest \<Rightarrow> bool" where
  "passes q b v q' b' \<longleftrightarrow> (\<forall>s. scan_val q b (v @ s) = (let (n, b'') = scan_val q' b' s in (length v + n, b'')))"

lemma passes_append: "passes q b v q' b' \<Longrightarrow> passes q' b' w q'' b'' \<Longrightarrow> passes q b (v @ w) q'' b''"
  by (simp add: passes_def Let_def split: prod.splits)

lemma passes_nil: "passes q b [] q b"
  by (simp add: passes_def)

lemma passes_plain: "list_all plain_char w \<Longrightarrow> passes None b w None b"
  by (simp add: passes_def scan_val_plain)

lemma passes_one: "\<not> (is_ws c \<and> b = (0, 0, 0)) \<Longrightarrow> passes None b [c] (if c = dq \<or> c = sq then Some c else None) (nested c b)"
  by (auto simp: passes_def Let_def split: prod.splits)

lemma passes_brackets:
  "passes None (0, 0, 0) ''['' None (1, 0, 0)" "passes None (1, 0, 0) '']'' None (0, 0, 0)"
  "passes None (0, 0, 0) ''('' None (0, 0, 1)" "passes None (0, 0, 1) '')'' None (0, 0, 0)"
  "passes None (1, 0, 0) '' '' None (1, 0, 0)" "passes None (1, 0, 0) [CHR 0x22] (Some dq) (1, 0, 0)"
  using passes_one [of "CHR ''[''" "(0, 0, 0)"] passes_one [of "CHR '']''" "(1, 0, 0)"] passes_one [of "CHR ''(''" "(0, 0, 0)"]
    passes_one [of "CHR '')''" "(0, 0, 1)"] passes_one [of "CHR '' ''" "(1, 0, 0)"] passes_one [of "CHR 0x22" "(1, 0, 0)"]
  by (simp_all add: is_ws_def dq_def sq_def nested_def)

lemma passes_quoted: "c \<noteq> dq \<Longrightarrow> c \<noteq> backslash \<Longrightarrow> passes (Some dq) b [c] (Some dq) b"
  "passes (Some dq) b [backslash, d] (Some dq) b" "passes (Some dq) b [CHR 0x22] None b"
  by (auto simp: passes_def backslash_def dq_def Let_def split: prod.splits)

lemma passes_quoted_all: "dq \<notin> set w \<Longrightarrow> backslash \<notin> set w \<Longrightarrow> passes (Some dq) b w (Some dq) b"
proof (induction w)
  case (Cons c w)
  then have "passes (Some dq) b ([c] @ w) (Some dq) b" by (intro passes_append [OF passes_quoted(1)]) auto
  then show ?case by simp
qed (rule passes_nil)

lemma passes_quote_char: "passes (Some dq) b (quote_char c) (Some dq) b"
proof -
  have a: "\<not> alnum dq" "\<not> alnum backslash" "alnum (CHR ''0'')" "alnum (CHR ''x'')"
    by (simp_all add: dq_def backslash_def alnum_def dec_digit_def letter_def)
  let ?h = "padl 2 (CHR ''0'') (hex_digits (of_char c))"
  have "list_all alnum ?h"
    using hex_digits_ok [of "of_char c"] a(3) by (auto simp: padl_def list_all_iff hex_char_def)
  then have "passes (Some dq) b ?h (Some dq) b" using a(1,2) by (intro passes_quoted_all) (auto simp: list_all_iff)
  from passes_append [OF passes_quoted(2) [of b "CHR ''x''"] this]
  have x: "passes (Some dq) b ([CHR 0x5C, CHR ''x''] @ ?h) (Some dq) b" by (simp add: backslash_def)
  have "passes (Some dq) b [CHR 0x5C, d] (Some dq) b" for d using passes_quoted(2) [of b d] by (simp add: backslash_def)
  with x passes_quoted(1) [of c b] show ?thesis
    unfolding quote_char_def Let_def by (simp add: dq_def backslash_def)
qed

lemma passes_quote: "passes None (1, 0, 0) (quote s) None (1, 0, 0)"
proof -
  have "passes (Some dq) b (concat (map quote_char s)) (Some dq) b" for b
    by (induction s) (auto intro: passes_nil passes_append passes_quote_char)
  then show ?thesis unfolding quote_def
    by (intro passes_append [OF passes_brackets(6) passes_append [OF _ passes_quoted(3)]])
qed

lemma passes_spaced: "(\<And>x. x \<in> set xs \<Longrightarrow> passes None (1, 0, 0) x None (1, 0, 0)) \<Longrightarrow> passes None (1, 0, 0) (spaced xs) None (1, 0, 0)"
proof (induction xs rule: spaced.induct)
  case (3 x y xs)
  then have "passes None (1, 0, 0) (spaced (y # xs)) None (1, 0, 0)" by simp
  then have "passes None (1, 0, 0) (x @ '' '' @ spaced (y # xs)) None (1, 0, 0)"
    using "3.prems" by (intro passes_append [OF _ passes_append [OF passes_brackets(5)]]) simp_all
  then show ?case by simp
qed (simp_all add: passes_nil)

lemma dec_plain: "list_all plain_char (dec_string n)" "list_all plain_char '':''"
  using dec_string_digits(1) [of n]
  by (auto simp: list_all_iff plain_char_def is_ws_def dq_def sq_def dec_digit_def)

text \<open>A value that the scanner takes as it is: a list in square brackets, an id.\<close>

definition value_ok :: "string \<Rightarrow> bool" where
  "value_ok v \<longleftrightarrow> (\<forall>r. starts_ws r \<longrightarrow> scan_val None (0, 0, 0) (v @ r) = (length v, 0, 0, 0))"

lemma value_passes: "passes None (0, 0, 0) v None (0, 0, 0) \<Longrightarrow> value_ok v"
proof -
  have "scan_val None (0, 0, 0) r = (0, 0, 0, 0)" if "starts_ws r" for r
    using that by (cases r) (simp_all add: starts_ws_def)
  then show "passes None (0, 0, 0) v None (0, 0, 0) \<Longrightarrow> value_ok v" by (auto simp: passes_def value_ok_def)
qed

lemma value_list: "(\<And>x. x \<in> set xs \<Longrightarrow> passes None (1, 0, 0) x None (1, 0, 0)) \<Longrightarrow> value_ok (''['' @ spaced xs @ '']'')"
  by (intro value_passes passes_append [OF passes_brackets(1) passes_append [OF _ passes_brackets(2)]] passes_spaced)

lemma value_words: "value_ok (words_string ws)"
  unfolding words_string_def by (rule value_list) (auto intro: passes_plain dec_plain)

lemma value_labels: "value_ok (quoted_labels ls)"
  unfolding quoted_labels_def by (rule value_list) (auto simp del: One_nat_def intro: passes_quote)

lemma value_id: "id_ok mid \<Longrightarrow> value_ok (mach_id_String mid)"
proof -
  obtain a b c where mid: "mid = (a, b, c)" by (cases mid)
  assume "id_ok mid"
  then have e: "mach_id_String mid = dec_string (nat a) @ ''('' @ dec_string (nat b) @ '':'' @ dec_string (nat c) @ '')''"
    by (simp add: mid id_ok_def mach_id_String_def dec_int_nat)
  show ?thesis unfolding e
    by (intro value_passes) (rule passes_append passes_brackets passes_plain dec_plain)+
qed

lemma scanKVs_format:
  assumes "\<forall>(k, v) \<in> set kvs. list_all key_char k \<and> value_ok v"
  shows "scanKVs (format_kvs kvs) = Some kvs"
proof -
  have "scan_kvs (0, 0, 0) (format_kvs kvs) = Some kvs"
    using assms
  proof (induction kvs)
    case Nil
    then show ?case by (simp add: scan_kvs.simps [of _ "[]"])
  next
    case (Cons kv kvs)
    obtain k v where kv: "kv = (k, v)" by (cases kv)
    let ?r = "if kvs = [] then [] else '' '' @ format_kvs kvs"
    have "starts_ws ?r" by (simp add: starts_ws_def is_ws_def)
    then have "scan_val None (0, 0, 0) (v @ ?r) = (length v, 0, 0, 0)" using Cons.prems kv by (auto simp: value_ok_def)
    moreover have "drop (length v + 1) (v @ ?r) = format_kvs kvs" by simp
    moreover have "list_all key_char k" using Cons.prems kv by simp
    ultimately show ?case using Cons unfolding kv format_Cons by (subst scan_key_kv) simp_all
  qed
  then show ?thesis by (simp add: scanKVs_def scan_kvs_ws)
qed

lemma midPat_id: "id_ok mid \<Longrightarrow> \<exists>gs. FindSubmatch midPat (mach_id_String mid) = Some (gs, []) \<and> mid_of gs = mid"
proof -
  assume id: "id_ok mid"
  have "first_match (Lit '''') n [] = Some ([], [])" for n by (simp add: first_match_def)
  from first_mid [OF id this] show ?thesis unfolding midPat_def by (metis append_Nil2 find_first)
qed

lemma id_chars: "id_ok mid \<Longrightarrow> list_all any_char (mach_id_String mid) \<and> CHR ''@'' \<notin> set (mach_id_String mid)"
proof -
  have "list_all alnum (dec_string n)" for n using dec_string_digits(1) [of n] by (simp add: list_all_iff alnum_def)
  then have "list_all any_char (dec_string n) \<and> CHR ''@'' \<notin> set (dec_string n)" for n by (rule alnum_all)
  moreover assume "id_ok mid"
  ultimately show ?thesis by (cases mid) (simp add: id_ok_def mach_id_String_def dec_int_nat any_char_def)
qed

lemma mach_ids_agree: "machID_String mid = mach_id_String mid"
  by (simp add: machID_String_def mach_id_String_def)

subsection \<open>Copies of any machine\<close>

text \<open>The named values of a machine as keys and values, in the order in which they are written.\<close>

definition named_kvs :: "(u8 list, u32 list) mapping \<Rightarrow> (string \<times> string) list" where
  "named_kvs nvs = sort_key (\<lambda>(k, v). bytes_of (k @ ''='' @ v))
     (map (\<lambda>n. (''out_'' @ text_of n, words_string (Mapping.lookup_default [] nvs n))) (sorted_list_of_set (Mapping.keys nvs)))"

definition copy_kvs :: "(u8 list, u32 list) mapping \<Rightarrow> string \<Rightarrow> machID \<Rightarrow> u8 list list \<Rightarrow> (string \<times> string) list" where
  "copy_kvs nvs key mid ls =
     named_kvs nvs @ (key, machID_String mid) # (if ls = [] then [] else [(''labels'', quoted_labels ls)])"

text \<open>Names that can be keys, and labels without an at sign; both of ASCII characters.\<close>

definition name_ok :: "u8 list \<Rightarrow> bool" where
  "name_ok n \<longleftrightarrow> list_all (\<lambda>b. b < 128 \<and> key_char (char_of (unat b)) \<and> b \<noteq> 0x40) n"

definition label_ok :: "u8 list \<Rightarrow> bool" where
  "label_ok l \<longleftrightarrow> list_all (\<lambda>b. b < 128 \<and> b \<noteq> 0x40) l"

lemma text_of_bytes: "text_of (bytes_of s) = s"
proof -
  have "char_of (unat (of_char c :: u8)) = c" for c
  proof -
    have n: "(of_char c :: nat) < 256" by (rule nat_of_char_less_256)
    have "(of_char c :: u8) = of_nat (of_char c)" by (rule of_nat_of_char [symmetric])
    then have "unat (of_char c :: u8) = of_char c" using n by (simp only: unsigned_of_nat) (simp add: take_bit_nat_eq_self)
    then show ?thesis by simp
  qed
  then show ?thesis by (simp add: text_of_def bytes_of_def comp_def)
qed

lemma sort_map: "sort (map f xs) = map f (sort_key f xs)"
proof -
  have "insort (f x) (map f ys) = map f (insort_key f x ys)" for x ys by (induction ys) simp_all
  then show ?thesis by (induction xs) simp_all
qed

lemma spaced_format: "spaced (map (\<lambda>(k, v). k @ ''='' @ v) kvs) = format_kvs kvs"
  by (induction kvs rule: format_kvs.induct) auto

lemma named_format: "namedValueParts nvs = format_kvs (named_kvs nvs)"
proof -
  let ?f = "\<lambda>(k, v). bytes_of (k @ ''='' @ v)"
  let ?ps = "map (\<lambda>n. (''out_'' @ text_of n, words_string (Mapping.lookup_default [] nvs n))) (sorted_list_of_set (Mapping.keys nvs))"
  have "map (\<lambda>n. bytes_of (''out_'' @ text_of n @ ''='' @ words_string (Mapping.lookup_default [] nvs n)))
      (sorted_list_of_set (Mapping.keys nvs)) = map ?f ?ps" by simp
  then have "namedValueParts nvs = spaced (map text_of (sort (map ?f ?ps)))" unfolding namedValueParts_def by (rule arg_cong)
  also have "map text_of (sort (map ?f ?ps)) = map (\<lambda>(k, v). k @ ''='' @ v) (named_kvs nvs)"
    unfolding sort_map named_kvs_def by (simp add: text_of_bytes comp_def split_def)
  finally show ?thesis by (simp only: spaced_format)
qed

lemma format_append:
  "format_kvs (xs @ kv # ys) = (if xs = [] then '''' else format_kvs xs @ '' '') @ format_kvs (kv # ys)"
proof (induction xs)
  case (Cons x xs)
  then show ?case by (cases x; cases xs) (simp_all add: format_Cons)
qed simp

lemma format_clean: "\<forall>(k, v) \<in> set kvs. clean k \<and> clean v \<Longrightarrow> clean (format_kvs kvs)"
  by (induction kvs rule: format_kvs.induct) auto

lemma spaced_clean: "\<forall>x \<in> set xs. clean x \<Longrightarrow> clean (spaced xs)"
  by (induction xs rule: spaced.induct) auto

lemma dec_clean: "clean (dec_string n)"
proof -
  have "list_all alnum (dec_string n)" using dec_string_digits(1) [of n] by (simp add: list_all_iff alnum_def)
  then show ?thesis unfolding clean_def by (rule alnum_all)
qed

lemma at_char: "CHR ''@'' = char_of (unat b) \<Longrightarrow> unat (b :: u8) = 64"
proof -
  assume "CHR ''@'' = char_of (unat b)"
  then have "of_char (CHR ''@'') = (of_char (char_of (unat b)) :: nat)" by (rule arg_cong)
  moreover have "unat b < 256" using unsigned_less [of b] by simp
  ultimately show ?thesis by simp
qed

lemma labels_clean: "\<forall>l \<in> set ls. label_ok l \<Longrightarrow> clean (quoted_labels ls)"
proof -
  have "CHR ''@'' \<notin> set (text_of l)" if "label_ok l" for l
  proof -
    have "unat b \<noteq> 64" if "b \<in> set l" for b
      using that \<open>label_ok l\<close> by (auto simp: label_ok_def list_all_iff word_unat_eq_iff)
    moreover note at_char
    ultimately show ?thesis by (auto simp: text_of_def)
  qed
  then show "\<forall>l \<in> set ls. label_ok l \<Longrightarrow> clean (quoted_labels ls)"
    unfolding quoted_labels_def by (auto intro!: spaced_clean quote_clean)
qed

lemma name_readable: "name_ok n \<Longrightarrow> list_all key_char (''out_'' @ text_of n) \<and> clean (''out_'' @ text_of n)"
proof -
  assume n: "name_ok n"
  have "key_char c \<and> c \<noteq> CHR ''@''" if "c \<in> set (text_of n)" for c
  proof -
    obtain b where b: "b \<in> set n" "c = char_of (unat b)"
      using \<open>c \<in> set (text_of n)\<close> by (auto simp: text_of_def)
    with n have "key_char c" "b \<noteq> 0x40" by (simp_all add: name_ok_def list_all_iff)
    then show ?thesis using at_char [of b] b(2) by (auto simp: word_unat_eq_iff)
  qed
  then have "list_all key_char (text_of n) \<and> clean (text_of n)"
    by (auto simp: clean_def list_all_iff any_char_def key_char_def is_ws_def)
  then show ?thesis by (simp add: key_char_def is_ws_def)
qed

lemma named_kvs_ok:
  assumes "\<forall>n \<in> Mapping.keys nvs. name_ok n" "(k, v) \<in> set (named_kvs nvs)"
  shows "list_all key_char k" "value_ok v" "clean k" "clean v" "k \<noteq> ''child''" "k \<noteq> ''labels''" "k \<noteq> []" "hd k = CHR ''o''"
proof -
  have "set (sorted_list_of_set A) \<subseteq> A" for A :: "u8 list set"
    by (cases "finite A") (simp_all add: sorted_list_of_set.fold_insort_key.infinite)
  then obtain n where n: "n \<in> Mapping.keys nvs" "k = ''out_'' @ text_of n" "v = words_string (Mapping.lookup_default [] nvs n)"
    using assms(2) by (auto simp: named_kvs_def)
  then have "name_ok n" using assms(1) by blast
  from name_readable [OF this] show "list_all key_char k" "clean k" unfolding n(2) by blast+
  show "k \<noteq> ''child''" "k \<noteq> ''labels''" "k \<noteq> []" "hd k = CHR ''o''" unfolding n(2) by simp_all
  show "value_ok v" unfolding n(3) by (rule value_words)
  show "clean v" unfolding n(3) words_string_def by (auto intro!: spaced_clean dec_clean)
qed

lemma copy_kvs_ok:
  assumes "\<forall>n \<in> Mapping.keys nvs. name_ok n" "\<forall>l \<in> set ls. label_ok l" "id_ok mid" "key = ''child'' \<or> key = ''parent''"
  shows "scanKVs (format_kvs (copy_kvs nvs key mid ls)) = Some (copy_kvs nvs key mid ls)"
    "clean (format_kvs (copy_kvs nvs key mid ls))"
    "format_kvs (copy_kvs nvs key mid ls) \<noteq> [] \<and> hd (format_kvs (copy_kvs nvs key mid ls)) \<noteq> CHR '' ''"
proof -
  note named = named_kvs_ok [OF assms(1)]
  have key: "list_all key_char key" "clean key" "list_all key_char ''labels''" "clean ''labels''"
    using assms(4) by (auto simp: key_char_def is_ws_def)
  have v: "value_ok (machID_String mid)" "clean (machID_String mid)"
    using value_id [OF assms(3)] id_chars [OF assms(3)] by (simp_all add: mach_ids_agree clean_def)
  have "list_all key_char k \<and> value_ok w \<and> clean k \<and> clean w" if "(k, w) \<in> set (copy_kvs nvs key mid ls)" for k w
    using that named key v value_labels labels_clean [OF assms(2)] by (auto simp: copy_kvs_def split: if_splits)
  then show "scanKVs (format_kvs (copy_kvs nvs key mid ls)) = Some (copy_kvs nvs key mid ls)"
    "clean (format_kvs (copy_kvs nvs key mid ls))" by (auto intro!: scanKVs_format format_clean)
  obtain k w kvs where c: "copy_kvs nvs key mid ls = (k, w) # kvs" by (cases "copy_kvs nvs key mid ls") (auto simp: copy_kvs_def)
  have "k \<noteq> [] \<and> hd k \<noteq> CHR '' ''"
  proof (cases "named_kvs nvs")
    case Nil
    then show ?thesis using c assms(4) by (auto simp: copy_kvs_def)
  next
    case (Cons kv kvs')
    then have "(k, w) \<in> set (named_kvs nvs)" using c by (simp add: copy_kvs_def)
    from named(7,8) [OF this] show ?thesis by simp
  qed
  then show "format_kvs (copy_kvs nvs key mid ls) \<noteq> [] \<and> hd (format_kvs (copy_kvs nvs key mid ls)) \<noteq> CHR '' ''"
    unfolding c format_Cons by simp
qed

lemma copy_tail:
  "line_tail (Some (namedValueParts nvs @ '' child='' @ mach_id_String child)) ls =
    (if named_kvs nvs = [] then ''  '' else '' '') @ format_kvs (copy_kvs nvs ''child'' child ls)"
  unfolding copy_kvs_def format_append named_format line_tail_def by (simp add: mach_ids_agree format_Cons)

lemma child_parts_other: "\<forall>(k, v) \<in> set xs. k \<noteq> ''child'' \<Longrightarrow>
    child_parts c (xs @ ys) = (let (c', ps) = child_parts c ys in (c', xs @ ps))"
  by (induction xs arbitrary: c) (auto split: prod.splits)

lemma copy_child:
  assumes "\<forall>n \<in> Mapping.keys nvs. name_ok n" "\<forall>l \<in> set ls. label_ok l" "id_ok child"
  shows "scanChildKV (format_kvs (copy_kvs nvs ''child'' child ls)) = Some (child, format_kvs (copy_kvs nvs ''child'' child ls))"
proof -
  obtain gs where gs: "FindSubmatch midPat (mach_id_String child) = Some (gs, [])" "mid_of gs = child"
    using midPat_id [OF assms(3)] by blast
  have "child_parts zeroMachID (copy_kvs nvs ''child'' child ls) = (child, copy_kvs nvs ''child'' child ls)"
    using named_kvs_ok(5) [OF assms(1)] unfolding copy_kvs_def
    by (subst child_parts_other) (auto simp: gs mach_ids_agree)
  then show ?thesis by (simp add: scanChildKV_def copy_kvs_ok(1) [OF assms disjI1 [OF refl]])
qed

lemma copy_parent: "\<forall>n \<in> Mapping.keys nvs. name_ok n \<Longrightarrow>
  map (\<lambda>(k, v). if k = ''child'' then (''parent'', machID_String mid) else (k, v)) (copy_kvs nvs ''child'' child ls) =
    copy_kvs nvs ''parent'' mid ls"
  using named_kvs_ok(5) by (auto simp: copy_kvs_def intro!: map_idI)

text \<open>
  C25: the parent of a session is the machine that was copied.  A machine whose named values can be read queues a copy;
  their names are such that they can be keys, and its labels have no at sign.  Of the line that the log tracer
  writes, with the values, the id of the copy and the labels, the log tool makes the machine the parent of the session
  of the copy, and the line the last record of both sessions: the record of the machine has the texts of the line, and
  that of the copy has the machine as the parent in the place of the child.
\<close>
theorem Queue_line_links:
  assumes "log_Queue fuel (Some mid, Some n) di m (Some child) lf = Some lf'"
    and "NamedValues fuel m = Some (Inr nvs)" "\<forall>nm \<in> Mapping.keys nvs. name_ok nm" "\<forall>l \<in> set (dbg_Labels di (IP m)). label_ok l"
    and "id_ok mid" "id_ok child" "0 \<le> n" "n < 2 ^ 63" "child \<noteq> mid"
  shows "\<exists>line ss' par sess. lines lf' = lines lf @ [line] \<and> parse_line line (m0, ss) = Some (mid, ss') \<and>
    ss' mid = Some par \<and> rkind (last (recs par)) = copyLine \<and> cid (last (recs par)) = child \<and>
    rest (last (recs par)) = format_kvs (copy_kvs nvs ''child'' child (dbg_Labels di (IP m))) \<and>
    ss' child = Some sess \<and> pid sess = mid \<and>
    rest (last (recs sess)) = format_kvs (copy_kvs nvs ''parent'' mid (dbg_Labels di (IP m)))"
proof -
  let ?ls = "dbg_Labels di (IP m)"
  define x where "x = format_kvs (copy_kvs nvs ''child'' child ?ls)"
  define gap where "gap = (if named_kvs nvs = [] then ''  '' else '' '')"
  let ?line = "log_line (mach_id_String mid) n ''+++'' ''Copy'' (IP m) (gap @ x)"
  note ok = copy_kvs_ok [OF assms(3,4,6) disjI1 [OF refl], folded x_def]
  have l: "lines lf' = lines lf @ [?line]"
    using assms(1) copy_tail [of nvs child ?ls] by (auto simp: log_Queue_def assms(2) note_line_def x_def gap_def)
  have t: "tail_ok gap x" using ok(2,3) by (simp add: tail_ok_def clean_def gap_def space_only_def)
  have w: "note_ok ''Copy''" by (simp add: note_ok_def any_char_def space_char_def re_space_def)
  have k: "''+++'' \<in> set log_marks" by (simp add: log_marks_def)
  note rec = line_record(1) [OF assms(5,7,8) log_marks_ok [OF disjI2 [OF k]] w t]
    and add = line_added [OF assms(5,7,8) k w t]
  let ?rec = "(logged mid n ''Copy'' (IP m) x)\<lparr>rkind := copyLine, cid := child\<rparr>"
  have mk: "marked ''+++'' (logged mid n ''Copy'' (IP m) x) s = Some (?rec, s)" for s
    using copy_child [OF assms(3,4,6)] by (simp add: marked_def logged_def blank_rec_def x_def)
  obtain s0 where s0: "session_in mid ss mid = Some s0" using session_in_ss(1) by fastforce
  let ?s1 = "s0\<lparr>recs := recs s0 @ [?rec]\<rparr>" let ?ss1 = "(session_in mid ss)(mid \<mapsto> ?s1)"
  obtain s2 where s2: "session_in child ?ss1 child = Some s2" using session_in_ss(1) by fastforce
  have mid2: "session_in child ?ss1 mid = Some ?s1" using assms(9) by (auto simp: session_in_def split: option.split)
  let ?s3 = "s2\<lparr>pid := mid, recs := recs s2 @ [?rec\<lparr>rmid := child, cid := zeroMachID, rest := format_kvs (copy_kvs nvs ''parent'' mid ?ls)\<rparr>]\<rparr>"
  have "addCoCopyRec r s2 = Some (s2\<lparr>pid := rmid r, recs := recs s2 @ [r\<lparr>rmid := child, cid := zeroMachID,
      rest := format_kvs (copy_kvs nvs ''parent'' (rmid r) ?ls)\<rparr>]\<rparr>)" if "rest r = x" "cid r = child" for r
    using that ok(1) copy_parent [OF assms(3), of "rmid r" child ?ls] by (simp add: addCoCopyRec_def)
  from this [of ?rec] have "addCoCopyRec ?rec s2 = Some ?s3" by (simp add: logged_mid) (simp add: logged_def)
  then have "parse_line ?line (m0, ss) = Some (mid, (session_in child ?ss1)(child \<mapsto> ?s3))"
    by (simp add: parse_line_def rec add mk s0 copy_rec_def s2 line_done_def logged_mid Let_def del: append.simps)
  moreover have "((session_in child ?ss1)(child \<mapsto> ?s3)) mid = Some ?s1" using mid2 assms(9) by simp
  moreover have "rest ?rec = x" by (simp add: logged_def)
  ultimately show ?thesis using l by (intro exI conjI) (assumption | simp add: x_def)+
qed

text \<open>A machine with an output of one word and a label at its operation.\<close>

definition labelled :: vm where
  "labelled = (blank 60)\<lparr>outs := [\<lparr>rg_name = 0, rg_from = 0, rg_to = 4\<rparr>]\<rparr>"

definition label_f :: debugInfo where
  "label_f = addLabel 60 (bytes_of ''f'') no_debug"

definition one_value :: "(u8 list, u32 list) mapping" where
  "one_value = Mapping.update (bytes_of ''unnamed_output_0'') [0] Mapping.empty"

lemma labelled_values: "NamedValues 3 labelled = Some (Inr one_value)"
proof -
  have "outValues 3 labelled = Some (Inr ([\<lparr>rg_name = 0, rg_from = 0, rg_to = 4\<rparr>], [[0]]))" by code_simp
  moreover have "bytes_of ''unnamed_output_'' @ decimal 0 = bytes_of ''unnamed_output_0''" by code_simp
  ultimately show ?thesis by (simp add: NamedValues_def output_name_def one_value_def)
qed

lemma labelled_label: "dbg_Labels label_f (IP labelled) = [bytes_of ''f'']"
proof -
  have "IP labelled = 60" by code_simp
  then show ?thesis
    by (simp add: label_f_def dbg_Labels_def addLabel_def no_debug_def lookup_default_update Mapping.lookup_default_empty)
qed

theorem Queue_line_links_witness:
  "\<exists>line ss' sess. parse_line line ((0, 0, 0), Map.empty) = Some ((1, 0, 1), ss') \<and> ss' (1, 1, 2) = Some sess \<and>
    pid sess = (1, 0, 1) \<and>
    rest (last (recs sess)) = ''out_unnamed_output_0=[0] parent=1(0:1) labels=['' @ [CHR 0x22] @ ''f'' @ [CHR 0x22] @ '']''"
proof -
  have l: "dbg_Labels label_f (IP labelled) = [[102]]" unfolding labelled_label by code_simp
  obtain lf where q: "log_Queue 3 (Some (1, 0, 1), Some 7) label_f labelled (Some (1, 1, 2)) \<lparr>afterName = '''', afterFetch = 0, lines = []\<rparr> = Some lf"
    by (simp add: log_Queue_def labelled_values Let_def)
  have k: "\<forall>nm \<in> Mapping.keys one_value. name_ok nm"
  proof -
    have "Mapping.keys one_value = {bytes_of ''unnamed_output_0''}" by (simp add: one_value_def)
    moreover have "name_ok (bytes_of ''unnamed_output_0'')" by code_simp
    ultimately show ?thesis by simp
  qed
  have "label_ok [102]" by code_simp
  then have "\<forall>l \<in> set (dbg_Labels label_f (IP labelled)). label_ok l" by (simp add: l)
  moreover have "format_kvs (copy_kvs one_value ''parent'' (1, 0, 1) [[102]]) =
      ''out_unnamed_output_0=[0] parent=1(0:1) labels=['' @ [CHR 0x22] @ ''f'' @ [CHR 0x22] @ '']''"
  proof -
    have "sorted_list_of_set (Mapping.keys one_value) = [bytes_of ''unnamed_output_0'']" by (simp add: one_value_def)
    moreover have "Mapping.lookup_default [] one_value (bytes_of ''unnamed_output_0'') = [0]"
      by (simp add: one_value_def lookup_default_update)
    ultimately have "named_kvs one_value = [(''out_'' @ text_of (bytes_of ''unnamed_output_0''), words_string [0])]"
      by (simp add: named_kvs_def)
    moreover have "''out_'' @ text_of (bytes_of ''unnamed_output_0'') = ''out_unnamed_output_0''"
      "words_string [0] = ''[0]''" "machID_String (1, 0, 1) = ''1(0:1)''"
      "quoted_labels [[102]] = ''['' @ [CHR 0x22] @ ''f'' @ [CHR 0x22] @ '']''" by code_simp+
    ultimately show ?thesis by (simp add: copy_kvs_def)
  qed
  ultimately show ?thesis
    using Queue_line_links [OF q labelled_values k, of "(0, 0, 0)" Map.empty] by (auto simp: id_ok_def l)
qed

end
