(* ===== verification/Texts.thy ===== *)
theory Texts
  imports Formats
begin

text \<open>
  The texts of machines, regions and tokens: \<open>(*Mach).String\<close> and \<open>NoSuchOpError.Error\<close> (\<open>api.go\<close>),
  \<open>region.String\<close> (\<open>vm.go\<close>), \<open>opImmKind.String\<close> (\<open>ops.go\<close>), and the methods \<open>Name\<close> and \<open>String\<close> of the tokens of
  the assembler (\<open>x/assemble.go\<close>).  A panic, of the table of operations, is \<^const>\<open>None\<close>.
\<close>

subsection \<open>Machines\<close>

definition opImmKind_String :: "opImmKind \<Rightarrow> string" where
  "opImmKind_String k =
     (if k = opImmNone then ''NoImmediate'' else if k = opImmVal then ''ImmediateVal''
      else if k = opImmAddr then ''ImmediateAddr'' else if k = opImmOffset then ''ImmediateOffset''
      else ''InvalidImmediate<'' @ dec_int k @ ''>'')"

fun op_error_Error :: "op_error \<Rightarrow> string" where
  "op_error_Error (NoSuchOpError name) = ''no such operation '' @ quote name"
| "op_error_Error ErrNoArg = ''operation does not accept an argument''"

definition region_String :: "region \<Rightarrow> string" where
  "region_String rg = ''['' @ hex_width 8 (rg_from rg) @ '', '' @ hex_width 8 (rg_to rg) @ '']''"

definition Mach_String :: "vm \<Rightarrow> string" where
  "Mach_String m =
     ''Mach'' @
     (case err m of
        None \<Rightarrow> ''''
      | Some e \<Rightarrow>
          (let (code, h) = halted m
           in if h then '' HALT:'' @ dec_string (unat code) else '' ERR:'' @ merr_Error e)) @
     '' @'' @ hex_width 4 (ip m) @ '' '' @ hex_width 4 (pbp m) @ '':'' @ hex_width 4 (psp m) @
     '' '' @ hex_width 4 (cbp m) @ '':'' @ hex_width 4 (csp m)"

subsection \<open>Tokens\<close>

fun tokenKind_String :: "tokenKind \<Rightarrow> string" where
  "tokenKind_String optTK = ''opt''"
| "tokenKind_String opTK = ''op''"
| "tokenKind_String dataTK = ''data''"
| "tokenKind_String allocTK = ''alloc''"
| "tokenKind_String stringTK = ''string''"
| "tokenKind_String addrLabelTK = ''addrLabel''"
| "tokenKind_String invalidTK = ''invalid<00>''"

text \<open>\<^const>\<open>NameOption\<close> with its default.\<close>

definition option_name :: "u8 \<Rightarrow> string" where
  "option_name c =
     (case NameOption c of Some nm \<Rightarrow> nm | None \<Rightarrow> ''?<'' @ padl 2 (CHR ''0'') (hex_digits (unat c)) @ ''>'')"

definition tok_Name :: "token \<Rightarrow> string option" where
  "tok_Name tok =
     (case kind tok of
        optTK \<Rightarrow> Some (option_name (Code (tok_op tok)))
      | opTK \<Rightarrow> op_Name (tok_op tok)
      | dataTK \<Rightarrow> Some ''.data''
      | allocTK \<Rightarrow> Some ''.alloc''
      | stringTK \<Rightarrow> Some ''.string''
      | addrLabelTK \<Rightarrow> Some ''@label:''
      | invalidTK \<Rightarrow> Some (''UNKNOWN<'' @ tokenKind_String (kind tok) @ ''>''))"

text \<open>The label that a token refers to, behind it.\<close>

definition with_label :: "string \<Rightarrow> string \<Rightarrow> string" where
  "with_label l s = (if l \<noteq> '''' then s @ '' (:'' @ l @ '')'' else s)"

definition tok_String :: "token \<Rightarrow> string option" where
  "tok_String tok =
     (let op = tok_op tok
      in case kind tok of
           optTK \<Rightarrow> Some (with_label (str tok)
             (if Have op then ''.'' @ option_name (Code op) @ '' '' @ dec_string (unat (Arg op))
              else ''.'' @ option_name (Code op)))
         | opTK \<Rightarrow> map_option (with_label (str tok)) (op_String op)
         | dataTK \<Rightarrow> Some (''.data '' @ dec_string (unat (Arg op)))
         | allocTK \<Rightarrow> Some (''.alloc '' @ dec_string (unat (Arg op)))
         | stringTK \<Rightarrow> Some (''.string '' @ quote (str tok))
         | addrLabelTK \<Rightarrow> Some (''@'' @ str tok @ '':'')
         | invalidTK \<Rightarrow> Some (''UNKNOWN<'' @ tokenKind_String (kind tok) @ ''>''))"

text \<open>Every token that the constructors make has a text, and an option keeps its name in it.\<close>

lemma tok_String_total: "kind tok = opTK \<Longrightarrow> Code (tok_op tok) < 128 \<Longrightarrow> tok_String tok \<noteq> None"
  by (simp add: tok_String_def op_String_def ops_at_def Let_def word_less_nat_alt)

lemma tok_String_option:
  "kind tok = optTK \<Longrightarrow> NameOption (Code (tok_op tok)) = Some nm \<Longrightarrow> \<exists>s. tok_String tok = Some (''.'' @ nm @ s)"
  by (simp add: tok_String_def option_name_def with_label_def Let_def)

text \<open>
  The text of a machine shows the code of any halt, 0 included, for which \<open>Err\<close> gives no error; otherwise it shows an
  error just if \<open>Err\<close> gives one, the same but for the address.
\<close>

lemma Mach_String_Err:
  "Mach_String m =
     ''Mach'' @
     (case Err m of
        None \<Rightarrow> if err m = None then '''' else '' HALT:0''
      | Some e \<Rightarrow> (case Cause e of Inl code \<Rightarrow> '' HALT:'' @ dec_string (unat code) | Inr e \<Rightarrow> '' ERR:'' @ merr_Error e)) @
     '' @'' @ hex_width 4 (ip m) @ '' '' @ hex_width 4 (pbp m) @ '':'' @ hex_width 4 (psp m) @
     '' '' @ hex_width 4 (cbp m) @ '':'' @ hex_width 4 (csp m)"
proof -
  have "dec_string 0 = ''0''" by code_simp
  then show ?thesis by (cases "err m") (auto simp: Mach_String_def Err_def halted_def Let_def)
qed

end
