(* ===== verification/Tracing.thy ===== *)
theory Tracing
  imports Tracers
begin

text \<open>
  The calls of a tracer as a sequence of events: a tracer is a fold over the events of the trace, which
  are the same for every tracer, and the events follow a protocol.
\<close>

definition recorder :: "('e event list, 'e, unit) tracer" where
  "recorder =
     \<lparr>Context = \<lambda>m k es. (None, False), Begin = \<lambda>m es. es @ [EvBegin m], Before = \<lambda>m i op es. es @ [EvBefore m i op],
      After = \<lambda>m i op es. es @ [EvAfter m i op], Queue = \<lambda>m n es. es @ [EvQueue m n],
      End = \<lambda>m es. es @ [EvEnd m], Handle = \<lambda>m e es. es @ [EvHandle m e]\<rparr>"

lemma recorder_simps [simp]:
  "Begin recorder m es = es @ [EvBegin m]" "Before recorder m i op es = es @ [EvBefore m i op]"
  "After recorder m i op es = es @ [EvAfter m i op]" "Queue recorder m n es = es @ [EvQueue m n]"
  "End recorder m es = es @ [EvEnd m]" "Handle recorder m e es = es @ [EvHandle m e]"
  by (simp_all add: recorder_def)

fun on_tracer :: "('t \<Rightarrow> 'u) \<Rightarrow> ('e option \<times> 'h \<times> 't \<times> vm) outcome \<Rightarrow> ('e option \<times> 'h \<times> 'u \<times> vm) outcome" where
  "on_tracer f (Done (e, h, t, s)) = Done (e, h, f t, s)"
| "on_tracer f Panic = Panic"
| "on_tracer f Timeout = Timeout"

lemma queue_all_replay: "queue_all T cs (fold (notify T) es t) = fold (notify T) (queue_all recorder cs es) t"
proof (induction cs arbitrary: es)
  case (Cons c cs)
  obtain m n where c: "c = (m, n)" by (cases c)
  show ?case using Cons.IH [of "es @ [EvQueue m n]"] by (simp add: queue_all_def c)
qed (simp add: queue_all_def)

lemma trace_replay:
  "trace T H fuel h (fold (notify T) es t) s = on_tracer (\<lambda>es. fold (notify T) es t) (trace recorder H fuel h es s)"
proof (induction fuel arbitrary: h es s)
  case (Suc fuel)
  let ?f = "\<lambda>es. fold (notify T) es t"
  have IH: "trace T H fuel h x s = on_tracer ?f (trace recorder H fuel h es s)" if "x = ?f es" for h x es s
    using Suc.IH that by simp
  obtain en code arg e where r: "read (ip s) s = (en, code, arg, e)" by (metis prod_cases4)
  obtain x h1 where H: "H s h = (x, h1)" by fastforce
  obtain d s1 where D: "Dequeue s = (d, s1)" by fastforce
  show ?case
  proof (cases "err s = None")
    case True
    then show ?thesis
      by (cases e; cases "step s") (auto simp: r Let_def queue_all_replay [symmetric] intro!: IH)
  next
    case False
    then show ?thesis
      by (cases x; cases d) (auto simp: H D Let_def intro!: IH)
  qed
qed simp

lemma Trace_replay:
  "Trace T H fuel h t s = on_tracer (\<lambda>es. fold (notify T) es t) (Trace recorder H fuel h [] s)"
proof -
  have "trace T H fuel h (Begin T s t) s = on_tracer (\<lambda>es. fold (notify T) es t) (trace recorder H fuel h [EvBegin s] s)"
    using trace_replay [of T H fuel h "[EvBegin s]" t s] by simp
  then show ?thesis
    by (cases "trace recorder H fuel h [EvBegin s] s" rule: untraced.cases) (simp_all add: Trace_def)
qed


subsection \<open>The protocol\<close>

text \<open>
  Where a trace is: which machine it runs, and in which operation; with the addresses of the machines that it may
  come to run, because they were queued.
\<close>

datatype phase = Idle | Live nat | InOp nat Op | Queued nat Op | Over nat | Final

fun advance :: "'e event \<Rightarrow> phase \<times> nat set \<Rightarrow> (phase \<times> nat set) option" where
  "advance (EvBegin m) (p, A) = (if p = Idle \<and> self m \<in> A then Some (Live (self m), A) else None)"
| "advance (EvBefore m i op) (p, A) = (if p = Live (self m) \<and> i = ip m \<and> err m = None then Some (InOp (self m) op, A) else None)"
| "advance (EvQueue m n) (p, A) =
     (case p of InOp a op \<Rightarrow> if a = self m then Some (Queued a op, insert (fst n) A) else None | _ \<Rightarrow> None)"
| "advance (EvAfter m i op) (p, A) =
     (if p \<in> {InOp (self m) op, Queued (self m) op} \<and> i = ip m \<and> err m = None then Some (Live (self m), A) else None)"
| "advance (EvEnd m) (p, A) =
     (if err m = None then None
      else case p of
        Live a \<Rightarrow> if a = self m then Some (Over a, A) else None
      | InOp a op \<Rightarrow> if a = self m then Some (Over a, A) else None
      | Queued a op \<Rightarrow> if a = self m then Some (Over a, A) else None
      | _ \<Rightarrow> None)"
| "advance (EvHandle m e) (p, A) = (if p = Over (self m) then Some (if e = None then Idle else Final, A) else None)"

fun follows :: "'e event list \<Rightarrow> phase \<times> nat set \<Rightarrow> (phase \<times> nat set) option" where
  "follows [] p = Some p"
| "follows (ev # es) p = Option.bind (advance ev p) (follows es)"

lemma follows_append: "follows (es @ fs) p = Option.bind (follows es p) (follows fs)"
  by (induction es arbitrary: p) (auto split: Option.bind_split)

lemma queued_after_Enqueue: "set (queued (snd (Enqueue n m))) \<subseteq> insert n (set (queued m))"
  by (auto simp: Enqueue_def queued_def split: run_queue.splits prod.splits)

lemma follows_step:
  assumes "step s = Some s'" "follows es p = Some (InOp (self s) op, A)" "fst ` set (queued s) \<subseteq> A"
  shows "\<exists>q B. follows (queue_all recorder (step_queues s) es) p = Some (q, B) \<and> q \<in> {InOp (self s') op, Queued (self s') op} \<and>
    fst ` set (queued s') \<subseteq> B"
proof -
  have "queueing (step_queues s) s s'" by (rule step_queueing [OF assms(1)])
  then consider "step_queues s = []" "place s' = place s"
    | m n where "step_queues s = [(m, n)]" "place m = place s" "place s' = place (snd (Enqueue n m))"
    by (cases "step_queues s"; cases "tl (step_queues s)") (auto simp: queueing_def)
  then show ?thesis
  proof cases
    case 1
    then show ?thesis using assms(2,3) place_same [OF 1(2)] by (auto simp: queue_all_def)
  next
    case (2 m n)
    then have "fst ` set (queued s') \<subseteq> insert (fst n) A"
      using assms(3) queued_after_Enqueue [of n m] place_same [OF 2(2)] place_same [OF 2(3)] by auto
    with 2(1) assms(2) place_same [OF 2(2)] place_same [OF 2(3)] show ?thesis
      by (auto simp: queue_all_def follows_append self_Enqueue)
  qed
qed

lemma queued_free: "queued (free s) = queued s"
proof -
  have rq: "runq (release us u) = runq u" for us u
    by (induction us u rule: release.induct) (simp_all add: Let_def FreePage_def split: page_alloc.split)
  have "runq (free s) = runq s" by (simp add: free_def Let_def FreeMach_def rq)
  then show ?thesis by (simp add: queued_def)
qed

lemma resumed_place:
  assumes "Dequeue s = (Some (a, n), s1)"
  shows "a \<in> fst ` set (queued s)" "set (queued (switch a n (free s1))) \<subseteq> set (queued s)"
proof -
  have "queued (switch a n (free s1)) = queued s1" using queued_free [of s1] by (simp add: queued_def)
  then show "a \<in> fst ` set (queued s)" "set (queued (switch a n (free s1))) \<subseteq> set (queued s)"
    using Dequeue_queued(1) [OF assms] by auto
qed

definition running :: "nat \<Rightarrow> phase \<Rightarrow> bool" where
  "running a q \<longleftrightarrow> q = Live a \<or> (\<exists>op. q = InOp a op \<or> q = Queued a op)"

lemma advance_End: "running (self s) q \<Longrightarrow> err s \<noteq> None \<Longrightarrow> advance (EvEnd s) (q, A) = Some (Over (self s), A)"
  by (auto simp: running_def)

lemma trace_follows:
  assumes "trace recorder H fuel h es s = Done (e, h', es', n)"
    and "follows es p = Some (q, A)" "running (self s) q" "err s = None \<longrightarrow> q = Live (self s)" "fst ` set (queued s) \<subseteq> A"
  shows "\<exists>B. follows es' p = Some (if e = None then Idle else Final, B)"
  using assms
proof (induction fuel arbitrary: h es s q A)
  case (Suc fuel)
  obtain en code arg er where r: "read (ip s) s = (en, code, arg, er)" by (metis prod_cases4)
  obtain x h1 where H: "H s h = (x, h1)" by fastforce
  obtain d s1 where D: "Dequeue s = (d, s1)" by fastforce
  show ?case
  proof (cases "err s = None")
    case live: True
    show ?thesis
    proof (cases er)
      case (Some y)
      then have "trace recorder H fuel h es (s\<lparr>err := er\<rparr>) = Done (e, h', es', n)" using Suc.prems(1) live by (simp add: r)
      from Suc.IH [OF this, of q A] show ?thesis using Suc.prems(2,3,5) Some by (simp add: queued_def)
    next
      case None
      define op where "op = \<lparr>Code = opcode_code code, Arg = arg, Have = hasImm code\<rparr>"
      let ?es = "es @ [EvBefore s (ip s) op]"
      obtain s' where s': "step s = Some s'" using Suc.prems(1) live None by (cases "step s") (simp_all add: r Let_def)
      let ?qs = "queue_all recorder (step_queues s) ?es"
      let ?fs = "if err s' \<noteq> None then ?qs else ?qs @ [EvAfter s' (ip s') op]"
      have t: "trace recorder H fuel h ?fs s' = Done (e, h', es', n)"
        using Suc.prems(1) live None s' by (cases "err s'") (simp_all add: r op_def Let_def)
      have "follows ?es p = Some (InOp (self s) op, A)" using Suc.prems(2,4) live by (simp add: follows_append)
      from follows_step [OF s' this Suc.prems(5)] obtain u B where u:
        "follows ?qs p = Some (u, B)" "u \<in> {InOp (self s') op, Queued (self s') op}" "fst ` set (queued s') \<subseteq> B" by blast
      show ?thesis
      proof (cases "err s' = None")
        case True
        then have "follows ?fs p = Some (Live (self s'), B)" using u(1,2) by (auto simp: follows_append)
        from Suc.IH [OF t this _ _ u(3)] show ?thesis by (simp add: running_def)
      next
        case False
        then have "follows ?fs p = Some (u, B)" using u(1) by simp
        from Suc.IH [OF t this _ _ u(3)] show ?thesis using False u(2) by (auto simp: running_def)
      qed
    qed
  next
    case False
    let ?es = "es @ [EvEnd s]"
    have over: "follows (?es @ [EvHandle s x]) p = Some (if x = None then Idle else Final, A)"
      using Suc.prems(2) advance_End [OF Suc.prems(3) False] by (simp add: follows_append)
    show ?thesis
    proof (cases "x = None \<and> d \<noteq> None")
      case True
      then obtain a m where d: "d = Some (a, m)" by auto
      let ?s = "switch a m (free s1)"
      note place = resumed_place [OF D [unfolded d]]
      have "trace recorder H fuel h1 (?es @ [EvHandle s x, EvBegin ?s]) ?s = Done (e, h', es', n)"
        using Suc.prems(1) False True d by (simp add: H D Let_def)
      moreover have "follows (?es @ [EvHandle s x, EvBegin ?s]) p = Some (Live a, A)"
        using over True place(1) Suc.prems(5) by (auto simp: follows_append split: Option.bind_splits)
      moreover have "fst ` set (queued ?s) \<subseteq> A" using place(2) Suc.prems(5) by blast
      ultimately show ?thesis using Suc.IH by (fastforce simp: running_def)
    next
      case end_: False
      then have "es' = ?es @ [EvHandle s x] \<and> e = x" using Suc.prems(1) False by (cases x; cases d) (auto simp: H D Let_def)
      with over show ?thesis by blast
    qed
  qed
qed simp

lemma Trace_follows:
  assumes "Trace recorder H fuel h [] s = Done (e, h', es, n)" "queued s = []"
  shows "\<exists>A. follows es (Idle, {self s}) = Some (if e = None then Idle else Final, A)"
proof -
  obtain m where "trace recorder H fuel h [EvBegin s] s = Done (e, h', es, m)"
    using assms(1) by (cases "trace recorder H fuel h [EvBegin s] s" rule: untraced.cases) (auto simp: Trace_def)
  from trace_follows [OF this, of "(Idle, {self s})" "Live (self s)" "{self s}"] assms(2)
  show ?thesis by (simp add: running_def)
qed

text \<open>
  C21: the calls of every trace that starts without machines in its run queue follow the protocol of a tracer.  Whatever
  the tracer, it gets a sequence of calls in which a machine is begun, each of its operations is announced, then at most one
  machine is queued, then the operation is done or the machine ends with an error and is handled, all of that before the
  next machine is begun; and only the first machine is begun and those that were queued.  The sequence does not depend on
  the tracer: it is what a recording tracer writes down.
\<close>
theorem Trace_protocol:
  assumes "Trace T H fuel h t s = Done (e, h', t', n)" "queued s = []"
  shows "\<exists>es A. Trace recorder H fuel h [] s = Done (e, h', es, n) \<and> t' = fold (notify T) es t \<and>
    follows es (Idle, {self s}) = Some (if e = None then Idle else Final, A)"
proof -
  obtain es where es: "Trace recorder H fuel h [] s = Done (e, h', es, n)" "t' = fold (notify T) es t"
    using Trace_replay [of T H fuel h t s] assms(1)
    by (cases "Trace recorder H fuel h [] s" rule: untraced.cases) auto
  with Trace_follows [OF es(1) assms(2)] show ?thesis by blast
qed

lemma halting_steps: obtains t where "step halting = Some t" "err t = Some ErrHalted" "runq t = NoQueue"
proof -
  have "ip halting = 64" "limit halting = 0" "cbp halting = 60" "caches halting = [[]]" "opc halting = 0"
    by (simp_all add: halting_def blank_def)
  then have "step halting \<noteq> None"
    by (simp add: step_def get_def set_op_def read_halting Let_def exec_def exec_stack_def exec_memory_def
        exec_math_def exec_boolean_def exec_bitwise_def exec_bitvector_def exec_cstack_def exec_jump_def
        exec_call_def exec_fork_def exec_branch_def exec_halt_def halt_code)
  then show thesis using that step_halting by blast
qed

lemma halting_queues: "step_queues halting = []"
proof -
  have "ip halting = 64" "limit halting = 0" "cbp halting = 60" "caches halting = [[]]" "opc halting = 0"
    by (simp_all add: halting_def blank_def)
  then show ?thesis
    by (simp add: step_queues_def get_def set_op_def read_halting Let_def exec_queues_def halt_code)
qed

theorem Trace_protocol_witness:
  "\<exists>e es n A. Trace recorder defaultHandler 2 () [] halting = Done (e, (), es, n) \<and> length es = 4 \<and>
    follows es (Idle, {0}) = Some (if e = None then Idle else Final, A)"
proof -
  obtain t where t: "step halting = Some t" "err t = Some ErrHalted" "runq t = NoQueue" by (rule halting_steps)
  have h: "ip halting = 64" "err halting = None" "self halting = 0" "queued halting = []"
    by (simp_all add: halting_def blank_def queued_def)
  have d: "Dequeue t = (None, t)" using t(3) by (simp add: Dequeue_def)
  have "\<exists>e es n. Trace recorder defaultHandler 2 () [] halting = Done (e, (), es, n) \<and> length es = 4"
    using t h d by (cases "Err t")
      (simp_all add: Trace_def numeral_2_eq_2 read_halting halting_queues queue_all_def defaultHandler_def)
  then obtain e es n where T: "Trace recorder defaultHandler 2 () [] halting = Done (e, (), es, n)" "length es = 4" by blast
  from Trace_protocol [OF T(1) h(4)] obtain A where "follows es (Idle, {0}) = Some (if e = None then Idle else Final, A)"
    using T(1) by (auto simp: h(3))
  with T show ?thesis by blast
qed

end
