(* ===== verification/Wrapping.thy ===== *)
theory Wrapping
  imports Tracing
begin

text \<open>
  How a machine comes to be traced: \<open>machTracer\<close>, \<open>fixTracer\<close> and \<open>(*Mach).Tracer\<close> of \<open>api.go\<close>.

  A \<open>machTracer\<close> wraps the handler and the run queue of the context of a machine, and is never changed once it is
  made: it is a value, with the address by which \<open>Tracer\<close> compares two of them.  The handler (\<open>'h\<close>), the run queue
  (\<open>'q\<close>) and the tracer (\<open>'t\<close>) are what the interfaces hold otherwise.
\<close>

datatype ('h, 'q, 't) machTracer =
    MachTracer (mt_addr: nat) (mt_handler: "('h, 'q, 't) machHandler") (mt_queue: "('h, 'q, 't) runQueue") (mt_t: 't) (mt_m: nat)
  and ('h, 'q, 't) machHandler = PlainHandler 'h | TracedHandler "('h, 'q, 't) machTracer"
  and ('h, 'q, 't) runQueue = PlainQueue 'q | TracedQueue "('h, 'q, 't) machTracer"

record ('h, 'q, 't) ctx =
  c_handler :: "('h, 'q, 't) machHandler"
  c_queue :: "('h, 'q, 't) runQueue"

text \<open>The contexts of the machines, by the addresses of these, and the next address of a \<open>machTracer\<close>.\<close>

type_synonym ('h, 'q, 't) contexts = "nat \<times> (nat \<Rightarrow> ('h, 'q, 't) ctx)"

definition Tracer :: "('h, 'q, 't) ctx \<Rightarrow> 't option option" where
  "Tracer c =
     (case (c_handler c, c_queue c) of
        (PlainHandler h, PlainQueue q) \<Rightarrow> Some None
      | (TracedHandler mt1, TracedQueue mt2) \<Rightarrow> if mt_addr mt1 \<noteq> mt_addr mt2 then None else Some (Some (mt_t mt1))
      | _ \<Rightarrow> None)"

fun unwrap_handler :: "('h, 'q, 't) machHandler \<Rightarrow> 'h" where
  "unwrap_handler (PlainHandler h) = h"
| "unwrap_handler (TracedHandler (MachTracer a h q t m)) = unwrap_handler h"

fun unwrap_queue :: "('h, 'q, 't) runQueue \<Rightarrow> 'q" where
  "unwrap_queue (PlainQueue q) = q"
| "unwrap_queue (TracedQueue (MachTracer a h q t m)) = unwrap_queue q"

definition fixTracer :: "'t \<Rightarrow> nat \<Rightarrow> ('h, 'q, 't) contexts \<Rightarrow> ('h, 'q, 't) contexts" where
  "fixTracer t m cs =
     (let (a, C) = cs;
          h = PlainHandler (unwrap_handler (c_handler (C m)));
          q = PlainQueue (unwrap_queue (c_queue (C m)));
          mt = MachTracer a h q t m
      in (a + 1, C(m := \<lparr>c_handler = TracedHandler mt, c_queue = TracedQueue mt\<rparr>)))"

text \<open>
  \<open>Enqueue\<close> of a machine \<open>n\<close> on a queue, wrapped or not: the calls of \<open>Queue\<close> that are made, with the tracer and the
  machines, and the run queue that gets \<open>n\<close> in the end.
\<close>

fun ctx_Enqueue ::
  "('h, 'q, 't) runQueue \<Rightarrow> nat \<Rightarrow> ('h, 'q, 't) contexts \<Rightarrow> ('t \<times> nat \<times> nat) list \<times> 'q \<times> ('h, 'q, 't) contexts" where
  "ctx_Enqueue (PlainQueue q) n cs = ([], q, cs)"
| "ctx_Enqueue (TracedQueue (MachTracer a h q t m)) n cs =
     (let (calls, p, cs) = ctx_Enqueue q n (fixTracer t n cs) in ((t, m, n) # calls, p, cs))"

text \<open>\<open>*n = *m\<close> of \<open>copy\<close>, then \<open>m.ctx.Enqueue(n)\<close>: what a fork of the machine \<open>m\<close> does to the contexts.\<close>

definition ctx_fork :: "nat \<Rightarrow> nat \<Rightarrow> ('h, 'q, 't) contexts \<Rightarrow> ('t \<times> nat \<times> nat) list \<times> 'q \<times> ('h, 'q, 't) contexts" where
  "ctx_fork m n cs = (let (a, C) = cs; C = C(n := C m) in ctx_Enqueue (c_queue (C m)) n (a, C))"

fun ctx_forks :: "(nat \<times> nat) list \<Rightarrow> ('h, 'q, 't) contexts \<Rightarrow> ('t \<times> nat \<times> nat) list \<times> 'q list \<times> ('h, 'q, 't) contexts" where
  "ctx_forks [] cs = ([], [], cs)"
| "ctx_forks ((m, n) # fs) cs =
     (let (calls, q, cs) = ctx_fork m n cs; (calls', qs, cs) = ctx_forks fs cs in (calls @ calls', q # qs, cs))"

subsection \<open>Traced machines\<close>

text \<open>The context that \<open>fixTracer t m\<close> makes: one wrapper, of the plain handler and run queue.\<close>

definition traced_by :: "'h \<Rightarrow> 'q \<Rightarrow> 't \<Rightarrow> nat \<Rightarrow> ('h, 'q, 't) ctx \<Rightarrow> bool" where
  "traced_by h q t m c \<longleftrightarrow>
     (\<exists>a. c = \<lparr>c_handler = TracedHandler (MachTracer a (PlainHandler h) (PlainQueue q) t m),
               c_queue = TracedQueue (MachTracer a (PlainHandler h) (PlainQueue q) t m)\<rparr>)"

lemma traced_Tracer: "traced_by h q t m c \<Longrightarrow> Tracer c = Some (Some t)"
  by (auto simp: traced_by_def Tracer_def)

lemma traced_unwrap:
  "traced_by h q t m c \<Longrightarrow> unwrap_handler (c_handler c) = h \<and> unwrap_queue (c_queue c) = q"
  by (auto simp: traced_by_def)

lemma fixTracer_traced:
  "unwrap_handler (c_handler (C m)) = h \<Longrightarrow> unwrap_queue (c_queue (C m)) = q \<Longrightarrow>
    traced_by h q t m (snd (fixTracer t m (a, C)) m)"
  by (auto simp: traced_by_def fixTracer_def Let_def)

lemma fixTracer_other: "k \<noteq> m \<Longrightarrow> snd (fixTracer t m (a, C)) k = C k"
  by (simp add: fixTracer_def Let_def)

text \<open>Every machine of a set has a context of its own.\<close>

definition all_traced :: "'h \<Rightarrow> 'q \<Rightarrow> 't \<Rightarrow> nat set \<Rightarrow> ('h, 'q, 't) contexts \<Rightarrow> bool" where
  "all_traced h q t A cs \<longleftrightarrow> (\<forall>m\<in>A. traced_by h q t m (snd cs m))"

lemma ctx_fork_traced:
  assumes "all_traced h q t A cs" "m \<in> A"
  obtains cs' where "ctx_fork m n cs = ([(t, m, n)], q, cs')" "all_traced h q t (insert n A) cs'"
proof -
  obtain a C where cs: "cs = (a, C)" by (cases cs)
  let ?C = "C(n := C m)"
  have m: "traced_by h q t m (C m)" using assms by (simp add: all_traced_def cs)
  have "ctx_fork m n cs = ([(t, m, n)], q, fixTracer t n (a, ?C))"
    using m by (auto simp: ctx_fork_def cs traced_by_def)
  moreover have "all_traced h q t (insert n A) (fixTracer t n (a, ?C))"
    using assms(1) traced_unwrap [OF m]
    by (auto simp: all_traced_def cs fixTracer_other fixTracer_traced intro: fixTracer_traced)
      (metis fixTracer_other fixTracer_traced fun_upd_other fun_upd_same)
  ultimately show thesis using that by blast
qed

text \<open>
  \<open>Trace\<close> wraps its root only: a machine that an earlier trace left in the run queue keeps the tracer of that
  trace, which goes on to be told of its forks.
\<close>

lemma leftover_tracer:
  assumes "traced_by h q t m (snd cs m)" "m \<noteq> root"
  shows "fst (ctx_fork m n (fixTracer t' root cs)) = [(t, m, n)]"
proof -
  obtain a C where cs: "fixTracer t' root cs = (a, C)" by (cases "fixTracer t' root cs")
  have "C m = snd cs m" using assms(2) cs fixTracer_other [of m root t' "fst cs" "snd cs"] by simp
  with assms(1) have "all_traced h q t {m} (a, C)" by (simp add: all_traced_def)
  then obtain cs' where "ctx_fork m n (a, C) = ([(t, m, n)], q, cs')" by (rule ctx_fork_traced [of h q t "{m}" _ m n]) simp_all
  then show ?thesis by (simp add: cs)
qed

text \<open>Forks by machines of a set, and by those that these forked.\<close>

fun family :: "nat set \<Rightarrow> (nat \<times> nat) list \<Rightarrow> bool" where
  "family A [] = True"
| "family A ((m, n) # fs) = (m \<in> A \<and> family (insert n A) fs)"

lemma ctx_forks_traced:
  assumes "all_traced h q t A cs" "family A fs"
  shows "\<exists>cs'. ctx_forks fs cs = (map (Pair t) fs, replicate (length fs) q, cs') \<and>
    all_traced h q t (A \<union> snd ` set fs) cs'"
  using assms
proof (induction fs arbitrary: A cs)
  case (Cons f fs)
  obtain m n where f: "f = (m, n)" by (cases f)
  obtain cs1 where cs1: "ctx_fork m n cs = ([(t, m, n)], q, cs1)" "all_traced h q t (insert n A) cs1"
    using ctx_fork_traced [OF Cons.prems(1), of m n] Cons.prems(2) f by auto
  then obtain cs2 where "ctx_forks fs cs1 = (map (Pair t) fs, replicate (length fs) q, cs2)"
    "all_traced h q t (insert n A \<union> snd ` set fs) cs2"
    using Cons.IH [OF cs1(2)] Cons.prems(2) f by auto
  with cs1 show ?case by (simp add: f)
qed simp

subsection \<open>The forks of a trace\<close>

definition fork_of :: "'e event \<Rightarrow> (nat \<times> nat) list" where
  "fork_of ev = (case ev of EvQueue m n \<Rightarrow> [(self m, fst n)] | _ \<Rightarrow> [])"

definition forks_of :: "'e event list \<Rightarrow> (nat \<times> nat) list" where
  "forks_of es = concat (map fork_of es)"

fun runs_in :: "nat set \<Rightarrow> phase \<Rightarrow> bool" where
  "runs_in A (Live a) = (a \<in> A)"
| "runs_in A (InOp a op) = (a \<in> A)"
| "runs_in A (Queued a op) = (a \<in> A)"
| "runs_in A (Over a) = True"
| "runs_in A Idle = True"
| "runs_in A Final = True"

lemma advance_family:
  assumes "advance ev (p, A) = Some (q, B)" "runs_in A p"
  shows "B = A \<union> snd ` set (fork_of ev) \<and> family A (fork_of ev) \<and> runs_in B q"
  using assms by (cases ev; cases p) (auto simp: fork_of_def split: if_splits)

lemma family_append: "family A (fs @ gs) \<longleftrightarrow> family A fs \<and> family (A \<union> snd ` set fs) gs"
  by (induction A fs rule: family.induct) auto

lemma follows_family:
  "follows es (p, A) = Some (q, B) \<Longrightarrow> runs_in A p \<Longrightarrow> family A (forks_of es)"
proof (induction es arbitrary: p A)
  case (Cons ev es)
  obtain r D where ad: "advance ev (p, A) = Some (r, D)" "follows es (r, D) = Some (q, B)"
    using Cons.prems(1) by (auto split: Option.bind_splits)
  note adv = advance_family [OF ad(1) Cons.prems(2)]
  have "family D (forks_of es)" by (rule Cons.IH [OF ad(2)]) (use adv in blast)
  with adv show ?case by (simp add: forks_of_def family_append)
qed (simp add: forks_of_def)

lemma trace_family:
  assumes "Trace recorder H fuel h [] s = Done (e, h', es, n)" "queued s = []"
  shows "family {self s} (forks_of es)"
proof -
  obtain m where "trace recorder H fuel h [EvBegin s] s = Done (e, h', es, m)"
    using assms(1) by (cases "trace recorder H fuel h [EvBegin s] s" rule: untraced.cases) (auto simp: Trace_def)
  from trace_follows [OF this, of "(Idle, {self s})" "Live (self s)" "{self s}"] assms(2)
  obtain B where "follows es (Idle, {self s}) = Some (if e = None then Idle else Final, B)" by (auto simp: running_def)
  then show ?thesis using follows_family by fastforce
qed

text \<open>
  C20: the wrappers of contexts tell a tracer of the forks of a trace, all of them and nothing else: when the root is
  wrapped by \<open>fixTracer\<close> and its run queue is empty, then each fork of the trace goes through one wrapper, which names
  its true parent, to the run queue that the root had, and in the end the root and each forked machine has the handler
  and the run queue of the root and runs under the tracer.
\<close>
theorem Trace_wraps:
  assumes "Trace recorder H fuel h [] s = Done (e, h', es, n)" "queued s = []"
  shows "\<exists>cs'. ctx_forks (forks_of es) (fixTracer t (self s) (a, C)) =
      (map (Pair t) (forks_of es), replicate (length (forks_of es)) (unwrap_queue (c_queue (C (self s)))), cs') \<and>
    (\<forall>m \<in> insert (self s) (snd ` set (forks_of es)).
       Tracer (snd cs' m) = Some (Some t) \<and>
       traced_by (unwrap_handler (c_handler (C (self s)))) (unwrap_queue (c_queue (C (self s)))) t m (snd cs' m))"
proof -
  let ?h = "unwrap_handler (c_handler (C (self s)))" and ?q = "unwrap_queue (c_queue (C (self s)))"
  have "all_traced ?h ?q t {self s} (fixTracer t (self s) (a, C))"
    using fixTracer_traced [of C "self s" ?h ?q t a] by (simp add: all_traced_def)
  from ctx_forks_traced [OF this trace_family [OF assms]] obtain cs' where
    1: "ctx_forks (forks_of es) (fixTracer t (self s) (a, C)) =
      (map (Pair t) (forks_of es), replicate (length (forks_of es)) ?q, cs')"
    and 2: "all_traced ?h ?q t (insert (self s) (snd ` set (forks_of es))) cs'" by auto
  have tr: "traced_by ?h ?q t m (snd cs' m)" if "m \<in> insert (self s) (snd ` set (forks_of es))" for m
    using bspec [OF 2 [unfolded all_traced_def] that] .
  then show ?thesis using 1 by (intro exI [of _ cs'] conjI ballI) (blast intro: traced_Tracer)+
qed

subsection \<open>An example\<close>

text \<open>The trace of \<^const>\<open>forking\<close>: the machine forks once, then both machines run into their limit.\<close>

lemma limited:
  assumes "err s = None" "limit s = 1" "count s = 1"
  obtains es' x where "x \<noteq> None" "forks_of es' = []"
    "trace recorder H (Suc fuel) h es s = trace recorder H fuel h (es @ es') (s\<lparr>err := x\<rparr>)"
proof -
  obtain en code arg e where r: "read (ip s) s = (en, code, arg, e)" by (metis prod_cases4)
  have st: "step s = Some (s\<lparr>err := Some ErrLimit\<rparr>)" "step_queues s = []"
    using assms by (simp_all add: step_def step_queues_def)
  show thesis
  proof (cases "e = None")
    case True
    then show thesis using assms r st
      that [of "Some ErrLimit" "[EvBefore s (ip s) \<lparr>Code = opcode_code code, Arg = arg, Have = hasImm code\<rparr>]"]
      by (simp add: Let_def queue_all_def forks_of_def fork_of_def)
  next
    case False
    then show thesis using assms r that [of e "[]"] by (simp add: forks_of_def)
  qed
qed

lemma forks_of_simps [simp]: "forks_of [] = []" "forks_of (ev # es) = fork_of ev @ forks_of es"
    "forks_of (es @ fs) = forks_of es @ forks_of fs" "fork_of (EvBegin m) = []" "fork_of (EvEnd m) = []"
    "fork_of (EvBefore m i op) = []" "fork_of (EvAfter m i op) = []" "fork_of (EvHandle m e) = []"
    "fork_of (EvQueue m n) = [(self m, fst n)]"
  by (simp_all add: forks_of_def fork_of_def)

lemma trace_Suc_ended:
  "err s \<noteq> None \<Longrightarrow> Dequeue s = (Some (a, n), s1) \<Longrightarrow>
    trace recorder (\<lambda>s h. (None, h)) (Suc fuel) h es s =
    trace recorder (\<lambda>s h. (None, h)) fuel h (es @ [EvEnd s, EvHandle s None, EvBegin (switch a n (free s1))]) (switch a n (free s1))"
  by (cases "err s") (simp_all add: Let_def)

lemma trace_Suc_over:
  "err s \<noteq> None \<Longrightarrow> Dequeue s = (None, s1) \<Longrightarrow>
    trace recorder (\<lambda>s h. (None, h)) (Suc fuel) h es s = Done (None, h, es @ [EvEnd s, EvHandle s None], s1)"
  by (cases "err s") (simp_all add: Let_def)

lemma trace_Suc_step:
  "err s = None \<Longrightarrow> read (ip s) s = (en, code, arg, None) \<Longrightarrow> step s = Some s' \<Longrightarrow> err s' = None \<Longrightarrow>
    \<exists>op. trace recorder H (Suc fuel) h es s =
    trace recorder H fuel h (queue_all recorder (step_queues s) (es @ [EvBefore s (ip s) op]) @ [EvAfter s' (ip s') op]) s'"
  by (rule exI [of _ "\<lparr>Code = opcode_code code, Arg = arg, Have = hasImm code\<rparr>"]) (simp add: Let_def)

lemma forking_traced:
  "\<exists>es n. Trace recorder (\<lambda>s h. (None, h)) 5 () [] forking = Done (None :: unit option, (), es, n) \<and> forks_of es = [(0, 1)]"
proof -
  let ?H = "\<lambda>s h. (None, h)"
  let ?tr = "\<lambda>f es s. trace recorder ?H f () es s :: (unit option \<times> unit \<times> unit event list \<times> vm) outcome"
  obtain s1 m where s1: "step forking = Some s1" "err s1 = None" "limit s1 = 1" "count s1 = 1"
    "runq s1 = RunQ 1 [(1, m)]" "err m = None" "limit m = 1" "count m = 1" using step_forking by blast
  obtain q n where q: "step_queues forking = [(q, 1, n)]" "self q = 0" using queues_forking by blast
  obtain es1 where es1: "?tr (Suc 4) [EvBegin forking] forking = ?tr 4 es1 s1" "forks_of es1 = [(0, 1)]"
    using trace_Suc_step [of forking 66 "0xc0" 36 s1 ?H 4 "()" "[EvBegin forking :: unit event]"] s1(1,2) q
    by (auto simp: read_forking forking_fields queue_all_def)
  obtain es2 x where es2: "x \<noteq> None" "?tr (Suc 3) es1 s1 = ?tr 3 es2 (s1\<lparr>err := x\<rparr>)" "forks_of es2 = [(0, 1)]"
  proof (rule limited [OF s1(2-4), of ?H 3 "()" es1])
    fix es' x assume "x \<noteq> None" "forks_of es' = []" "?tr (Suc 3) es1 s1 = ?tr 3 (es1 @ es') (s1\<lparr>err := x\<rparr>)"
    then show thesis using that [of x "es1 @ es'"] es1(2) by simp
  qed
  define c where "c = switch 1 m (free (s1\<lparr>err := x, runq := RunQ 1 []\<rparr>))"
  have "err c = err m" "limit c = limit m" "count c = count m" by (simp_all add: c_def switch_def mach.defs)
  then have c: "err c = None" "limit c = 1" "count c = 1" using s1(6-8) by simp_all
  have "Dequeue (s1\<lparr>err := x\<rparr>) = (Some (1, m), s1\<lparr>err := x, runq := RunQ 1 []\<rparr>)" using s1(5) by (simp add: Dequeue_def)
  then obtain es3 where es3: "?tr (Suc 2) es2 (s1\<lparr>err := x\<rparr>) = ?tr 2 es3 c" "forks_of es3 = [(0, 1)]"
    using trace_Suc_ended [of "s1\<lparr>err := x\<rparr>" 1 m "s1\<lparr>err := x, runq := RunQ 1 []\<rparr>" 2 "()" es2] es2(1,3) by (simp add: c_def)
  obtain es4 y where es4: "y \<noteq> None" "?tr (Suc 1) es3 c = ?tr 1 es4 (c\<lparr>err := y\<rparr>)" "forks_of es4 = [(0, 1)]"
  proof (rule limited [OF c, of ?H 1 "()" es3])
    fix es' x assume "x \<noteq> None" "forks_of es' = []" "?tr (Suc 1) es3 c = ?tr 1 (es3 @ es') (c\<lparr>err := x\<rparr>)"
    then show thesis using that [of x "es3 @ es'"] es3(2) by simp
  qed
  have "queued c = queued (free (s1\<lparr>err := x, runq := RunQ 1 []\<rparr>))" by (simp add: c_def queued_def)
  then have "queued c = []" by (simp add: queued_free) (simp add: queued_def)
  then have "Dequeue (c\<lparr>err := y\<rparr>) = (None, c\<lparr>err := y\<rparr>)" by (auto simp: Dequeue_def queued_def split: run_queue.splits)
  from trace_Suc_over [OF _ this, of 0 "()" es4] es4(1,3) obtain es5
    where es5: "?tr (Suc 0) es4 (c\<lparr>err := y\<rparr>) = Done (None, (), es5, c\<lparr>err := y\<rparr>)" "forks_of es5 = [(0, 1)]" by simp
  have n: "(5::nat) = Suc 4" "(4::nat) = Suc 3" "(3::nat) = Suc 2" "(2::nat) = Suc 1" "(1::nat) = Suc 0" by simp_all
  note es1(1)
  also note n(2)
  also note es2(2)
  also note n(3)
  also note es3(1)
  also note n(4)
  also note es4(2)
  also note n(5)
  also note es5(1)
  finally have "?tr 5 [EvBegin forking] forking = Done (None, (), es5, c\<lparr>err := y\<rparr>)" by (simp only: n)
  with es5(2) show ?thesis by (simp add: Trace_def del: trace.simps)
qed

theorem Trace_wraps_witness:
  "\<exists>es n cs'. Trace recorder (\<lambda>s h. (None, h)) 5 () [] forking = Done (None :: unit option, (), es, n) \<and>
    ctx_forks (forks_of es) (fixTracer ''t'' 0 (0, \<lambda>m. \<lparr>c_handler = PlainHandler ''h'', c_queue = PlainQueue ''q''\<rparr>)) =
      ([(''t'', 0, 1)], [''q''], cs') \<and>
    Tracer (snd cs' 0) = Some (Some ''t'') \<and> Tracer (snd cs' 1) = Some (Some ''t'')"
proof -
  obtain es n where T: "Trace recorder (\<lambda>s h. (None, h)) 5 () [] forking = Done (None :: unit option, (), es, n)"
    and f: "forks_of es = [(0, 1)]" using forking_traced by blast
  have "queued forking = []" "self forking = 0" by (simp_all add: queued_def forking_fields)
  then show ?thesis using Trace_wraps [OF T, of "''t''" 0 "\<lambda>m. \<lparr>c_handler = PlainHandler ''h'', c_queue = PlainQueue ''q''\<rparr>"] T
    by (auto simp: f)
qed

end
