(* ===== verification/Registers.thy ===== *)
theory Registers
  imports Frames
begin

text \<open>
  The registers of all machines: \<open>pbp\<close> and \<open>cbp\<close> never change, the stack pointers stay multiples of
  the word size, and no operation transfers control into the memory of the stacks.
\<close>

text \<open>\<open>regs_ok e P C m\<close>: the registers of \<open>m\<close>, whose \<open>ip\<close> is \<open>e\<close> or outside the stacks.\<close>

definition regs_ok :: "u32 \<Rightarrow> u32 \<Rightarrow> u32 \<Rightarrow> 'a mach_scheme \<Rightarrow> bool" where
  "regs_ok e P C m \<longleftrightarrow> pbp m = P \<and> cbp m = C \<and> unat (psp m) mod 4 = 0 \<and> unat (csp m) mod 4 = 0 \<and>
     (ip m = e \<or> ip m < P \<or> C < ip m)"

lemma unat_plus_4_mod: "unat (x + 4 :: u32) mod 4 = unat x mod 4"
proof -
  have "unat (x + 4) = (unat x + 4) mod 4294967296" by (simp add: unat_word_ariths)
  moreover have "(y mod 4294967296) mod 4 = y mod (4 :: nat)" for y by (rule mod_mod_cancel) simp
  ultimately show ?thesis by simp
qed

lemma unat_minus_4_mod: "unat (x - 4 :: u32) mod 4 = unat x mod 4"
  using unat_plus_4_mod [of "x - 4"] by simp

lemma regs_ok_cong:
  assumes "regs_ok e P C s" "pbp s' = pbp s" "cbp s' = cbp s" "ip s' = ip s"
    "psp s' = psp s \<or> psp s' = psp s + 4 \<or> psp s' = psp s - 4"
    "csp s' = csp s \<or> csp s' = csp s + 4 \<or> csp s' = csp s - 4"
  shows "regs_ok e P C s'"
  using assms by (auto simp: regs_ok_def unat_plus_4_mod unat_minus_4_mod)

lemma regs_ok_jumpTo: "regs_ok e P C s \<Longrightarrow> regs_ok e P C (snd (jumpTo a s))"
  by (auto simp: regs_ok_def jumpTo_def not_le)

definition regs_inv :: "u32 \<Rightarrow> u32 \<Rightarrow> u32 \<Rightarrow> (nat \<times> mach) list \<Rightarrow> nat \<Rightarrow> vm \<Rightarrow> bool" where
  "regs_inv e P C q n s \<longleftrightarrow> regs_ok e P C s \<and>
     (\<exists>ms. queued s = q @ ms \<and> (\<forall>(a, m) \<in> set ms. regs_ok e P C m))"

lemma queued_runq: "runq s' = runq s \<Longrightarrow> queued s' = queued s"
  by (simp add: queued_def)

lemma regs_inv_frame:
  assumes "regs_inv e P C q n s" "frame s s'"
    "psp s' = psp s \<or> psp s' = psp s + 4 \<or> psp s' = psp s - 4"
    "csp s' = csp s \<or> csp s' = csp s + 4 \<or> csp s' = csp s - 4"
  shows "regs_inv e P C q n s'"
proof -
  have f: "pbp s' = pbp s" "cbp s' = cbp s" "ip s' = ip s" "queued s' = queued s"
    using assms(2) queued_runq [of s' s] unfolding frame_def by blast+
  have "regs_ok e P C s" using assms(1) by (simp add: regs_inv_def)
  from regs_ok_cong [OF this f(1-3) assms(3,4)] assms(1) show ?thesis unfolding regs_inv_def f(4) by blast
qed

lemma regs_ok_cur: "regs_ok e P C (cur s) = regs_ok e P C s"
  by (simp add: regs_ok_def cur_def mach.defs)

lemma regs_copy:
  assumes "regs_inv e P C q n s" "copy s = (Inr (a, m), s')"
  shows "regs_inv e P C q k s'" "regs_ok e P C m" "frame s s'" "psp s' = psp s" "csp s' = csp s"
proof -
  obtain al n' h where s': "s' = s\<lparr>malloc := al, next_mach := n', heap := h\<rparr>"
    using copy_frame(1) [OF assms(2)] by blast
  show f: "frame s s'" "psp s' = psp s" "csp s' = csp s" by (simp_all add: s' frame_def)
  then show "regs_inv e P C q k s'" using regs_inv_frame [OF assms(1) f(1)] by (simp add: regs_inv_def)
  obtain ps sp where "m = (cur s)\<lparr>pages := ps, spare := sp\<rparr>" using copy_frame(2) [OF assms(2)] by blast
  then show "regs_ok e P C m"
    using assms(1) regs_ok_cur [of e P C s] by (simp add: regs_inv_def regs_ok_def)
qed

lemma regs_Enqueue:
  assumes "regs_inv e P C q n s" "regs_ok e P C m"
  shows "regs_inv e P C q k (snd (Enqueue (a, m) s))"
proof (cases "fst (Enqueue (a, m) s)")
  case None
  then obtain cap r where r: "runq s = RunQ cap r"
    "snd (Enqueue (a, m) s) = s\<lparr>runq := RunQ cap (r @ [(a, m)])\<rparr>"
    by (auto simp: Enqueue_def split: run_queue.splits if_splits)
  from assms(1) obtain ms where "queued s = q @ ms" "\<forall>(a, m) \<in> set ms. regs_ok e P C m" "regs_ok e P C s"
    by (auto simp: regs_inv_def)
  with r assms(2) show ?thesis
    by (auto simp: regs_inv_def regs_ok_def queued_def intro!: exI [of _ "ms @ [(a, m)]"])
next
  case (Some x)
  then have "snd (Enqueue (a, m) s) = s" by (auto simp: Enqueue_def split: run_queue.splits if_splits)
  with assms(1) show ?thesis by (simp add: regs_inv_def)
qed

lemma regs_jumpTo:
  assumes "regs_inv e P C q n s"
  shows "regs_inv e P C q k (snd (jumpTo a s))"
  using assms regs_ok_jumpTo [of e P C s a] by (auto simp: regs_inv_def jumpTo_def queued_def)

lemma regs_cpop:
  assumes "regs_inv e P C q n s" "cpop s = Some (r, s')"
  shows "regs_inv e P C q n s'"
  using regs_inv_frame [OF assms(1)] cpop_regs [OF assms(2)] by auto

lemma regs_Dequeued_ip: "regs_ok e P C m \<Longrightarrow> \<not> (P \<le> x \<and> x \<le> C) \<Longrightarrow> regs_ok e P C (m\<lparr>ip := x\<rparr>)"
  by (auto simp: regs_ok_def)

lemma regs_copy_error:
  assumes "regs_inv e P C q n s" "copy s = (Inl x, t)"
  shows "regs_inv e P C q k t"
  using regs_inv_frame [OF assms(1), of t] copy_error_state [OF assms(2)]
  by (auto simp: frame_def regs_inv_def)

lemma regs_ok_switch: "regs_ok e P C (switch a m t) = regs_ok e P C m"
  by (cases t; cases m; simp add: switch_def mach.defs regs_ok_def)

lemma regs_cfork:
  assumes I: "regs_inv e P C q n s"
  shows "keeps (regs_inv e P C q k) (cfork s)"
proof (rule copy_cases [of s])
  fix x t assume "copy s = (Inl x, t)"
  with regs_copy_error [OF I this] show ?thesis by (simp add: cfork_def)
next
  fix a m t assume c: "copy s = (Inr (a, m), t)"
  note r = regs_copy [OF I c]
  have m: "regs_ok e P C (m\<lparr>csp := csp m + 4\<rparr>)"
    by (rule regs_ok_cong [OF r(2)]) simp_all
  have csp: "csp (switch a m t) = csp m" by (cases t; cases m; simp add: switch_def mach.defs)
  have pc: "pbp (switch a m t) = P" "cbp (switch a m t) = C"
    using regs_ok_switch [of e P C a m t] r(2) by (simp_all add: regs_ok_def)
  have enq: "regs_inv e P C q k (snd (Enqueue (a, m'\<lparr>ip := x\<rparr>) t))"
    if "regs_ok e P C m'" "\<not> (P \<le> x \<and> x \<le> C)" for m' x
    using regs_Enqueue [OF r(1) regs_Dequeued_ip [OF that]] .
  show ?thesis
  proof (rule cpop_cases [of "switch a m t"])
    assume "cpop (switch a m t) = None"
    then show ?thesis by (simp add: cfork_def c)
  next
    fix y assume "cpop (switch a m t) = Some (y, switch a m t)"
    with r(1) enq [OF r(2)] show ?thesis
      by (cases y) (auto simp: cfork_def c jumpTo_def Let_def switch_back keeps_pair pc)
  next
    fix y assume "cpop (switch a m t) = Some (y, (switch a m t)\<lparr>csp := csp (switch a m t) + 4\<rparr>)"
    moreover have eq: "m\<lparr>csp := y, ip := x\<rparr> = m\<lparr>ip := x, csp := y\<rparr>" for x y by (cases m) simp
    note enq [OF m, unfolded eq]
    ultimately show ?thesis using r(1)
      by (cases y) (auto simp: cfork_def c jumpTo_def Let_def switch_back keeps_pair pc csp)
  qed
qed

lemma regs_cbranch:
  assumes I: "regs_inv e P C q n s"
  shows "keeps (regs_inv e P C q k) (cbranch s)"
proof (rule copy_cases [of s])
  fix x t assume "copy s = (Inl x, t)"
  with regs_copy_error [OF I this] show ?thesis by (simp add: cbranch_def)
next
  fix a m t assume c: "copy s = (Inr (a, m), t)"
  note r = regs_copy [OF I c]
  have one: "keeps (regs_inv e P C q k) (Some (let (e, u) = Enqueue (a, m) u in
      if e \<noteq> None then (e, u) else jumpTo x u))" if "regs_inv e P C q k u" for x u
    using regs_jumpTo [OF regs_Enqueue [OF that r(2), of k a], of k x] regs_Enqueue [OF that r(2), of k a]
    by (cases "Enqueue (a, m) u") (auto simp: keeps_pair)
  show ?thesis
  proof (cases "cpop t")
    case None
    then show ?thesis by (simp add: cbranch_def c)
  next
    case (Some y)
    obtain x z u where y: "y = ((x, z), u)" by (metis surj_pair)
    have u: "regs_inv e P C q k u" using regs_cpop [OF r(1)] Some by (simp add: y)
    from one [OF u, of x] u show ?thesis
      by (cases "Enqueue (a, m) u") (auto simp: cbranch_def c Some y)
  qed
qed

interpretation regs: exec_invariant "regs_inv e P C q" for e P C q
proof unfold_locales
  fix n s x assume I: "regs_inv e P C q n s"
  then show "regs_inv e P C q m s" for m by (simp add: regs_inv_def)
  show "regs_inv e P C q n (s\<lparr>pa := x\<rparr>)" by (rule regs_inv_frame [OF I]) simp_all
  show "regs_inv e P C q n (s\<lparr>err := y\<rparr>)" for y
    using I by (simp add: regs_inv_def regs_ok_def queued_def)
  show "regs_inv e P C q n (snd (jumpTo a s))" for a by (rule regs_jumpTo [OF I])
  show "keeps (regs_inv e P C q n) (push v s)" for v
    unfolding keeps_def using push_regs regs_inv_frame [OF I] by blast
  show "keeps (regs_inv e P C q n) (drop_m s)"
    unfolding keeps_def using drop_regs regs_inv_frame [OF I] by blast
  show "keeps (regs_inv e P C q n) (cpush v s)" for v
    unfolding keeps_def using cpush_regs regs_inv_frame [OF I] by blast
  show "keeps (regs_inv e P C q n) (cpop s)"
    unfolding keeps_def using regs_cpop [OF I] by blast
  show "keeps (regs_inv e P C q n) (store a v s)" for a v
    unfolding keeps_def using store_regs regs_inv_frame [OF I] by blast
  show ref: "regs_inv e P C q n (snd (ref a s))" for a
    using ref_regs [of a s "fst (ref a s)" "snd (ref a s)"] regs_inv_frame [OF I, of "snd (ref a s)"] by auto
  show "kept (regs_inv e P C q n) (store_to l v s')" if "ref a s = (Inr l, s')" for a l v s'
  proof -
    have "regs_inv e P C q n s'" using ref [of a] that by simp
    from regs_inv_frame [OF this] show ?thesis unfolding kept_def using store_to_regs by blast
  qed
  show "regs_inv e P C q (Suc n) (snd (fork off s))" for off
  proof (rule copy_cases [of s])
    fix x t assume "copy s = (Inl x, t)"
    with I regs_copy_error [OF I this] show ?thesis by (auto simp: fork_def Let_def regs_inv_def)
  next
    fix a m t assume c: "copy s = (Inr (a, m), t)"
    note r = regs_copy [OF I c]
    show ?thesis using I regs_Enqueue [OF r(1) regs_Dequeued_ip [OF r(2), of "ip s + off"]]
      by (auto simp: fork_def Let_def c regs_inv_def regs_ok_def)
  qed
  show "regs_inv e P C q (Suc n) (snd (branch off s))" for off
  proof (rule copy_cases [of s])
    fix x t assume "copy s = (Inl x, t)"
    with I regs_copy_error [OF I this] show ?thesis by (auto simp: branch_def Let_def regs_inv_def)
  next
    fix a m t assume c: "copy s = (Inr (a, m), t)"
    note r = regs_copy [OF I c]
    have "regs_inv e P C q (Suc n) (t\<lparr>ip := ip s + off\<rparr>)" if "\<not> (pbp s \<le> ip s + off \<and> ip s + off \<le> cbp s)"
      using that r(1) [of n] regs_Dequeued_ip [of e P C t] I by (auto simp: regs_inv_def regs_ok_def queued_def)
    from regs_Enqueue [OF this r(2)] show ?thesis using I
      by (auto simp: branch_def Let_def c regs_inv_def)
  qed
  show "keeps (regs_inv e P C q (Suc n)) (cfork s)" by (rule regs_cfork [OF I])
  show "keeps (regs_inv e P C q (Suc n)) (cbranch s)" by (rule regs_cbranch [OF I])
qed

text \<open>
  C13: no operation transfers control into the memory of the stacks: after it, the running machine
  is at the next operation, or outside \<open>[pbp, cbp]\<close>, and so is every machine that it has queued; the
  stack pointers of all of them are still multiples of the word size, and the bases are unchanged.
\<close>
theorem exec_registers:
  assumes "unat (psp s) mod 4 = 0" "unat (csp s) mod 4 = 0" "exec code arg s = Some s'"
  shows "regs_ok (ip s) (pbp s) (cbp s) s' \<and>
    (\<exists>ms. queued s' = queued s @ ms \<and> (\<forall>(a, m) \<in> set ms. regs_ok (ip s) (pbp s) (cbp s) m))"
proof -
  have "regs_inv (ip s) (pbp s) (cbp s) (queued s) 0 s"
    using assms(1,2) by (simp add: regs_inv_def regs_ok_def)
  from regs.exec [OF this, of code arg] assms(3) show ?thesis by (simp add: regs_inv_def)
qed

lemma exec_push_blank:
  "\<exists>s'. exec 0x82 5 (blank 64) = Some s' \<and> psp s' = 0"
  by (simp add: exec_def exec_stack_def opcode_code_def opCodeWithImm_def hasImm_def op_of_def all_ops_def
      seterr_def push_def blank_def pspInit_def)

theorem exec_registers_witness:
  "\<exists>s'. exec 0x82 5 (blank 64) = Some s' \<and> regs_ok 64 0 60 s' \<and> psp s' = 0"
proof -
  obtain s' where s': "exec 0x82 5 (blank 64) = Some s'" "psp s' = 0" using exec_push_blank by blast
  have "unat (psp (blank 64)) mod 4 = 0" "unat (csp (blank 64)) mod 4 = 0"
    by (simp_all add: blank_def unat_pspInit)
  from exec_registers [OF this s'(1)] s' show ?thesis by (simp add: blank_def)
qed

end
