(* ===== verification/Dumper.thy ===== *)
theory Dumper
  imports Registers Isolation Formats
begin

text \<open>
  The memory dumper, \<open>x/dumper/dumper.go\<close>: the lines that \<open>Dump\<close> logs.

  The address of the bytes of a line in the memory of the process, which the lines have if \<open>DumpPointers\<close> is
  set, is the argument \<open>ptr\<close>.  What panics is \<^const>\<open>None\<close>.
\<close>

text \<open>The loop of \<open>annotateStackBytes\<close>, which indexes beyond the end if bytes are left over.\<close>

fun le_words :: "u8 list \<Rightarrow> u32 list option" where
  "le_words [] = Some []"
| "le_words (a # b # c # d # bs) = map_option (Cons (get_u32 a b c d)) (le_words bs)"
| "le_words _ = None"

definition annotateStackBytes :: "u32 \<Rightarrow> u8 list \<Rightarrow> u32 \<Rightarrow> u32 \<Rightarrow> string option" where
  "annotateStackBytes addr l bp sp =
     (let lo = addr; hi = addr + of_nat (length l);
          lo = (if bp > lo then bp else lo); hi = (if sp < hi then sp else hi)
      in if lo \<ge> hi then Some ''''
         else map_option words_string (le_words (drop (unat (lo - addr)) (take (unat (hi - addr)) l))))"

definition line_annotation :: "(u32 \<Rightarrow> string) option \<Rightarrow> vm \<Rightarrow> u32 \<Rightarrow> u8 list \<Rightarrow> string option" where
  "line_annotation ptr m addr l =
     do {
       p \<leftarrow> annotateStackBytes addr l (PBP m) (PSP m);
       c \<leftarrow> annotateStackBytes addr l (CSP m + 4) (CBP m + 4);
       Some (spaced ((case ptr of None \<Rightarrow> [] | Some f \<Rightarrow> [f addr]) @
         (if p = '''' then [] else [p]) @ (if c = '''' then [] else [c])))
     }"

definition hex_byte :: "u8 \<Rightarrow> string" where
  "hex_byte b = padl 2 (CHR ''0'') (hex_digits (unat b))"

definition dump_line :: "(u32 \<Rightarrow> string) option \<Rightarrow> vm \<Rightarrow> u32 \<Rightarrow> u8 list \<Rightarrow> string option" where
  "dump_line ptr m addr l =
     (let bs = spaced (map hex_byte (take 8 l)) @ ''  '' @ spaced (map hex_byte (drop 8 l))
      in map_option (\<lambda>ann. padl 8 (CHR ''0'') (hex_digits (unat addr)) @ ''  '' @ bs @ (if ann \<noteq> '''' then ''  '' @ ann else ''''))
           (line_annotation ptr m addr l))"

text \<open>The loop of \<open>page\<close> from a line on.\<close>

function dump_lines :: "(u32 \<Rightarrow> string) option \<Rightarrow> vm \<Rightarrow> u32 \<Rightarrow> u8 list \<Rightarrow> string list option" where
  "dump_lines ptr m addr p =
     (if p = [] then Some []
      else do {
        l \<leftarrow> dump_line ptr m addr (take 16 p);
        map_option (Cons l) (dump_lines ptr m (addr + 16) (drop 16 p))
      })"
  by pat_completeness auto
termination by (relation "measure (\<lambda>(ptr, m, addr, p). length p)") auto

declare dump_lines.simps [simp del]

definition dots :: string where
  "dots = ''........  .. .. .. .. .. .. .. ..  .. .. .. .. .. .. .. ..''"

text \<open>The state is the field \<open>last\<close> with the lines so far; after a panic there is none.\<close>

definition dump_page :: "(u32 \<Rightarrow> string) option \<Rightarrow> vm \<Rightarrow> u32 \<Rightarrow> u8 list \<Rightarrow> (u32 \<times> string list) option \<Rightarrow>
    merr option \<times> (u32 \<times> string list) option" where
  "dump_page ptr m addr p x =
     (None, do {
       (lst, ls) \<leftarrow> x;
       qs \<leftarrow> dump_lines ptr m addr p;
       Some (addr + 64, ls @ (if lst < addr then [dots] else []) @ qs)
     })"

definition Dump :: "(u32 \<Rightarrow> string) option \<Rightarrow> vm \<Rightarrow> merr option \<times> string list option" where
  "Dump ptr m = (let (e, x) = EachPage (dump_page ptr m) m (Some (0, [])) in (e, map_option snd x))"


subsection \<open>What the dump shows\<close>

text \<open>The words of a line of sixteen bytes that lie between two addresses.\<close>

definition line_words :: "u32 \<Rightarrow> u8 list \<Rightarrow> u32 \<Rightarrow> u32 \<Rightarrow> u32 list" where
  "line_words addr l bp sp =
     map (\<lambda>k. word_at l (4 * k)) (filter (\<lambda>k. unat bp \<le> unat addr + 4 * k \<and> unat addr + 4 * k < unat sp) [0..<4])"

lemma le_words_all: "length w = 4 * n \<Longrightarrow> le_words w = Some (map (\<lambda>k. word_at w (4 * k)) [0..<n])"
proof (induction n arbitrary: w)
  case (Suc n)
  then have "length w = Suc (Suc (Suc (Suc (4 * n))))" by simp
  then obtain a b c d w' where w: "w = a # b # c # d # w'" "length w' = 4 * n"
    by (cases w rule: le_words.cases) auto
  have "[0..<Suc n] = 0 # map Suc [0..<n]" by (simp add: map_Suc_upt upt_conv_Cons del: upt_Suc)
  moreover have "word_at w (4 * Suc k) = word_at w' (4 * k)" for k by (simp add: w word_at_def add.commute)
  ultimately show ?case using Suc.IH [OF w(2)] by (simp add: w(1) word_at_def comp_def)
qed simp

lemma le_words_slice:
  assumes "4 * b \<le> length l" "a \<le> b"
  shows "le_words (drop (4 * a) (take (4 * b) l)) = Some (map (\<lambda>k. word_at l (4 * k)) [a..<b])"
proof -
  let ?w = "drop (4 * a) (take (4 * b) l)"
  have "length ?w = 4 * (b - a)" using assms by (simp add: diff_mult_distrib2)
  moreover have "word_at ?w (4 * k) = word_at l (4 * (a + k))" if "k < b - a" for k
    using that assms by (simp add: word_at_def add_mult_distrib2 add.assoc)
  moreover have "[a..<b] = map ((+) a) [0..<b - a]" using assms(2) by (intro nth_equalityI) simp_all
  ultimately show ?thesis by (simp add: le_words_all comp_def)
qed

lemma filter_range: "filter (\<lambda>k. a \<le> k \<and> k < b) [0..<n] = [a..<min b n]"
  by (induction n) (auto simp: min_def le_Suc_eq)

text \<open>
  The annotation of a line of a dump shows the words of the line that lie between the pointers of the stack.
\<close>
theorem annotateStackBytes_words:
  assumes "length l = 16" "unat addr mod 16 = 0" "unat addr + 16 < 2 ^ 32" "unat bp mod 4 = 0" "unat sp mod 4 = 0"
  shows "annotateStackBytes addr l bp sp =
    Some (if line_words addr l bp sp = [] then '''' else words_string (line_words addr l bp sp))"
proof -
  obtain q u v where q: "unat addr = 4 * q" and u: "unat bp = 4 * u" and v: "unat sp = 4 * v"
    using assms(2,4,5) by (metis dvd_def dvd_trans mod_eq_0_iff_dvd dvd_triv_left mult_2_right numeral_Bit0)
  define a b where "a = u - q" and "b = min (v - q) 4"
  have top: "unat (addr + 16) = 4 * q + 16" using assms(3) by (simp add: unat_word_ariths q)
  have lw: "line_words addr l bp sp = map (\<lambda>k. word_at l (4 * k)) [a..<b]"
  proof -
    have "(4 * u \<le> 4 * q + 4 * k \<and> 4 * q + 4 * k < 4 * v) \<longleftrightarrow> (u - q \<le> k \<and> k < v - q)" for k by arith
    then show ?thesis by (simp only: line_words_def q u v filter_range a_def b_def)
  qed
  define lo hi where "lo = (if bp > addr then bp else addr)" and "hi = (if sp < addr + 16 then sp else addr + 16)"
  have lo: "unat lo = 4 * (q + a)" by (auto simp: lo_def word_less_nat_alt q u a_def)
  have hi: "unat hi = 4 * min v (q + 4)" using top by (auto simp: hi_def word_less_nat_alt v min_def)
  have e: "annotateStackBytes addr l bp sp = (if lo \<ge> hi then Some ''''
      else map_option words_string (le_words (drop (unat (lo - addr)) (take (unat (hi - addr)) l))))"
    using assms(1) by (simp add: annotateStackBytes_def lo_def hi_def Let_def)
  show ?thesis
  proof (cases "hi \<le> lo")
    case True
    then have "4 * min v (q + 4) \<le> 4 * (q + a)" by (simp only: word_le_nat_alt lo hi)
    then have "b \<le> a" unfolding b_def by arith
    then show ?thesis using True by (simp add: e lw)
  next
    case False
    then have "4 * (q + a) < 4 * min v (q + 4)" by (simp only: not_le word_less_nat_alt lo hi)
    then have ab: "a < b" unfolding b_def by arith
    have "4 * min v (q + 4) - 4 * q = 4 * b" unfolding b_def by arith
    moreover have "4 * q \<le> 4 * min v (q + 4)" using ab unfolding b_def by arith
    ultimately have "unat (lo - addr) = 4 * a" "unat (hi - addr) = 4 * b"
      using lo hi q by (simp_all add: unat_sub word_le_nat_alt)
    then show ?thesis using False ab le_words_slice [of b l a] assms(1) by (auto simp: e lw b_def)
  qed
qed


lemma le_words_some: "length w mod 4 = 0 \<Longrightarrow> \<exists>ws. le_words w = Some ws"
  using le_words_all [of w "length w div 4"] by auto

lemma unat_sub_mod4: "unat x mod 4 = 0 \<Longrightarrow> unat y mod 4 = 0 \<Longrightarrow> y \<le> x \<Longrightarrow> unat (x - y :: u32) mod 4 = 0"
  by (simp add: unat_sub word_le_nat_alt) presburger

lemma annotateStackBytes_some:
  assumes "length l mod 4 = 0" "unat addr mod 4 = 0" "unat bp mod 4 = 0" "unat sp mod 4 = 0" "length l < 2 ^ 32"
  shows "\<exists>t. annotateStackBytes addr l bp sp = Some t"
proof -
  define lo hi where "lo = (if bp > addr then bp else addr)"
    and "hi = (if sp < addr + of_nat (length l) then sp else addr + of_nat (length l))"
  have "unat (addr + of_nat (length l)) mod 4 = 0"
  proof -
    have "unat (addr + of_nat (length l)) = (unat addr + length l) mod 4294967296"
      using assms(5) by (simp add: unat_word_ariths unat_of_nat)
    moreover have "(y mod 4294967296) mod 4 = y mod (4 :: nat)" for y by (rule mod_mod_cancel) simp
    moreover have "(unat addr + length l) mod 4 = 0" using assms(1,2) by presburger
    ultimately show ?thesis by simp
  qed
  then have al: "unat lo mod 4 = 0" "unat hi mod 4 = 0" using assms(2-4) by (simp_all add: lo_def hi_def)
  show ?thesis
  proof (cases "lo \<ge> hi")
    case True
    then show ?thesis by (simp add: annotateStackBytes_def lo_def hi_def Let_def)
  next
    case False
    have "addr \<le> lo" by (simp add: lo_def not_less word_le_less_eq)
    with False have "addr \<le> hi" by simp
    have "unat (lo - addr) mod 4 = 0" "unat (hi - addr) mod 4 = 0"
      using al assms(2) \<open>addr \<le> lo\<close> \<open>addr \<le> hi\<close> by (simp_all add: unat_sub_mod4)
    then have "length (drop (unat (lo - addr)) (take (unat (hi - addr)) l)) mod 4 = 0"
      using assms(1) by (auto simp: min_def)
    from le_words_some [OF this] False show ?thesis
      by (auto simp: annotateStackBytes_def lo_def hi_def Let_def)
  qed
qed

lemma dump_line_some:
  assumes "regs_ok e P C m" "unat P mod 4 = 0" "unat C mod 4 = 0" "unat addr mod 4 = 0" "length l = 16"
  shows "\<exists>t. dump_line ptr m addr l = Some t"
proof -
  have r: "unat (PBP m) mod 4 = 0" "unat (PSP m) mod 4 = 0" "unat (CSP m + 4) mod 4 = 0" "unat (CBP m + 4) mod 4 = 0"
    using assms(1-3) by (auto simp: regs_ok_def PBP_def PSP_def CSP_def CBP_def unat_plus_4_mod)
  obtain p where "annotateStackBytes addr l (PBP m) (PSP m) = Some p"
    using annotateStackBytes_some [of l addr "PBP m" "PSP m"] r assms(4,5) by auto
  moreover obtain c where "annotateStackBytes addr l (CSP m + 4) (CBP m + 4) = Some c"
    using annotateStackBytes_some [of l addr "CSP m + 4" "CBP m + 4"] r assms(4,5) by auto
  ultimately show ?thesis by (simp add: dump_line_def line_annotation_def Let_def)
qed

lemma dump_lines_some:
  assumes "regs_ok e P C m" "unat P mod 4 = 0" "unat C mod 4 = 0" "unat addr mod 4 = 0" "length p = 16 * n"
  shows "\<exists>ls. dump_lines ptr m addr p = Some ls \<and> length ls = n"
  using assms(4,5)
proof (induction n arbitrary: addr p)
  case 0
  then show ?case by (simp add: dump_lines.simps)
next
  case (Suc n)
  have "unat (addr + 16) mod 4 = 0" using unat_plus_4_mod [of "addr + 12"] unat_plus_4_mod [of "addr + 8"]
      unat_plus_4_mod [of "addr + 4"] unat_plus_4_mod [of addr] Suc.prems(1) by (simp add: add.assoc)
  then obtain ls where "dump_lines ptr m (addr + 16) (drop 16 p) = Some ls" "length ls = n"
    using Suc.IH [of "addr + 16" "drop 16 p"] Suc.prems(2) by auto
  moreover obtain t where "dump_line ptr m addr (take 16 p) = Some t"
    using dump_line_some [OF assms(1-3) Suc.prems(1), of "take 16 p"] Suc.prems(2) by auto
  ultimately show ?case using Suc.prems(2) by (subst dump_lines.simps) auto
qed

lemma each_dump:
  assumes "regs_ok e P C m" "unat P mod 4 = 0" "unat C mod 4 = 0"
    and "\<And>p. Some p \<in> set pgs \<Longrightarrow> length (dat (heap m ! p)) = 64"
  shows "\<exists>lst qs. each_page (dump_page ptr m) i pgs m (Some (a, ls)) = (None, Some (lst, ls @ qs)) \<and>
    4 * length (filter (\<lambda>p. p \<noteq> None) pgs) \<le> length qs"
  using assms(4)
proof (induction pgs arbitrary: i a ls)
  case (Cons pg pgs)
  show ?case
  proof (cases pg)
    case None
    then show ?thesis using Cons.IH [of "Suc i" a ls] Cons.prems by auto
  next
    case (Some p)
    let ?addr = "of_nat (i * pageSize) :: u32"
    have "unat ?addr mod 4 = 0"
    proof -
      have "(y mod 4294967296) mod 4 = y mod (4 :: nat)" for y by (rule mod_mod_cancel) simp
      moreover have "unat ?addr = (i * 64) mod 4294967296" by (simp only: pageSize_def unat_of_nat) simp
      moreover have "(i * 64) mod 4 = 0" by presburger
      ultimately show ?thesis by simp
    qed
    then obtain ts where ts: "dump_lines ptr m ?addr (dat (heap m ! p)) = Some ts" "length ts = 4"
      using dump_lines_some [OF assms(1-3), of ?addr "dat (heap m ! p)" 4] Cons.prems [of p] Some by auto
    let ?ls = "ls @ (if a < ?addr then [dots] else []) @ ts"
    obtain lst qs where "each_page (dump_page ptr m) (Suc i) pgs m (Some (?addr + 64, ?ls)) = (None, Some (lst, ?ls @ qs))"
      "4 * length (filter (\<lambda>p. p \<noteq> None) pgs) \<le> length qs"
      using Cons.IH [of "Suc i" "?addr + 64" ?ls] Cons.prems by auto
    moreover have "dump_page ptr m ?addr (dat (heap m ! p)) (Some (a, ls)) = (None, Some (?addr + 64, ?ls))"
      using ts by (simp add: dump_page_def)
    ultimately show ?thesis
      using Some ts(2) by (intro exI [of _ lst] exI [of _ "(if a < ?addr then [dots] else []) @ ts @ qs"]) simp
  qed
qed simp

lemma Dump_total:
  assumes "regs_ok e P C m" "unat P mod 4 = 0" "unat C mod 4 = 0" "heap_inv N m"
  shows "\<exists>ls. Dump ptr m = (None, Some ls) \<and> 4 * length (filter (\<lambda>p. p \<noteq> None) (pages m)) \<le> length ls"
proof -
  have h: "heap_ok N (heap m) (free_pages m) (tables m)" "pages m \<in> set (tables m)"
    using assms(4) by (simp_all add: heap_inv_def tables_def)
  have "length (dat (heap m ! p)) = 64" if "Some p \<in> set (pages m)" for p
    using h heap_ok_bound [OF h that] by (simp add: heap_ok_def pageSize_def)
  from each_dump [OF assms(1-3), of "pages m", OF this, of ptr 0 0 "[]"] show ?thesis
    by (auto simp: Dump_def EachPage_def)
qed

text \<open>
  C26: the dumper never panics: whatever operation a machine executes whose stack pointers are at words and whose pages
  are shared as they should be, the machine can be dumped afterwards, and the dump has four lines for each
  page at least.
\<close>
theorem exec_Dump:
  assumes "unat (psp s) mod 4 = 0" "unat (csp s) mod 4 = 0" "unat (pbp s) mod 4 = 0" "unat (cbp s) mod 4 = 0"
    and "share_inv n s" "n + 1 < 2 ^ 31 - 1" "exec code arg s = Some s'"
  shows "\<exists>ls. Dump ptr s' = (None, Some ls) \<and> 4 * length (filter (\<lambda>p. p \<noteq> None) (pages s')) \<le> length ls"
proof -
  have "regs_inv (ip s) (pbp s) (cbp s) (queued s) 0 s" using assms(1,2) by (simp add: regs_inv_def regs_ok_def)
  from regs.exec [OF this, of code arg] assms(7) have r: "regs_ok (ip s) (pbp s) (cbp s) s'" by (simp add: regs_inv_def)
  have "sharing n s" using assms(5) by (simp add: sharing_def)
  from sharing.steps.exec [OF this, of code arg] assms(6,7) have "share_inv (Suc n) s'" by (simp add: sharing_def)
  then show ?thesis by (intro Dump_total [OF r assms(3,4)]) (rule share_invD)
qed


theorem annotateStackBytes_words_witness:
  "annotateStackBytes 16 [1, 0, 0, 0, 2, 0, 0, 0, 3, 0, 0, 0, 4, 0, 0, 0] 20 28 = Some ''[2 3]''"
proof -
  let ?l = "[1, 0, 0, 0, 2, 0, 0, 0, 3, 0, 0, 0, 4, 0, 0, 0] :: u8 list"
  have "line_words 16 ?l 20 28 = [2, 3]" by code_simp
  moreover have "words_string [2, 3] = ''[2 3]''" by code_simp
  ultimately show ?thesis using annotateStackBytes_words [of ?l 16 20 28] by simp
qed

theorem exec_Dump_witness:
  "\<exists>s' ls. exec 0x82 5 (blank 64) = Some s' \<and> Dump None s' = (None, Some ls)"
proof -
  obtain s' where s': "exec 0x82 5 (blank 64) = Some s'" using exec_push_blank by blast
  have "share_inv 1 (blank 64)"
    by (simp add: blank_def share_inv_def heap_inv_def heap_ok_def tables_def queued_def free_pages_def tab_inj_def arrays_nil_def all_nil_def)
  from exec_Dump [OF _ _ _ _ this _ s', of None] s' show ?thesis by (auto simp: blank_def pspInit_def)
qed

end
