(* ===== verification/Semantics.thy ===== *)
theory Semantics
  imports Registers
begin

text \<open>
  What the operations compute, as functions of the two stacks: a reference table of the binary
  operations and the theorems that the cases of the switch agree with it; the arithmetic of \<open>rem\<close>;
  calls and returns; and the cases that do not do what their siblings do.
\<close>

subsection \<open>Selecting a case\<close>

lemma opcode_code_op [simp]:
  "opcode_code (op_code x) = op_code x" "opcode_code (op_code x OR 0x80) = op_code x"
  "\<not> hasImm (op_code x)" "hasImm (op_code x OR 0x80)"
  by (cases x; simp add: opcode_code_def opCodeWithImm_def hasImm_def)+

lemmas exec_defs = exec_def exec_stack_def exec_memory_def exec_math_def exec_boolean_def
  exec_bitwise_def exec_bitvector_def exec_cstack_def exec_jump_def exec_call_def exec_fork_def
  exec_branch_def exec_halt_def

subsection \<open>Binary operations\<close>

fun binary_fn :: "opcode \<Rightarrow> (u32 \<Rightarrow> u32 \<Rightarrow> u32) option" where
  "binary_fn OpAdd = Some (\<lambda>a b. a + b)"
| "binary_fn OpSub = Some (\<lambda>a b. a - b)"
| "binary_fn OpMul = Some (\<lambda>a b. a * b)"
| "binary_fn OpLt = Some (\<lambda>a b. bool2uint32 (a < b))"
| "binary_fn OpLte = Some (\<lambda>a b. bool2uint32 (a \<le> b))"
| "binary_fn OpEq = Some (\<lambda>a b. bool2uint32 (a = b))"
| "binary_fn OpNeq = Some (\<lambda>a b. bool2uint32 (a \<noteq> b))"
| "binary_fn OpGt = Some (\<lambda>a b. bool2uint32 (a > b))"
| "binary_fn OpBitand = Some (\<lambda>a b. a AND b)"
| "binary_fn OpBitor = Some (\<lambda>a b. a OR b)"
| "binary_fn OpBitxor = Some (\<lambda>a b. a XOR b)"
| "binary_fn OpShiftl = Some (\<lambda>a b. push_bit (unat b) a)"
| "binary_fn OpShiftr = Some (\<lambda>a b. drop_bit (unat b) a)"
| "binary_fn _ = None"

lemma exec_binop: "binary_fn x = Some f \<Longrightarrow> exec (op_code x) arg s = binop f s"
  by (cases x) (auto simp: exec_defs simp del: op_code.simps)

lemma exec_unop: "binary_fn x = Some f \<Longrightarrow> exec (op_code x OR 0x80) arg s = unop (\<lambda>a. f a arg) s"
  by (cases x) (auto simp: exec_defs simp del: op_code.simps)

lemma stack_top:
  assumes "pvals s = vs @ [a]"
  shows "pa s = a" "pvals (s\<lparr>pa := x\<rparr>) = vs @ [x]" "cvals (s\<lparr>pa := x\<rparr>) = cvals s"
    "stack_ok (s\<lparr>pa := x\<rparr>) = stack_ok s"
  using assms by (auto simp: pvals_def cvals_def stack_ok_def split: if_splits)

lemma stack_err [simp]:
  "pvals (s\<lparr>err := e\<rparr>) = pvals s" "cvals (s\<lparr>err := e\<rparr>) = cvals s" "stack_ok (s\<lparr>err := e\<rparr>) = stack_ok s"
  "words word_of (s\<lparr>err := e\<rparr>) = words word_of s"
  by (simp_all add: pvals_def cvals_def stack_ok_def words_def fun_eq_iff)

text \<open>\<open>popped s vs a b t\<close>: \<open>t\<close> is \<open>s\<close> after its newest value \<open>b\<close> was popped and \<open>a\<close> is on top.\<close>

lemma pop_two:
  assumes "stack_ok s" "heap_inv N s" "pvals s = vs @ [a, b]"
  obtains t where "pop s = Some ((b, None), t)" "pvals t = vs @ [a]" "pa t = a" "cvals t = cvals s"
    "stack_ok t" "heap_inv N t" "frame s t"
proof -
  from assms(3) have "pvals s = (vs @ [a]) @ [b]" by simp
  then obtain t where t: "pop s = Some ((b, None), t)" "pvals t = vs @ [a]" "cvals t = cvals s"
    "stack_ok t" "t = s\<lparr>pa := pa t, psp := psp t\<rparr>"
    by (rule pop_snoc [OF assms(1,2)])
  moreover have "heap_inv N t" using assms(2) by (subst t(5)) simp
  moreover have "frame s t" by (subst t(5)) simp
  ultimately show thesis using that stack_top(1) by blast
qed

lemma binop_stack:
  assumes "stack_ok s" "heap_inv N s" "pvals s = vs @ [a, b]"
  shows "\<exists>s'. binop f s = Some s' \<and> pvals s' = vs @ [f a b] \<and> cvals s' = cvals s \<and> err s' = None \<and>
    stack_ok s' \<and> heap_inv N s'"
proof -
  obtain t where t: "pop s = Some ((b, None), t)" "pvals t = vs @ [a]" "pa t = a" "cvals t = cvals s"
    "stack_ok t" "heap_inv N t" "frame s t" by (rule pop_two [OF assms])
  then show ?thesis
    using stack_top [OF t(2)] by (simp add: binop_def popping_def seterr_def)
qed

lemma unop_stack:
  assumes "pvals s = vs @ [a]"
  shows "\<exists>s'. unop f s = Some s' \<and> pvals s' = vs @ [f a] \<and> cvals s' = cvals s \<and> err s' = err s"
  using stack_top [OF assms] by (simp add: unop_def)

text \<open>
  C14: the thirteen binary operations of the reference table take their two operands from the
  parameter stack, the newest as the right one, and leave their result there.
\<close>
theorem exec_binary:
  assumes "stack_ok s" "heap_inv N s" "pvals s = vs @ [a, b]" "binary_fn x = Some f"
  shows "\<exists>s'. exec (op_code x) arg s = Some s' \<and> pvals s' = vs @ [f a b] \<and> cvals s' = cvals s \<and>
    err s' = None \<and> stack_ok s' \<and> heap_inv N s'"
  unfolding exec_binop [OF assms(4)] by (rule binop_stack [OF assms(1-3)])

text \<open>
  C15: with an immediate argument a binary operation does what pushing the argument and then the
  operation without one would do.
\<close>
theorem exec_immediate:
  assumes "stack_ok s" "heap_inv N s" "1 \<le> N" "pvals s = vs @ [a]" "binary_fn x = Some f"
    "length (pvals s) + length (cvals s) \<le> cells s" "err s = None"
  shows "\<exists>s1 s2 s3. exec (op_code x OR 0x80) arg s = Some s1 \<and>
    exec (op_code OpPush OR 0x80) arg s = Some s2 \<and> exec (op_code x) 0 s2 = Some s3 \<and>
    pvals s1 = pvals s3 \<and> cvals s1 = cvals s3 \<and> err s1 = err s3"
proof -
  obtain s1 where s1: "unop (\<lambda>a. f a arg) s = Some s1" "pvals s1 = vs @ [f a arg]" "cvals s1 = cvals s"
    "err s1 = err s" using unop_stack [OF assms(4)] by blast
  obtain t where t: "push arg s = Some (None, t)" "pvals t = pvals s @ [arg]" "cvals t = cvals s"
    "stack_ok t" "heap_inv N t"
    using push_room [OF assms(1-3)] stack_room [OF assms(1)] assms(6) by metis
  let ?t = "t\<lparr>err := None\<rparr>"
  have p: "exec (op_code OpPush OR 0x80) arg s = Some ?t"
    using t(1) by (simp add: exec_defs seterr_def del: op_code.simps)
  have "stack_ok ?t" "heap_inv N ?t" "pvals ?t = vs @ [a, arg]" using t assms(4) by simp_all
  from binop_stack [OF this, of f] obtain s3 where "binop f ?t = Some s3" "pvals s3 = vs @ [f a arg]"
    "cvals s3 = cvals s" "err s3 = None" using t(3) by auto
  with s1 p assms(7) show ?thesis
    by (simp add: exec_binop [OF assms(5)] exec_unop [OF assms(5)])
qed

text \<open>Two values, 7 and 5, on the stack of an empty machine.\<close>

lemma two_on_blank:
  obtains s where "stack_ok s" "heap_inv 1 s" "pvals s = [7, 5]" "cvals s = []" "cells s = 15" "err s = None"
proof -
  let ?b = "(blank 64)\<lparr>psp := 0, pa := 7\<rparr>"
  have b: "stack_ok ?b" "heap_inv 1 ?b" "pvals ?b = [7]" "cvals ?b = []" "cells ?b = 15" "err ?b = None"
    "psp ?b = pspInit \<or> unat (psp ?b) + 4 \<le> unat (csp ?b)"
    using blank_ok(2)
    by (simp_all add: stack_ok_def) (simp_all add: blank_def pvals_def cvals_def cells_def pspInit_def)
  obtain s where s: "push 5 ?b = Some (None, s)" "pvals s = pvals ?b @ [5]" "cvals s = cvals ?b"
    "stack_ok s" "heap_inv 1 s" "mem_frame ?b s"
    by (rule push_room [OF b(1,2) order.refl b(7)])
  moreover have "cells s = cells ?b" "err s = err ?b"
    using mem_frameD [OF s(6)] by (simp_all add: cells_def)
  ultimately show thesis using that [of s] b by simp
qed

theorem exec_binary_witness:
  "\<exists>s s'. pvals s = [7, 5] \<and> exec (op_code OpSub) 0 s = Some s' \<and> pvals s' = [2]"
proof -
  obtain s where s: "stack_ok s" "heap_inv 1 s" "pvals s = [] @ [7, 5]" using two_on_blank by auto
  from exec_binary [OF s, of OpSub "\<lambda>a b. a - b" 0] obtain s'
    where "exec (op_code OpSub) 0 s = Some s'" "pvals s' = [2]" by (auto simp del: op_code.simps)
  moreover have "pvals s = [7, 5]" using s(3) by simp
  ultimately show ?thesis by blast
qed

theorem exec_immediate_witness:
  "\<exists>s s1 s2 s3. pvals s = [7] \<and> exec (op_code OpAdd OR 0x80) 5 s = Some s1 \<and>
    exec (op_code OpPush OR 0x80) 5 s = Some s2 \<and> exec (op_code OpAdd) 0 s2 = Some s3 \<and>
    pvals s1 = pvals s3"
proof -
  let ?b = "(blank 64)\<lparr>psp := 0, pa := 7\<rparr>"
  have b: "stack_ok ?b" "heap_inv 1 ?b" "pvals ?b = [] @ [7]" "cvals ?b = []" "cells ?b = 15" "err ?b = None"
    using blank_ok(2)
    by (simp_all add: stack_ok_def) (simp_all add: blank_def pvals_def cvals_def cells_def pspInit_def)
  have "length (pvals ?b) + length (cvals ?b) \<le> cells ?b" using b(3-5) by simp
  from exec_immediate [OF b(1,2) order.refl b(3) binary_fn.simps(1) this b(6), of 5]
  obtain s1 s2 s3 where "exec (op_code OpAdd OR 0x80) 5 ?b = Some s1"
    "exec (op_code OpPush OR 0x80) 5 ?b = Some s2" "exec (op_code OpAdd) 0 s2 = Some s3"
    "pvals s1 = pvals s3" by blast
  moreover have "pvals ?b = [7]" using b(3) by simp
  ultimately show ?thesis by blast
qed

subsection \<open>Pointers into memory\<close>

text \<open>A pointer to an aligned word reads that word, and writing through it is \<open>store\<close>.\<close>

lemma ref_word:
  assumes "heap_inv N s" "1 \<le> N" "unat a mod 4 = 0"
  obtains l s1 where "ref a s = (Inr l, s1)" "load l s1 = Some (word_of s (unat a))"
    "mem_frame s s1" "heap_inv N s1" "byte_at s1 = byte_at s"
    "\<And>v. \<exists>s2. store_to l v s1 = Some s2 \<and> stored s (unat a) v s2 \<and> heap_inv N s2 \<and> mem_frame s s2 \<and>
      pa s2 = pa s \<and> psp s2 = psp s \<and> csp s2 = csp s"
proof -
  have al: "page_off a mod 4 = 0" "page_off a + 4 \<le> pageSize"
    using assms(3) aligned_fits [OF assms(3)] by (simp_all add: page_off_aligned)
  obtain p s1 where w: "writable (page_index a) s = (p, s1)" by fastforce
  have r: "ref a s = (Inr (LocMem p (page_off a)), s1)"
    using ref_writable [OF assms(1), of a] al(1) w by simp
  have o: "heap_inv N s1" "owns (page_index a) p s s1" using writable_ok [OF assms(1,2) w] by blast+
  have "poke (page_index a) (\<lambda>d. set_bytes d 0 []) s = s1"
  proof -
    have id: "dat_update (\<lambda>d. d) x = x" for x :: page by (cases x) simp
    show ?thesis by (simp add: poke_def w set_bytes_def upd_page_def id del: page.update_convs)
  qed
  then have same: "byte_at s1 = byte_at s"
    using poke_bytes [OF assms(1,2), of 0 "[]" "page_index a"] by (auto simp: fun_eq_iff)
  have "page_of s1 (page_index a) = Some p" using o(2) by (auto simp: owns_def page_of_def)
  then have "dat (heap s1 ! p) = contents (heap s1) (pages s1) (page_index a)"
    by (simp add: contents_page_of)
  then have "load (LocMem p (page_off a)) s1 = Some (word_of s1 (unat a))"
    using al(2) word_at_contents [OF o(1) al(2)] by (simp add: load_def)
  moreover have "word_of s1 = word_of s" by (simp add: word_of_def same fun_eq_iff)
  moreover have fr: "mem_frame s s1" using ref_frame [OF r] by (auto simp: mem_frame_def)
  moreover have "\<exists>s2. store_to (LocMem p (page_off a)) v s1 = Some s2 \<and> stored s (unat a) v s2 \<and>
      heap_inv N s2 \<and> mem_frame s s2 \<and> pa s2 = pa s \<and> psp s2 = psp s \<and> csp s2 = csp s" for v
  proof -
    obtain s2 where s2: "store a v s = Some (None, s2)" "heap_inv N s2" "stored s (unat a) v s2"
      "\<exists>h al ps sp. s2 = s\<lparr>heap := h, palloc := al, pages := ps, spare := sp\<rparr>"
      by (rule store_aligned [OF assms])
    moreover have "store_to (LocMem p (page_off a)) v s1 = Some s2"
      using s2(1) by (auto simp: store_def r split: bind_splits)
    moreover have "mem_frame s s2" "pa s2 = pa s" "psp s2 = psp s" "csp s2 = csp s"
      using s2(4) by (auto simp: mem_frame_def)
    ultimately show ?thesis by blast
  qed
  ultimately show thesis using that r o(1) same by metis
qed

lemma ref_below:
  assumes "stack_ok s" "pvals s = vs @ [a, b]"
  shows "pRef 2 s = ref (psp s - 4) s" "unat (psp s - 4) mod 4 = 0" "unat (psp s - 4) = 4 * length vs"
    "psp s \<noteq> pspInit"
proof -
  note n = stack_ok_nat [OF assms(1)] and l = length_stacks [OF assms(1)]
  show p: "psp s \<noteq> pspInit" using l(1) assms(2) by auto
  with l(2) assms(2) have u: "unat (psp s) = 4 * length vs + 4" by simp
  then have m: "unat (psp s - 4) = unat (psp s) - 4" by (intro unat_sub_4) simp
  with u show "unat (psp s - 4) = 4 * length vs" "unat (psp s - 4) mod 4 = 0" by simp_all
  have e: "psp s + 4 - 2 * 4 = psp s - 4" by simp
  have "\<not> psp s - 4 < pbp s" "\<not> psp s - 4 > csp s"
    using n(1,7) p m u by (auto simp: word_less_nat_alt)
  then show "pRef 2 s = ref (psp s - 4) s" unfolding pRef_def Let_def e by simp
qed

lemma pvals_split:
  assumes "stack_ok s" "pvals s = vs @ [a, b]"
  shows "words word_of s 0 (length vs) = vs" "word_of s (4 * length vs) = a" "pa s = b"
proof -
  have p: "psp s \<noteq> pspInit" and u: "unat (psp s) div 4 = Suc (length vs)"
    using ref_below [OF assms] length_stacks(2) [OF assms(1)] assms(2) by auto
  then have "pvals s = words word_of s 0 (length vs) @ [word_of s (4 * length vs)] @ [pa s]"
    unfolding pvals_def u words_Suc by simp
  with assms(2) show "words word_of s 0 (length vs) = vs" "word_of s (4 * length vs) = a" "pa s = b"
    by (auto simp: append_eq_append_conv)
qed

text \<open>
  \<open>swap\<close> without an immediate exchanges the two newest values of the parameter stack.
\<close>
theorem exec_swap:
  assumes "stack_ok s" "heap_inv N s" "1 \<le> N" "pvals s = vs @ [a, b]"
  shows "\<exists>s'. exec (op_code OpSwap) arg s = Some s' \<and> pvals s' = vs @ [b, a] \<and> cvals s' = cvals s \<and>
    err s' = None"
proof -
  note r = ref_below [OF assms(1,4)] and v = pvals_split [OF assms(1,4)]
  obtain l s1 where l: "ref (psp s - 4) s = (Inr l, s1)" "load l s1 = Some (word_of s (unat (psp s - 4)))"
    "\<And>v. \<exists>s2. store_to l v s1 = Some s2 \<and> stored s (unat (psp s - 4)) v s2 \<and> heap_inv N s2 \<and>
      mem_frame s s2 \<and> pa s2 = pa s \<and> psp s2 = psp s \<and> csp s2 = csp s"
    by (rule ref_word [OF assms(2,3) r(2)]) blast
  obtain s2 where s2: "store_to l b s1 = Some s2" "stored s (4 * length vs) b s2" "mem_frame s s2"
    "psp s2 = psp s" "csp s2 = csp s" using l(3) [of b] r(3) by auto
  have pa: "pa s1 = b" using ref_regs [OF l(1)] v(3) by simp
  have "l \<noteq> LocPA" using l(1) ref_LocMem by auto
  then have "store_to l b (s1\<lparr>pa := a\<rparr>) = Some (s2\<lparr>pa := a\<rparr>)"
    using s2(1) by (auto simp: store_to_def upd_page_def split: loc.splits if_splits)
  then have x: "exec (op_code OpSwap) arg s = Some (s2\<lparr>pa := a, err := None\<rparr>)" (is "_ = Some ?s")
    using l(1,2) pa r(1,3,4) v(2) by (simp add: exec_defs swap_def del: op_code.simps)
  have u: "unat (psp s) div 4 = Suc (length vs)"
    using length_stacks(2) [OF assms(1) r(4)] assms(4) by simp
  have "pvals ?s = words word_of s2 0 (Suc (length vs)) @ [a]"
    using r(4) s2(4) by (simp add: pvals_def u)
  also have "words word_of s2 0 (Suc (length vs)) = words word_of s 0 (length vs) @ [b]"
    using mem.words_snoc [of s 0 "length vs" b s2] s2(2) by simp
  finally have "pvals ?s = vs @ [b, a]" by (simp add: v(1))
  moreover have "4 * length vs + 4 \<le> unat (csp s)"
    using stack_ok_nat(7) [OF assms(1) r(4)] length_stacks(2) [OF assms(1) r(4)] assms(4) by simp
  then have "cvals ?s = cvals s"
    using mem.words_outside [OF s2(2), of "unat (csp s) + 4"] mem_frameD(1) [OF s2(3)] s2(5)
    by (simp add: cvals_def)
  ultimately show ?thesis using x by auto
qed

theorem exec_swap_witness:
  "\<exists>s s'. pvals s = [7, 5] \<and> exec (op_code OpSwap) 0 s = Some s' \<and> pvals s' = [5, 7]"
proof -
  obtain s where s: "stack_ok s" "heap_inv 1 s" "pvals s = [] @ [7, 5]" using two_on_blank by auto
  from exec_swap [OF s(1,2) order.refl s(3), of 0] obtain s'
    where "exec (op_code OpSwap) 0 s = Some s'" "pvals s' = [5, 7]" by (auto simp del: op_code.simps)
  moreover have "pvals s = [7, 5]" using s(3) by simp
  ultimately show ?thesis by blast
qed

subsection \<open>Division\<close>

lemma go_rem_range: "0 < b \<Longrightarrow> - b < go_rem a b \<and> go_rem a b < b"
  using go_rem_bound [of b a] by auto

lemma sint_of_int: "- (2 ^ 31) \<le> i \<Longrightarrow> i < 2 ^ 31 \<Longrightarrow> sint (word_of_int i :: u32) = i"
  by (simp add: sint_sbintrunc' signed_take_bit_int_eq_self)

lemma go_rem_mod:
  assumes "0 < b"
  shows "a mod b = (if go_rem a b < 0 then go_rem a b + b else go_rem a b)"
proof (cases "0 \<le> a")
  case True
  then have "go_rem a b = a mod b" using assms by (simp add: go_rem_nonneg)
  with pos_mod_sign [OF assms, of a] show ?thesis by simp
next
  case False
  define m where "m = (- a) mod b"
  have g: "go_rem a b = - m" using False assms by (simp add: go_rem_def m_def)
  have m: "0 \<le> m" "m < b" using assms by (simp_all add: m_def)
  have "a mod b = (if m = 0 then 0 else b - m)"
    using zmod_zminus1_eq_if [of "- a" b] by (simp add: m_def)
  with m show ?thesis unfolding g by (cases "m = 0") simp_all
qed

lemma rem_pos:
  assumes "0 <s b"
  shows "\<exists>r. rem a b = Some r \<and> sint r = sint a mod sint b"
proof -
  have b: "0 < sint b" using assms by (simp add: word_sless_alt)
  let ?g = "go_rem (sint a) (sint b)" and ?x = "word_of_int (go_rem (sint a) (sint b)) :: u32"
  have g: "- sint b < ?g" "?g < sint b" using go_rem_range [OF b] by auto
  then have x: "sint ?x = ?g"
    using sint_u32_range [of b] by (intro sint_of_int) linarith+
  note m = go_rem_mod [OF b, of "sint a"]
  have s: "sint (?x + b) = ?g + sint b" if "?g < 0"
  proof -
    have "- (2 ^ 31) \<le> sint ?x + sint b" "sint ?x + sint b < 2 ^ 31"
      using x g that b sint_u32_range [of b] by linarith+
    then have "sint (?x + b) = sint ?x + sint b"
      by (simp only: sint_word_ariths) (simp add: signed_take_bit_int_eq_self)
    then show ?thesis unfolding x .
  qed
  have "b \<noteq> 0" using b by auto
  then show ?thesis using s by (simp add: rem_def word_sless_alt x m)
qed

text \<open>
  For a positive divisor \<open>rem\<close> is the Euclidean remainder of the signed operands, also of a
  negative dividend, where Go's \<open>%\<close> is negative.
\<close>
theorem rem_euclid:
  assumes "0 <s b"
  shows "\<exists>r. rem a b = Some r \<and> sint r = sint a mod sint b"
  by (rule rem_pos [OF assms])

theorem rem_euclid_witness: "\<exists>r. rem (- 7) 5 = Some r \<and> sint r = 3"
  using rem_euclid [of 5 "- 7"] by (simp add: word_sless_alt)

text \<open>
  A division or a remainder by 0 is not an error of the machine but a panic of the host, and
  nothing else panics in these operations.
\<close>
theorem exec_div_panics:
  assumes "stack_ok s" "heap_inv N s" "pvals s = vs @ [a, b]" "x \<in> {OpDiv, OpMod}"
  shows "exec (op_code x) arg s = None \<longleftrightarrow> b = 0"
proof -
  obtain t where t: "pop s = Some ((b, None), t)" "pa t = a"
    by (rule pop_two [OF assms(1-3)])
  show ?thesis using assms(4)
    by (auto simp: exec_defs popping_def seterr_def t udiv_def rem_def Let_def
        simp del: op_code.simps split: if_splits)
qed

theorem exec_div_panics_witness: "\<exists>s. pvals s = [7, 5] \<and> exec (op_code OpDiv) 0 s \<noteq> None"
proof -
  obtain s where s: "stack_ok s" "heap_inv 1 s" "pvals s = [] @ [7, 5]" using two_on_blank by auto
  have "exec (op_code OpDiv) 0 s = None \<longleftrightarrow> (5 :: u32) = 0"
    by (rule exec_div_panics [OF s]) simp
  moreover have "pvals s = [7, 5]" using s(3) by simp
  ultimately show ?thesis by (intro exI [of _ s]) (simp del: op_code.simps)
qed

text \<open>
  \<open>divmod\<close> with an immediate pushes the remainder of the quotient, not of the dividend.
\<close>
theorem exec_divmod_immediate:
  assumes "stack_ok s" "heap_inv N s" "1 \<le> N" "pvals s = vs @ [a]"
    "length (pvals s) + length (cvals s) \<le> cells s" "0 <s b"
  shows "\<exists>s' r. exec (op_code OpDivmod OR 0x80) b s = Some s' \<and> err s' = None \<and>
    pvals s' = vs @ [a div b, r] \<and> sint r = sint (a div b) mod sint b"
proof -
  let ?s = "s\<lparr>pa := a div b\<rparr>"
  note top = stack_top [OF assms(4)]
  obtain r where r: "rem (a div b) b = Some r" "sint r = sint (a div b) mod sint b"
    using rem_pos [OF assms(6)] by blast
  have ok: "stack_ok ?s" "heap_inv N ?s" using assms(1,2) top(4) by simp_all
  have "length (pvals ?s) + length (cvals ?s) \<le> cells ?s"
    using assms(4,5) top by (simp add: cells_def)
  then obtain t where t: "push r ?s = Some (None, t)" "pvals t = pvals ?s @ [r]"
    using push_room [OF ok assms(3)] stack_room [OF ok(1)] by metis
  have "b \<noteq> 0" using assms(6) by auto
  then have "exec (op_code OpDivmod OR 0x80) b s = Some (t\<lparr>err := None\<rparr>)"
    using r(1) t(1) top(1) by (simp add: exec_defs udiv_def seterr_def del: op_code.simps)
  with r(2) t(2) top(2) show ?thesis by auto
qed

theorem exec_divmod_immediate_witness:
  "\<exists>s' r. exec (op_code OpDivmod OR 0x80) 5 ((blank 64)\<lparr>psp := 0, pa := 17\<rparr>) = Some s' \<and>
    pvals s' = [3, r] \<and> sint r = 3"
proof -
  let ?b = "(blank 64)\<lparr>psp := 0, pa := 17\<rparr>"
  have b: "stack_ok ?b" "heap_inv 1 ?b" "pvals ?b = [] @ [17]"
    "length (pvals ?b) + length (cvals ?b) \<le> cells ?b"
    using blank_ok(2)
    by (simp_all add: stack_ok_def) (simp_all add: blank_def pvals_def cvals_def cells_def pspInit_def)
  have "(0 :: u32) <s 5" by (simp add: word_sless_alt)
  from exec_divmod_immediate [OF b(1,2) order.refl b(3,4) this] show ?thesis by auto
qed

subsection \<open>Cases that differ from their siblings\<close>

text \<open>
  \<open>gte\<close>, \<open>and\<close> and \<open>or\<close> without an immediate never compute their result: their test of the
  pop's error is inverted, so the left operand stays as the answer.
\<close>
theorem exec_inverted:
  assumes "stack_ok s" "heap_inv N s" "pvals s = vs @ [a, b]" "x \<in> {OpGte, OpAnd, OpOr}"
  shows "\<exists>s'. exec (op_code x) arg s = Some s' \<and> pvals s' = vs @ [a] \<and> err s' = None"
proof -
  obtain t where t: "pop s = Some ((b, None), t)" "pvals t = vs @ [a]"
    by (rule pop_two [OF assms(1-3)])
  show ?thesis using assms(4) t
    by (auto simp: exec_defs binop_inverted_def simp del: op_code.simps)
qed

theorem exec_inverted_witness:
  "\<exists>s s'. pvals s = [7, 5] \<and> exec (op_code OpGte) 0 s = Some s' \<and> pvals s' = [7]"
proof -
  obtain s where s: "stack_ok s" "heap_inv 1 s" "pvals s = [] @ [7, 5]" using two_on_blank by auto
  have "\<exists>s'. exec (op_code OpGte) 0 s = Some s' \<and> pvals s' = [] @ [7] \<and> err s' = None"
    by (rule exec_inverted [OF s]) simp
  moreover have "pvals s = [7, 5]" using s(3) by simp
  ultimately show ?thesis by auto
qed

text \<open>
  \<open>bnz\<close> without an immediate never branches: whatever the value it pops, no machine is queued
  and control goes on with the next operation.
\<close>
theorem exec_bnz_never:
  assumes "stack_ok s" "heap_inv N s" "pvals s = vs @ [v]"
  shows "\<exists>s'. exec (op_code OpBnz) arg s = Some s' \<and> pvals s' = vs \<and> err s' = None \<and>
    queued s' = queued s \<and> ip s' = ip s"
proof -
  obtain t where t: "pop s = Some ((v, None), t)" "pvals t = vs"
    "t = s\<lparr>pa := pa t, psp := psp t\<rparr>" by (rule pop_snoc [OF assms])
  have "queued t = queued s" "ip t = ip s" by (subst t(3), simp add: queued_def)+
  with t(1,2) show ?thesis by (simp add: exec_defs queued_def del: op_code.simps)
qed

theorem exec_bnz_never_witness:
  "\<exists>s'. exec (op_code OpBnz) 0 ((blank 64)\<lparr>psp := 0\<rparr>) = Some s' \<and> pvals s' = []"
proof -
  have "pvals ((blank 64)\<lparr>psp := 0\<rparr>) = [] @ [0]" using blank_one_ok(3) by simp
  from exec_bnz_never [OF blank_one_ok(1,2) this] show ?thesis by blast
qed

text \<open>
  \<open>fetch\<close> without an immediate hides its errors: at an unaligned address of the stacks it only
  pops the address, and the machine goes on.
\<close>
theorem exec_fetch_hides:
  assumes "stack_ok s" "heap_inv N s" "pvals s = vs @ [a]" "a < cbp s" "unat a mod 4 \<noteq> 0"
  shows "\<exists>s' e. fetch a s' = Some (0, Some e) \<and> exec (op_code OpFetch) arg s = Some s' \<and>
    pvals s' = vs \<and> err s' = None"
proof -
  obtain t where t: "pop s = Some ((a, None), t)" "pvals t = vs"
    "t = s\<lparr>pa := pa t, psp := psp t\<rparr>" by (rule pop_snoc [OF assms(1-3)])
  have "cbp t = cbp s" by (subst t(3)) simp
  moreover have "fetch a u = Some (0, Some (AlignmentError ''fetch'' a))" if "cbp u = cbp s" for u
    using assms(4,5) page_off_aligned [of a] that by (simp add: fetch_def Let_def)
  ultimately show ?thesis using t(1,2)
    by (auto simp: exec_defs popping_def seterr_def simp del: op_code.simps)
qed

theorem exec_fetch_hides_witness:
  "\<exists>s'. exec (op_code OpFetch) 0 ((blank 64)\<lparr>psp := 0, pa := 5\<rparr>) = Some s' \<and> err s' = None"
proof -
  let ?b = "(blank 64)\<lparr>psp := 0, pa := 5\<rparr>"
  have b: "stack_ok ?b" "heap_inv 1 ?b" "pvals ?b = [] @ [5]" "(5 :: u32) < cbp ?b"
    using blank_ok(2) by (simp_all add: stack_ok_def) (simp_all add: blank_def pvals_def pspInit_def)
  from exec_fetch_hides [OF b] show ?thesis by auto
qed

subsection \<open>Calls and the control stack\<close>

lemma stack_ok_ip [simp]:
  "pvals (s\<lparr>ip := a\<rparr>) = pvals s" "cvals (s\<lparr>ip := a\<rparr>) = cvals s" "stack_ok (s\<lparr>ip := a\<rparr>) = stack_ok s"
  "words word_of (s\<lparr>ip := a\<rparr>) = words word_of s"
  by (simp_all add: pvals_def cvals_def stack_ok_def words_def fun_eq_iff)

lemma cpush_then_cpop:
  assumes "stack_ok s" "heap_inv N s" "1 \<le> N" "4 \<le> unat (csp s)"
    "length (pvals s) + length (cvals s) \<le> cells s"
  obtains t where "cpush v s = Some (None, t)" "cvals t = v # cvals s" "pvals t = pvals s" "stack_ok t"
    "heap_inv N t" "cbp t = cbp s" "pbp t = pbp s" "ip t = ip s" "err t = err s"
proof -
  obtain t where t: "cpush v s = Some (None, t)" "cvals t = v # cvals s" "pvals t = pvals s" "stack_ok t"
    "heap_inv N t" "mem_frame s t"
    using cpush_room [OF assms(1-4)] stack_room [OF assms(1)] assms(5) by metis
  with mem_frameD [OF t(6)] that show thesis by blast
qed

text \<open>
  C16: \<open>call\<close> and then \<open>ret\<close>: the call goes to its target with the address after it on the control
  stack, and the return from there comes back to it with both stacks as before.
\<close>
theorem call_ret:
  assumes "stack_ok s" "heap_inv N s" "1 \<le> N" "csp s \<noteq> 0"
    "length (pvals s) + length (cvals s) \<le> cells s" "cbp s < a" "cbp s < ip s"
  shows "\<exists>s1 s2. exec (op_code OpCall OR 0x80) a s = Some s1 \<and> ip s1 = a \<and> err s1 = None \<and>
    cvals s1 = ip s # cvals s \<and> pvals s1 = pvals s \<and>
    exec (op_code OpRet) arg s1 = Some s2 \<and> ip s2 = ip s \<and> err s2 = None \<and>
    cvals s2 = cvals s \<and> pvals s2 = pvals s"
proof -
  have "unat (csp s) \<noteq> 0" using assms(4) by (simp add: unat_eq_zero)
  then have c4: "4 \<le> unat (csp s)" using stack_ok_nat(5) [OF assms(1)] by (cases "unat (csp s) < 4") auto
  obtain t where t: "cpush (ip s) s = Some (None, t)" "cvals t = ip s # cvals s" "pvals t = pvals s"
    "stack_ok t" "heap_inv N t" "cbp t = cbp s" "pbp t = pbp s" "ip t = ip s" "err t = err s"
    by (rule cpush_then_cpop [OF assms(1-3) c4 assms(5)])
  let ?t = "t\<lparr>ip := a, err := None\<rparr>"
  have na: "\<not> a \<le> cbp s" "\<not> ip s \<le> cbp s" using assms(6,7) by simp_all
  then have c: "exec (op_code OpCall OR 0x80) a s = Some ?t"
    using t by (simp add: exec_defs call_def jumpTo_def seterr_def del: op_code.simps)
  have "cvals ?t = ip s # cvals s" "stack_ok ?t" "heap_inv N ?t" using t by simp_all
  note r = cpop_cons [OF this(2,3,1)]
  let ?u = "?t\<lparr>csp := csp ?t + 4\<rparr>"
  have "exec (op_code OpRet) arg ?t = Some (?u\<lparr>ip := ip s, err := None\<rparr>)"
    using r(1) na t(6) by (simp add: exec_defs ret_def jumpTo_def seterr_def del: op_code.simps)
  moreover have "cvals (?u\<lparr>ip := ip s, err := None\<rparr>) = cvals s"
    "pvals (?u\<lparr>ip := ip s, err := None\<rparr>) = pvals s"
    using r(2,3) t(3) by (simp_all only: stack_ok_ip stack_err)
  moreover have "cvals ?t = ip s # cvals s" "pvals ?t = pvals s" "ip ?t = a" "err ?t = None"
    "ip (?u\<lparr>ip := ip s, err := None\<rparr>) = ip s" "err (?u\<lparr>ip := ip s, err := None\<rparr>) = None"
    using t(2,3) by simp_all
  ultimately show ?thesis using c by blast
qed

text \<open>
  Moving a value to the control stack with \<open>p2c\<close> and back with \<open>c2p\<close> changes neither stack.
\<close>
theorem p2c_c2p:
  assumes "stack_ok s" "heap_inv N s" "1 \<le> N" "pvals s = vs @ [v]" "csp s \<noteq> 0"
    "length (pvals s) + length (cvals s) \<le> cells s"
  shows "\<exists>s1 s2. exec (op_code OpP2C) arg s = Some s1 \<and> pvals s1 = vs \<and> cvals s1 = v # cvals s \<and>
    exec (op_code OpC2P) arg s1 = Some s2 \<and> pvals s2 = pvals s \<and> cvals s2 = cvals s \<and> err s2 = None"
proof -
  have "unat (csp s) \<noteq> 0" using assms(5) by (simp add: unat_eq_zero)
  then have c4: "4 \<le> unat (csp s)" using stack_ok_nat(5) [OF assms(1)] by (cases "unat (csp s) < 4") auto
  obtain t where t: "pop s = Some ((v, None), t)" "pvals t = vs" "cvals t = cvals s" "stack_ok t"
    "t = s\<lparr>pa := pa t, psp := psp t\<rparr>" by (rule pop_snoc [OF assms(1,2,4)])
  have inv: "heap_inv N t" "csp t = csp s" "cbp t = cbp s" using assms(2) by (subst t(5), simp)+
  have room: "length (pvals t) + length (cvals t) < cells t"
    using assms(4,6) t(2,3) inv(3) by (simp add: cells_def)
  obtain u where u: "cpush v t = Some (None, u)" "cvals u = v # cvals t" "pvals u = pvals t"
    "stack_ok u" "heap_inv N u" "cbp u = cbp t"
    using cpush_then_cpop [OF t(4) inv(1) assms(3)] c4 inv(2) room by (metis less_imp_le_nat)
  let ?u = "u\<lparr>err := None\<rparr>"
  have p: "exec (op_code OpP2C) arg s = Some ?u"
    using t(1) u(1) by (simp add: exec_defs p2c_def popping_def seterr_def del: op_code.simps)
  have "cvals ?u = v # cvals t" "stack_ok ?u" "heap_inv N ?u" using u by simp_all
  note c = cpop_cons [OF this(2,3,1)]
  let ?w = "?u\<lparr>csp := csp ?u + 4\<rparr>"
  have w: "heap_inv N ?w" using u(5) by simp
  have "length (pvals ?w) + length (cvals ?w) \<le> cells ?w"
    using c(2,3) u(3,6) room by (simp add: cells_def)
  then obtain x where x: "push v ?w = Some (None, x)" "pvals x = pvals ?w @ [v]" "cvals x = cvals ?w"
    using push_room [OF c(4) w assms(3)] stack_room [OF c(4)] by metis
  have "exec (op_code OpC2P) arg ?u = Some (x\<lparr>err := None\<rparr>)"
    using c(1) x(1) by (simp add: exec_defs c2p_def seterr_def del: op_code.simps)
  with p x(2,3) c(2,3) u(2,3) t(2,3) assms(4) show ?thesis by auto
qed

lemma one_on_blank:
  "stack_ok ((blank 64)\<lparr>psp := 0\<rparr>)" "heap_inv 1 ((blank 64)\<lparr>psp := 0\<rparr>)"
  "pvals ((blank 64)\<lparr>psp := 0\<rparr>) = [] @ [0]" "csp ((blank 64)\<lparr>psp := 0\<rparr>) \<noteq> 0"
  "length (pvals ((blank 64)\<lparr>psp := 0\<rparr>)) + length (cvals ((blank 64)\<lparr>psp := 0\<rparr>)) \<le> cells ((blank 64)\<lparr>psp := 0\<rparr>)"
  using blank_one_ok by (simp_all) (simp add: blank_def)

theorem call_ret_witness:
  "\<exists>s1 s2. exec (op_code OpCall OR 0x80) 80 ((blank 64)\<lparr>psp := 0\<rparr>) = Some s1 \<and> ip s1 = 80 \<and>
    exec (op_code OpRet) 0 s1 = Some s2 \<and> ip s2 = 64"
proof -
  have "cbp ((blank 64)\<lparr>psp := 0\<rparr>) < 80" "cbp ((blank 64)\<lparr>psp := 0\<rparr>) < ip ((blank 64)\<lparr>psp := 0\<rparr>)"
    "ip ((blank 64)\<lparr>psp := 0\<rparr>) = 64" by (simp_all add: blank_def)
  with call_ret [OF one_on_blank(1,2) order.refl one_on_blank(4,5), of 80 0] show ?thesis by auto
qed

theorem p2c_c2p_witness:
  "\<exists>s1 s2. exec (op_code OpP2C) 0 ((blank 64)\<lparr>psp := 0\<rparr>) = Some s1 \<and> cvals s1 = [0] \<and>
    exec (op_code OpC2P) 0 s1 = Some s2 \<and> pvals s2 = [0]"
proof -
  have "pvals ((blank 64)\<lparr>psp := 0\<rparr>) = [0]" "cvals ((blank 64)\<lparr>psp := 0\<rparr>) = []" by (rule blank_one_ok)+
  with p2c_c2p [OF one_on_blank(1,2) order.refl one_on_blank(3-5), of 0] show ?thesis by auto
qed

end
