(* ===== verification/Scanner.thy ===== *)
theory Scanner
  imports Sections
begin

text \<open>
  The scanner of \<open>x/assemble.go\<close>: it reads the input values of \<open>Assemble\<close> one by one into the sections.

  The input \<open>in\<close> with the index \<open>i\<close> is the list of the values behind \<open>i\<close>, which every handler gets and
  returns.  A handler that expects a label scans the next value, whatever it is: the result of that,
  on the values it is about to read, is the argument \<open>expL\<close> of the handlers.

  What the language leaves open and what the package does not define is in \<open>env\<close>: how \<open>append\<close> grows
  arrays, and the identifier \<open>subProg\<close> of \<open>pushState\<close>, which no file of the package declares.
\<close>

subsection \<open>Results\<close>

datatype asm_err =
  UnexpectedEnd | BadToken | UnexpectedString string | InvalidDirective string | Negative int
| StackSizeRange int | DuplicateEntry string | LabelDefined string | OpError op_error | NotRef Op
| NoLabel | BadAllocCount int | UndefinedLabels "string list" | EncError enc_err

text \<open>An error, a result, or \<^const>\<open>None\<close> for a panic.\<close>

type_synonym 'a res = "(asm_err + 'a) option"

definition and_then :: "'a res \<Rightarrow> ('a \<Rightarrow> 'b res) \<Rightarrow> 'b res" where
  "and_then r f = (case r of None \<Rightarrow> None | Some (Inl e) \<Rightarrow> Some (Inl e) | Some (Inr x) \<Rightarrow> f x)"

definition ok :: "'a option \<Rightarrow> 'a res" where
  "ok = map_option Inr"

subsection \<open>State\<close>

text \<open>A value of the input: a string, an \<open>int\<close>, a \<open>[]interface{}\<close>, or something else.\<close>

datatype val = VStr string | VInt int | VList "val list" | VOther

datatype assemblerState = assemblerText | assemblerData

text \<open>
  Slices of strings share arrays: an array by its number, with all of its capacity, and the length of
  the slice.  The slice nil has no array.
\<close>

type_synonym slice = "(nat \<times> nat) option"

record scannerState =
  asmState :: assemblerState
  label :: string
  open_spans :: "string list"
  cur_labels :: slice
  opens :: "string set"

record unkRet =
  ur_label :: string
  ur_cur :: int
  ur_labels :: slice

record scanner =
  asm :: assembler
  prior :: "(val list \<times> scannerState) list"
  cur :: scannerState
  arrays :: "string list list"
  urs :: "unkRet list"
  unkRets :: "string \<rightharpoonup> nat"

record env =
  grow_toks :: "nat \<Rightarrow> nat"
  grow_strs :: "nat \<Rightarrow> nat"
  subProg :: "val list"

definition fresh_state :: scannerState where
  "fresh_state = \<lparr>asmState = assemblerText, label = '''', open_spans = [], cur_labels = None, opens = {}\<rparr>"

definition elems :: "slice \<Rightarrow> scanner \<Rightarrow> string list" where
  "elems sl sc = (case sl of None \<Rightarrow> [] | Some (a, n) \<Rightarrow> take n (arrays sc ! a))"

text \<open>\<open>sc.labels = sc.labels[:0]\<close> and \<open>sc.labels = append(sc.labels, x)\<close>.\<close>

definition truncate_labels :: "scanner \<Rightarrow> scanner" where
  "truncate_labels sc = sc\<lparr>cur := (cur sc)\<lparr>cur_labels := map_option (\<lambda>(a, n). (a, 0)) (cur_labels (cur sc))\<rparr>\<rparr>"

definition append_label :: "env \<Rightarrow> string \<Rightarrow> scanner \<Rightarrow> scanner" where
  "append_label env x sc =
     (let sl = cur_labels (cur sc);
          n = (case sl of None \<Rightarrow> 0 | Some (a, n) \<Rightarrow> n);
          cap = (case sl of None \<Rightarrow> 0 | Some (a, n) \<Rightarrow> length (arrays sc ! a))
      in if n < cap then
           (case sl of
              None \<Rightarrow> sc
            | Some (a, n) \<Rightarrow>
                sc\<lparr>arrays := (arrays sc)[a := (arrays sc ! a)[n := x]],
                   cur := (cur sc)\<lparr>cur_labels := Some (a, n + 1)\<rparr>\<rparr>)
         else
           sc\<lparr>arrays := arrays sc @ [elems sl sc @ x # replicate (grow_strs env cap - (n + 1)) ''''],
              cur := (cur sc)\<lparr>cur_labels := Some (length (arrays sc), n + 1)\<rparr>\<rparr>)"

definition on_asm :: "(assembler \<Rightarrow> assembler) \<Rightarrow> scanner \<Rightarrow> scanner" where
  "on_asm f sc = sc\<lparr>asm := f (asm sc)\<rparr>"

definition try_asm :: "(assembler \<Rightarrow> assembler option) \<Rightarrow> scanner \<Rightarrow> scanner option" where
  "try_asm f sc = map_option (\<lambda>a. sc\<lparr>asm := a\<rparr>) (f (asm sc))"

definition on_cur :: "(scannerState \<Rightarrow> scannerState) \<Rightarrow> scanner \<Rightarrow> scanner" where
  "on_cur f sc = sc\<lparr>cur := f (cur sc)\<rparr>"

definition add_ref_opt :: "env \<Rightarrow> string \<Rightarrow> string \<Rightarrow> scanner \<Rightarrow> scanner" where
  "add_ref_opt env name target = on_asm (addRefOpt (grow_toks env) name target 0)"

definition prog_label :: "string \<Rightarrow> scanner \<Rightarrow> scanner" where
  "prog_label name = on_asm (\<lambda>a. a\<lparr>prog := sec_addLabel name (prog a)\<rparr>)"

subsection \<open>Expecting values\<close>

fun expect :: "val list \<Rightarrow> (val \<times> val list) res" where
  "expect [] = Some (Inl UnexpectedEnd)"
| "expect (v # rest) = Some (Inr (v, rest))"

definition expectString :: "val list \<Rightarrow> (string \<times> val list) res" where
  "expectString rest = and_then (expect rest) (\<lambda>(v, rest).
     case v of VStr s \<Rightarrow> Some (Inr (s, rest)) | _ \<Rightarrow> Some (Inl BadToken))"

definition expectInt :: "val list \<Rightarrow> (int \<times> val list) res" where
  "expectInt rest = and_then (expect rest) (\<lambda>(v, rest).
     case v of VInt n \<Rightarrow> Some (Inr (n, rest)) | _ \<Rightarrow> Some (Inl BadToken))"

definition resolved_op :: "op_error + Op \<Rightarrow> Op res" where
  "resolved_op r = (case r of Inl e \<Rightarrow> Some (Inl (OpError e)) | Inr op \<Rightarrow> Some (Inr op))"

definition expectRefOp :: "u32 \<Rightarrow> bool \<Rightarrow> string \<Rightarrow> val list \<Rightarrow> (token \<times> val list) res" where
  "expectRefOp arg have name rest = and_then (expectString rest) (\<lambda>(opName, rest).
     and_then (resolved_op (ResolveOp opName arg have)) (\<lambda>op.
       case op_AcceptsRef op of
         None \<Rightarrow> None
       | Some False \<Rightarrow> Some (Inl (NotRef op))
       | Some True \<Rightarrow> Some (Inr ((opToken op)\<lparr>str := name\<rparr>, rest))))"

subsection \<open>Spans\<close>

fun last_index :: "string \<Rightarrow> int \<Rightarrow> int \<Rightarrow> string list \<Rightarrow> int" where
  "last_index name i index [] = index"
| "last_index name i index (l # ls) = last_index name (i + 1) (if l = name then i else index) ls"

text \<open>The label of an unknown return moves when one of its labels turns out to be called.\<close>

definition reopen :: "string \<Rightarrow> nat \<Rightarrow> scanner \<Rightarrow> scanner option" where
  "reopen name u sc =
     (let ur = urs sc ! u;
          index = last_index name 0 (-1) (elems (ur_labels ur) sc)
      in if ur_cur ur < index then
           Option.bind (genProgLabel (''.ret.'' @ name) (asm sc)) (\<lambda>(n, a).
             map_option (\<lambda>(n, a). sc\<lparr>asm := a, urs := (urs sc)[u := ur\<lparr>ur_label := n, ur_cur := index\<rparr>]\<rparr>)
               (renameLabel (ur_label ur) n a))
         else Some sc)"

definition addSpanOpen :: "env \<Rightarrow> string \<Rightarrow> scanner \<Rightarrow> scanner option" where
  "addSpanOpen env name sc =
     (if name \<in> opens (cur sc) then Some sc
      else
        (let sc = on_cur (\<lambda>s. s\<lparr>opens := insert name (opens s)\<rparr>) sc;
             sc = add_ref_opt env ''spanOpen'' name sc
         in case unkRets sc name of None \<Rightarrow> Some sc | Some u \<Rightarrow> reopen name u sc))"

definition addSpanClose :: "env \<Rightarrow> string \<Rightarrow> scanner \<Rightarrow> scanner option" where
  "addSpanClose env name sc =
     (if open_spans (cur sc) \<noteq> [] then
        map_option (\<lambda>(n, a). on_cur (\<lambda>s. s\<lparr>open_spans := butlast (open_spans s)\<rparr>)
            (add_ref_opt env ''spanClose'' n (sc\<lparr>asm := a\<rparr>)))
          (genProgLabel (''.'' @ name @ ''.'' @ last (open_spans (cur sc))) (asm sc))
      else if elems (cur_labels (cur sc)) sc \<noteq> [] then
        map_option (\<lambda>(n, a).
            (let sc = add_ref_opt env ''spanClose'' n (sc\<lparr>asm := a\<rparr>);
                 ur = \<lparr>ur_label = n, ur_cur = -1, ur_labels = cur_labels (cur sc)\<rparr>
             in sc\<lparr>urs := urs sc @ [ur],
                   unkRets := fold (\<lambda>l m. m(l \<mapsto> length (urs sc))) (elems (cur_labels (cur sc)) sc) (unkRets sc)\<rparr>))
          (genProgLabel (''.'' @ name @ ''.unknown'') (asm sc))
      else Some sc)"

definition addProgTok :: "env \<Rightarrow> token \<Rightarrow> scanner \<Rightarrow> scanner option" where
  "addProgTok env tok sc =
     Option.bind
       (if kind tok = opTK \<and> op_Name (tok_op tok) = Some ''ret'' then addSpanClose env ''ret'' sc else Some sc)
       (try_asm (\<lambda>a. map_option (\<lambda>sec. a\<lparr>prog := sec\<rparr>) (sec_add tok (prog a))))"

definition addProgRef :: "env \<Rightarrow> token \<Rightarrow> string \<Rightarrow> int \<Rightarrow> scanner \<Rightarrow> scanner option" where
  "addProgRef env tok name k sc =
     map_option (on_asm (\<lambda>a. a\<lparr>prog := sec_addRef tok name k (prog a)\<rparr>))
       (if kind tok = opTK \<and> op_Name (tok_op tok) = Some ''call'' then addSpanOpen env name sc else Some sc)"

subsection \<open>Labels\<close>

definition defined_label :: "string \<Rightarrow> scanner \<Rightarrow> bool" where
  "defined_label name sc \<longleftrightarrow> (case labels (prog (asm sc)) name of None \<Rightarrow> False | Some i \<Rightarrow> 0 \<le> i)"

text \<open>The common text of \<open>finishIn\<close> and \<open>finishOut\<close>, up to the reset of the pending name.\<close>

definition finish_region :: "env \<Rightarrow> string \<Rightarrow> string \<Rightarrow> scanner \<Rightarrow> scanner res" where
  "finish_region env option pend sc =
     (let nameLabel = ''.'' @ pend @ ''.name'';
          endLabel = ''.'' @ pend @ ''.end''
      in if defined_label endLabel sc then Some (Inl (LabelDefined endLabel))
         else
           (let sc = prog_label endLabel sc;
                sc = add_ref_opt env option pend sc;
                sc = add_ref_opt env option endLabel sc;
                sc = add_ref_opt env ''name'' nameLabel sc;
                sc = prog_label nameLabel sc
            in ok (addProgTok env (stringToken pend) sc)))"

definition finishIn :: "env \<Rightarrow> scanner \<Rightarrow> scanner res" where
  "finishIn env sc =
     and_then (finish_region env ''input'' (pendIn (asm sc)) sc)
       (\<lambda>sc. Some (Inr (on_asm (\<lambda>a. a\<lparr>pendIn := ''''\<rparr>) sc)))"

definition finishOut :: "env \<Rightarrow> scanner \<Rightarrow> scanner res" where
  "finishOut env sc =
     and_then (finish_region env ''output'' (pendOut (asm sc)) sc)
       (\<lambda>sc. Some (Inr (on_asm (\<lambda>a. a\<lparr>pendOut := ''''\<rparr>) sc)))"

definition handleLabel :: "env \<Rightarrow> string \<Rightarrow> scanner \<Rightarrow> scanner res" where
  "handleLabel env name sc =
     and_then (if pendIn (asm sc) \<noteq> '''' then finishIn env sc else Some (Inr sc)) (\<lambda>sc.
     and_then (if pendOut (asm sc) \<noteq> '''' then finishOut env sc else Some (Inr sc)) (\<lambda>sc.
       if defined_label name sc then Some (Inl (LabelDefined name))
       else
         (let sc = (if name \<in> opens (cur sc)
                then truncate_labels (on_cur (\<lambda>s. s\<lparr>open_spans := open_spans s @ [name]\<rparr>) sc)
                else append_label env name sc)
          in and_then (ok (try_asm (addAddrLabel name) sc)) (\<lambda>sc.
               Some (Inr (on_cur (\<lambda>s. s\<lparr>label := name\<rparr>) (prog_label name sc)))))))"

definition setState :: "env \<Rightarrow> assemblerState \<Rightarrow> scanner \<Rightarrow> scanner res" where
  "setState env st sc =
     (if asmState (cur sc) = st then Some (Inr sc)
      else
        (let sc = on_cur (\<lambda>s. s\<lparr>asmState := st\<rparr>) sc
         in if st = assemblerText \<and> pendIn (asm sc) \<noteq> '''' then finishIn env sc
            else if st = assemblerText \<and> pendOut (asm sc) \<noteq> '''' then finishOut env sc
            else Some (Inr sc)))"

subsection \<open>Handlers\<close>

text \<open>A handler takes the values that are left and the scanner, and returns both.\<close>

type_synonym handled = "(val list \<times> scanner) res"
type_synonym expL = "scanner \<Rightarrow> (string \<times> val list \<times> scanner) res"

definition keep_rest :: "val list \<Rightarrow> scanner res \<Rightarrow> handled" where
  "keep_rest rest r = and_then r (\<lambda>sc. Some (Inr (rest, sc)))"

definition handleCount ::
  "string \<Rightarrow> (assembler \<Rightarrow> tok_ptr option) \<Rightarrow> (tok_ptr option \<Rightarrow> assembler \<Rightarrow> assembler) \<Rightarrow>
    env \<Rightarrow> val list \<Rightarrow> scanner \<Rightarrow> handled" where
  "handleCount name field set_field env rest sc =
     and_then (expectInt rest) (\<lambda>(n, rest).
       if n < 0 then Some (Inl (Negative n))
       else keep_rest rest (ok (try_asm (setOption (grow_toks env) field set_field name (of_int n)) sc)))"

definition handleQueueSize :: "env \<Rightarrow> val list \<Rightarrow> scanner \<Rightarrow> handled" where
  "handleQueueSize = handleCount ''queueSize'' queueSizeOpt (\<lambda>p a. a\<lparr>queueSizeOpt := p\<rparr>)"

definition handleMaxOps :: "env \<Rightarrow> val list \<Rightarrow> scanner \<Rightarrow> handled" where
  "handleMaxOps = handleCount ''maxOps'' maxOpsOpt (\<lambda>p a. a\<lparr>maxOpsOpt := p\<rparr>)"

definition handleMaxCopies :: "env \<Rightarrow> val list \<Rightarrow> scanner \<Rightarrow> handled" where
  "handleMaxCopies = handleCount ''maxCopies'' maxCopiesOpt (\<lambda>p a. a\<lparr>maxCopiesOpt := p\<rparr>)"

definition handleStackSize :: "val list \<Rightarrow> scanner \<Rightarrow> handled" where
  "handleStackSize rest sc =
     and_then (expectInt rest) (\<lambda>(n, rest).
       if n < 0 \<or> n > 0xffff then Some (Inl (StackSizeRange n))
       else
         (case stackSizeOpt (asm sc) of
            None \<Rightarrow> None
          | Some p \<Rightarrow>
              (let (p, sec) = assign_arg (of_int n) p (opts (asm sc))
               in Some (Inr (rest, on_asm (\<lambda>a. a\<lparr>stackSizeOpt := Some p, opts := sec\<rparr>) sc)))))"

definition handleEntry :: "env \<Rightarrow> expL \<Rightarrow> scanner \<Rightarrow> handled" where
  "handleEntry env expL sc =
     and_then (setState env assemblerText sc) (\<lambda>sc.
     and_then (expL sc) (\<lambda>(name, rest, sc).
       if defined_label ''.entry'' sc then Some (Inl (DuplicateEntry name))
       else Some (Inr (rest, add_ref_opt env ''entry'' name (prog_label ''.entry'' sc)))))"

definition pushState :: "env \<Rightarrow> val list \<Rightarrow> scanner \<Rightarrow> val list \<times> scanner" where
  "pushState env rest sc = (subProg env, sc\<lparr>prior := prior sc @ [(rest, cur sc)], cur := fresh_state\<rparr>)"

definition handleInclude :: "env \<Rightarrow> val list \<Rightarrow> scanner \<Rightarrow> handled" where
  "handleInclude env rest sc =
     and_then (expect rest) (\<lambda>(v, rest).
       case v of VList vs \<Rightarrow> Some (Inr (pushState env rest sc)) | _ \<Rightarrow> Some (Inl BadToken))"

definition handleDirective :: "env \<Rightarrow> expL \<Rightarrow> string \<Rightarrow> val list \<Rightarrow> scanner \<Rightarrow> handled" where
  "handleDirective env expL name rest sc =
     (if name = ''entry'' then handleEntry env expL sc
      else if name = ''stackSize'' then handleStackSize rest sc
      else if name = ''queueSize'' then handleQueueSize env rest sc
      else if name = ''maxOps'' then handleMaxOps env rest sc
      else if name = ''maxCopies'' then handleMaxCopies env rest sc
      else if name = ''data'' then keep_rest rest (setState env assemblerData sc)
      else if name = ''text'' then keep_rest rest (setState env assemblerText sc)
      else if name = ''include'' then handleInclude env rest sc
      else Some (Inl (InvalidDirective name)))"

definition handleSpanOpen :: "env \<Rightarrow> expL \<Rightarrow> scanner \<Rightarrow> handled" where
  "handleSpanOpen env expL sc =
     and_then (expL sc) (\<lambda>(name, rest, sc).
       keep_rest rest (and_then (ok (addSpanOpen env name sc)) (\<lambda>sc.
         Some (Inr (truncate_labels (on_cur (\<lambda>s. s\<lparr>open_spans := open_spans s @ [name]\<rparr>) sc))))))"

definition handleSpanClose :: "env \<Rightarrow> val list \<Rightarrow> scanner \<Rightarrow> handled" where
  "handleSpanClose env rest sc = keep_rest rest (ok (addSpanClose env ''spanClose'' sc))"

definition handleTextDirective :: "env \<Rightarrow> expL \<Rightarrow> string \<Rightarrow> val list \<Rightarrow> scanner \<Rightarrow> handled" where
  "handleTextDirective env expL s rest sc =
     (if s = ''spanOpen'' then handleSpanOpen env expL sc
      else if s = ''spanClose'' then handleSpanClose env rest sc
      else handleDirective env expL s rest sc)"

definition handleAlloc :: "env \<Rightarrow> val list \<Rightarrow> scanner \<Rightarrow> handled" where
  "handleAlloc env rest sc =
     and_then (expectInt rest) (\<lambda>(n, rest).
       if n < 1 then Some (Inl (BadAllocCount n))
       else keep_rest rest (ok (addProgTok env (allocToken (of_int n)) sc)))"

definition handleInput :: "expL \<Rightarrow> scanner \<Rightarrow> handled" where
  "handleInput expL sc =
     and_then (expL sc) (\<lambda>(name, rest, sc). Some (Inr (rest, on_asm (\<lambda>a. a\<lparr>pendIn := name\<rparr>) sc)))"

definition handleOutput :: "expL \<Rightarrow> scanner \<Rightarrow> handled" where
  "handleOutput expL sc =
     and_then (expL sc) (\<lambda>(name, rest, sc). Some (Inr (rest, on_asm (\<lambda>a. a\<lparr>pendOut := name\<rparr>) sc)))"

definition handleDataDirective :: "env \<Rightarrow> expL \<Rightarrow> string \<Rightarrow> val list \<Rightarrow> scanner \<Rightarrow> handled" where
  "handleDataDirective env expL s rest sc =
     (if s = ''alloc'' then handleAlloc env rest sc
      else if s = ''in'' then handleInput expL sc
      else if s = ''out'' then handleOutput expL sc
      else handleDirective env expL s rest sc)"

definition handleData :: "env \<Rightarrow> expL \<Rightarrow> val \<Rightarrow> val list \<Rightarrow> scanner \<Rightarrow> handled" where
  "handleData env expL v rest sc =
     (case v of
        VStr s \<Rightarrow>
          if 1 < length s \<and> hd s = CHR ''.'' then handleDataDirective env expL (tl s) rest sc
          else if 1 < length s \<and> last s = CHR '':'' then keep_rest rest (handleLabel env (butlast s) sc)
          else Some (Inl (UnexpectedString s))
      | VInt n \<Rightarrow> keep_rest rest (ok (addProgTok env (dataToken (of_int n)) sc))
      | _ \<Rightarrow> Some (Inl BadToken))"

definition refLabel :: "string \<Rightarrow> scanner \<Rightarrow> scanner" where
  "refLabel name = on_asm (\<lambda>a. a\<lparr>prog := stubLabel name (prog a)\<rparr>)"

definition handleOffRef :: "env \<Rightarrow> string \<Rightarrow> int \<Rightarrow> val list \<Rightarrow> scanner \<Rightarrow> handled" where
  "handleOffRef env name n rest sc =
     and_then (expectRefOp 0 True name rest) (\<lambda>(tok, rest).
       keep_rest rest (ok (map_option (refLabel name) (addProgRef env tok name n sc))))"

definition handleRef :: "env \<Rightarrow> string \<Rightarrow> val list \<Rightarrow> scanner \<Rightarrow> handled" where
  "handleRef env name rest sc =
     and_then (expectRefOp 0 True name rest) (\<lambda>(tok, rest).
       keep_rest rest (ok (map_option (refLabel name) (addProgRef env tok name 0 sc))))"

definition handleOp :: "env \<Rightarrow> string \<Rightarrow> val list \<Rightarrow> scanner \<Rightarrow> handled" where
  "handleOp env name rest sc =
     and_then (resolved_op (ResolveOp name 0 False)) (\<lambda>op.
       keep_rest rest (ok (addProgTok env (opToken op) sc)))"

definition handleImm :: "env \<Rightarrow> int \<Rightarrow> val list \<Rightarrow> scanner \<Rightarrow> handled" where
  "handleImm env n rest sc =
     and_then (expectString rest) (\<lambda>(s, rest).
       if 1 < length s \<and> hd s = CHR '':'' then handleOffRef env (tl s) n rest sc
       else and_then (resolved_op (ResolveOp s (of_int n) True)) (\<lambda>op.
         keep_rest rest (ok (addProgTok env (opToken op) sc))))"

definition handleText :: "env \<Rightarrow> expL \<Rightarrow> val \<Rightarrow> val list \<Rightarrow> scanner \<Rightarrow> handled" where
  "handleText env expL v rest sc =
     (case v of
        VStr s \<Rightarrow>
          if 1 < length s \<and> hd s = CHR ''.'' then handleTextDirective env expL (tl s) rest sc
          else if 1 < length s \<and> last s = CHR '':'' then keep_rest rest (handleLabel env (butlast s) sc)
          else if 1 < length s \<and> hd s = CHR '':'' then handleRef env (tl s) rest sc
          else handleOp env s rest sc
      | VInt n \<Rightarrow> handleImm env n rest sc
      | _ \<Rightarrow> Some (Inl BadToken))"

definition handle :: "env \<Rightarrow> expL \<Rightarrow> val \<Rightarrow> val list \<Rightarrow> scanner \<Rightarrow> handled" where
  "handle env expL v rest sc =
     (case asmState (cur sc) of
        assemblerData \<Rightarrow> handleData env expL v rest sc
      | assemblerText \<Rightarrow> handleText env expL v rest sc)"

primrec expectLabel :: "env \<Rightarrow> val list \<Rightarrow> expL" where
  "expectLabel env [] = (\<lambda>sc. Some (Inl UnexpectedEnd))"
| "expectLabel env (v # rest) = (\<lambda>sc.
     and_then (handle env (expectLabel env rest) v rest sc) (\<lambda>(rest, sc).
       if label (cur sc) = '''' then Some (Inl NoLabel) else Some (Inr (label (cur sc), rest, sc))))"

subsection \<open>Scanning\<close>

text \<open>\<open>popState\<close>: false, a panic on spans that are still open, or the state before.\<close>

definition popState :: "scanner \<Rightarrow> (val list \<times> scanner) option option" where
  "popState sc =
     (if prior sc = [] then Some None
      else if open_spans (cur sc) \<noteq> [] then None
      else
        (let (rest, st) = last (prior sc)
         in Some (Some (rest, sc\<lparr>cur := st, prior := butlast (prior sc)\<rparr>))))"

text \<open>The loops of \<open>scan\<close>: a unit of fuel for a value or for the end of an included program.\<close>

fun scan :: "nat \<Rightarrow> env \<Rightarrow> val list \<Rightarrow> scanner \<Rightarrow> (asm_err + scanner) outcome" where
  "scan 0 env rest sc = Timeout"
| "scan (Suc fuel) env (v # rest) sc =
     (case handle env (expectLabel env rest) v rest (on_cur (\<lambda>s. s\<lparr>label := ''''\<rparr>) sc) of
        None \<Rightarrow> Panic
      | Some (Inl e) \<Rightarrow> Done (Inl e)
      | Some (Inr (rest, sc)) \<Rightarrow> scan fuel env rest sc)"
| "scan (Suc fuel) env [] sc =
     (case popState sc of
        None \<Rightarrow> Panic
      | Some None \<Rightarrow> Done (Inr sc)
      | Some (Some (rest, sc)) \<Rightarrow> scan fuel env rest sc)"

definition empty_assembler :: assembler where
  "empty_assembler =
     \<lparr>pendIn = '''', pendOut = '''', adls = empty_section, opts = empty_section, prog = empty_section,
      opt_cap = 0, stackSizeOpt = None, queueSizeOpt = None, maxOpsOpt = None, maxCopiesOpt = None\<rparr>"

definition new_scanner :: "assembler \<Rightarrow> scanner" where
  "new_scanner a = \<lparr>asm = a, prior = [], cur = fresh_state, arrays = [], urs = [], unkRets = Map.empty\<rparr>"

text \<open>\<open>Assemble\<close>, first up to the result of \<open>finish\<close>; a buffer of a negative size panics.\<close>

definition scanned :: "nat \<Rightarrow> env \<Rightarrow> val list \<Rightarrow> (asm_err + sect \<times> tok_ref list \<times> u32) outcome" where
  "scanned fuel env vs =
     (case refOpt (grow_toks env) ''stackSize'' defaultStackSize True empty_assembler of
        None \<Rightarrow> Panic
      | Some (p, a) \<Rightarrow>
          (case scan fuel env vs (new_scanner (a\<lparr>stackSizeOpt := Some p\<rparr>)) of
             Panic \<Rightarrow> Panic | Timeout \<Rightarrow> Timeout | Done (Inl e) \<Rightarrow> Done (Inl e)
           | Done (Inr sc) \<Rightarrow>
               (case finish (asm sc) of
                  None \<Rightarrow> Panic
                | Some (Inl names) \<Rightarrow> Done (Inl (UndefinedLabels names))
                | Some (Inr r) \<Rightarrow> Done (Inr r))))"

definition Assemble :: "nat \<Rightarrow> env \<Rightarrow> val list \<Rightarrow> (asm_err + u8 list) outcome" where
  "Assemble fuel env vs =
     (case scanned fuel env vs of
        Panic \<Rightarrow> Panic | Timeout \<Rightarrow> Timeout | Done (Inl e) \<Rightarrow> Done (Inl e)
      | Done (Inr (sec, rs, base)) \<Rightarrow>
          if maxBytes sec < 0 then Panic
          else
            (case encode fuel base (nat (maxBytes sec)) (sec_toks sec) rs of
               Panic \<Rightarrow> Panic | Timeout \<Rightarrow> Timeout | Done (Inl e) \<Rightarrow> Done (Inl (EncError e))
             | Done (Inr out) \<Rightarrow> Done (Inr out)))"

end
