(* ===== verification/Assembling.thy ===== *)
theory Assembling
  imports Scanner
begin

text \<open>
  Whole runs of the assembler: \<open>Assemble\<close> links what it scans.

  An invariant of the assembler is one that its own operations keep; the scanner then keeps it too,
  whatever the input (locale \<open>asm_invariant\<close>).  The layout of the sections is such an invariant.
\<close>

subsection \<open>Invariants through the scanner\<close>

definition res_all :: "('a \<Rightarrow> bool) \<Rightarrow> 'a res \<Rightarrow> bool" where
  "res_all P r \<longleftrightarrow> (\<forall>x. r = Some (Inr x) \<longrightarrow> P x)"

lemma res_all_simps [simp]:
  "res_all P None" "res_all P (Some (Inl e))" "res_all P (Some (Inr x)) \<longleftrightarrow> P x"
  by (simp_all add: res_all_def)

lemma res_all_then: "res_all Q r \<Longrightarrow> (\<And>x. Q x \<Longrightarrow> res_all P (f x)) \<Longrightarrow> res_all P (and_then r f)"
  by (auto simp: res_all_def and_then_def split: option.splits sum.splits)

lemma res_all_ok: "res_all P (ok r) \<longleftrightarrow> (\<forall>x. r = Some x \<longrightarrow> P x)"
  by (auto simp: res_all_def ok_def)

lemma res_all_if: "(b \<Longrightarrow> res_all P r) \<Longrightarrow> (\<not> b \<Longrightarrow> res_all P r') \<Longrightarrow> res_all P (if b then r else r')"
  by simp

lemma res_all_True [simp]: "res_all (\<lambda>x. True) r"
  by (simp add: res_all_def)

locale asm_invariant =
  fixes P :: "assembler \<Rightarrow> bool" and env :: env
  assumes label: "P a \<Longrightarrow> P (a\<lparr>prog := sec_addLabel name (prog a)\<rparr>)"
    and stub: "P a \<Longrightarrow> P (a\<lparr>prog := stubLabel name (prog a)\<rparr>)"
    and add: "P a \<Longrightarrow> sec_add tok (prog a) = Some sec \<Longrightarrow> P (a\<lparr>prog := sec\<rparr>)"
    and add_ref: "P a \<Longrightarrow> P (a\<lparr>prog := sec_addRef tok name k (prog a)\<rparr>)"
    and ref_opt: "P a \<Longrightarrow> name \<in> {''entry'', ''spanOpen'', ''spanClose''} \<Longrightarrow>
      P (addRefOpt (grow_toks env) name target 0 a)"
    and region_opts: "P a \<Longrightarrow> name \<in> {''input'', ''output''} \<Longrightarrow>
      P (addRefOpt (grow_toks env) ''name'' t3 0 (addRefOpt (grow_toks env) name t2 0 (addRefOpt (grow_toks env) name t1 0 a)))"
    and addr_label: "P a \<Longrightarrow> addAddrLabel name a = Some a' \<Longrightarrow> P a'"
    and rename: "P a \<Longrightarrow> renameLabel old new a = Some (n, a') \<Longrightarrow> P a'"
    and pend_in: "P a \<Longrightarrow> P (a\<lparr>pendIn := s\<rparr>)"
    and pend_out: "P a \<Longrightarrow> P (a\<lparr>pendOut := s\<rparr>)"
    and queue_size: "P a \<Longrightarrow> setOption (grow_toks env) queueSizeOpt (\<lambda>p a. a\<lparr>queueSizeOpt := p\<rparr>) ''queueSize'' v a = Some a' \<Longrightarrow> P a'"
    and max_ops: "P a \<Longrightarrow> setOption (grow_toks env) maxOpsOpt (\<lambda>p a. a\<lparr>maxOpsOpt := p\<rparr>) ''maxOps'' v a = Some a' \<Longrightarrow> P a'"
    and max_copies: "P a \<Longrightarrow> setOption (grow_toks env) maxCopiesOpt (\<lambda>p a. a\<lparr>maxCopiesOpt := p\<rparr>) ''maxCopies'' v a = Some a' \<Longrightarrow> P a'"
    and stack_size: "P a \<Longrightarrow> stackSizeOpt a = Some p \<Longrightarrow> v \<le> 0xffff \<Longrightarrow> assign_arg v p (opts a) = (p', sec) \<Longrightarrow>
      P (a\<lparr>stackSizeOpt := Some p', opts := sec\<rparr>)"
begin

definition holds :: "scanner \<Rightarrow> bool" where
  "holds sc \<longleftrightarrow> P (asm sc)"

definition keeps_label :: "expL \<Rightarrow> bool" where
  "keeps_label expL \<longleftrightarrow> (\<forall>sc. holds sc \<longrightarrow> res_all (\<lambda>(name, rest, sc'). holds sc') (expL sc))"

abbreviation kept :: "handled \<Rightarrow> bool" where
  "kept r \<equiv> res_all (\<lambda>(rest, sc). holds sc) r"

lemma frame [simp]:
  "holds (on_cur f sc) = holds sc" "holds (truncate_labels sc) = holds sc" "holds (append_label env x sc) = holds sc"
  "holds (sc\<lparr>urs := u\<rparr>) = holds sc" "holds (sc\<lparr>unkRets := r\<rparr>) = holds sc"
  "holds (sc\<lparr>cur := c\<rparr>) = holds sc" "holds (sc\<lparr>prior := p\<rparr>) = holds sc" "holds (sc\<lparr>asm := a\<rparr>) = P a"
  by (auto simp: holds_def on_cur_def truncate_labels_def append_label_def Let_def split: option.splits)

lemma keep_rest: "res_all holds r \<Longrightarrow> kept (keep_rest rest r)"
  by (auto simp: keep_rest_def intro: res_all_then)

lemma on_asm: "holds sc \<Longrightarrow> (\<And>a. P a \<Longrightarrow> P (f a)) \<Longrightarrow> holds (on_asm f sc)"
  by (simp add: holds_def on_asm_def)

lemma try_asm: "try_asm f sc = Some sc' \<Longrightarrow> holds sc \<Longrightarrow> (\<And>a a'. P a \<Longrightarrow> f a = Some a' \<Longrightarrow> P a') \<Longrightarrow> holds sc'"
  by (auto simp: holds_def try_asm_def)

lemma prog_label: "holds sc \<Longrightarrow> holds (prog_label name sc)"
  unfolding prog_label_def by (rule on_asm) (auto intro: label)

lemma add_ref_opt:
  "holds sc \<Longrightarrow> name \<in> {''entry'', ''spanOpen'', ''spanClose''} \<Longrightarrow>
    holds (add_ref_opt env name target sc)"
  unfolding add_ref_opt_def by (rule on_asm, assumption, rule ref_opt)

lemma gen_label: "genProgLabel name a = Some (n, a') \<Longrightarrow> P a \<Longrightarrow> P a'"
  by (auto simp: genProgLabel_def bind_eq_Some_conv dest: addr_label [OF label])

lemma gen_label_sc: "genProgLabel name (asm sc) = Some (n, a') \<Longrightarrow> holds sc \<Longrightarrow> P a'"
  unfolding holds_def by (rule gen_label)

lemma reopen:
  assumes "reopen name u sc = Some sc'" "holds sc"
  shows "holds sc'"
proof -
  let ?ur = "urs sc ! u"
  let ?index = "last_index name 0 (-1) (elems (ur_labels ?ur) sc)"
  show ?thesis
  proof (cases "ur_cur ?ur < ?index")
    case True
    then obtain n a n' a' where g: "genProgLabel (''.ret.'' @ name) (asm sc) = Some (n, a)"
      and r: "renameLabel (ur_label ?ur) n a = Some (n', a')" and sc': "asm sc' = a'"
      using assms(1) by (auto simp: reopen_def Let_def bind_eq_Some_conv)
    show ?thesis using rename [OF gen_label_sc [OF g assms(2)] r] by (simp add: holds_def sc')
  next
    case False
    then show ?thesis using assms by (simp add: reopen_def Let_def)
  qed
qed

lemma addSpanOpen:
  assumes "addSpanOpen env name sc = Some sc'" "holds sc"
  shows "holds sc'"
proof (cases "name \<in> opens (cur sc)")
  case True
  then show ?thesis using assms by (simp add: addSpanOpen_def)
next
  case False
  let ?sc = "add_ref_opt env ''spanOpen'' name (on_cur (\<lambda>s. s\<lparr>opens := insert name (opens s)\<rparr>) sc)"
  have "holds ?sc" using assms(2) by (intro add_ref_opt) simp_all
  then show ?thesis
    using assms(1) False by (auto simp: addSpanOpen_def Let_def dest: reopen split: option.splits)
qed

lemma spanClose: "P a \<Longrightarrow> holds (add_ref_opt env ''spanClose'' n (sc\<lparr>asm := a\<rparr>))"
  by (rule add_ref_opt) simp_all

lemma addSpanClose:
  assumes "addSpanClose env name sc = Some sc'" "holds sc"
  shows "holds sc'"
  using assms(1) gen_label_sc [OF _ assms(2)] assms(2) unfolding addSpanClose_def
  by (auto simp: Let_def simp del: append.simps split: if_split_asm intro!: spanClose)

lemma add_tok:
  "P a \<Longrightarrow> map_option (\<lambda>sec. a\<lparr>prog := sec\<rparr>) (sec_add tok (prog a)) = Some a' \<Longrightarrow> P a'"
  by (auto intro: add)

lemma addProgTok: "addProgTok env tok sc = Some sc' \<Longrightarrow> holds sc \<Longrightarrow> holds sc'"
  unfolding addProgTok_def bind_eq_Some_conv
  by (auto split: if_split_asm dest: addSpanClose elim!: try_asm intro: add_tok)

lemma addProgRef: "addProgRef env tok name k sc = Some sc' \<Longrightarrow> holds sc \<Longrightarrow> holds sc'"
  unfolding addProgRef_def
  by (auto split: if_split_asm dest: addSpanOpen intro!: on_asm add_ref)

lemma add_region_opts:
  assumes "holds sc" "option \<in> {''input'', ''output''}"
  shows "holds (add_ref_opt env ''name'' t3 (add_ref_opt env option t2 (add_ref_opt env option t1 sc)))"
  using region_opts [OF _ assms(2)] assms(1) by (simp add: holds_def add_ref_opt_def on_asm_def)

lemma finish_region:
  assumes "holds sc" "option \<in> {''input'', ''output''}"
  shows "res_all holds (finish_region env option pend sc)"
  unfolding finish_region_def Let_def
  using add_region_opts [OF prog_label [OF assms(1)] assms(2)]
  by (intro res_all_if) (auto simp: res_all_ok simp del: append.simps intro!: prog_label elim!: addProgTok)

lemma finishIn: "holds sc \<Longrightarrow> res_all holds (finishIn env sc)"
  unfolding finishIn_def
  by (rule res_all_then [OF finish_region]) (auto intro: on_asm pend_in)

lemma finishOut: "holds sc \<Longrightarrow> res_all holds (finishOut env sc)"
  unfolding finishOut_def
  by (rule res_all_then [OF finish_region]) (auto intro: on_asm pend_out)

lemma new_label:
  assumes "holds sc"
  shows "res_all holds (and_then (ok (try_asm (addAddrLabel name) sc)) (\<lambda>sc.
    Some (Inr (on_cur (\<lambda>s. s\<lparr>label := name\<rparr>) (prog_label name sc)))))"
  by (rule res_all_then [where Q = holds])
    (auto simp: res_all_ok assms intro!: prog_label elim!: try_asm intro: addr_label)

lemma handleLabel: "holds sc \<Longrightarrow> res_all holds (handleLabel env name sc)"
  unfolding handleLabel_def Let_def
  by (intro res_all_then [where Q = holds and r = "if _ then _ else _"] res_all_if)
    (simp_all add: finishIn finishOut new_label)

lemma setState: "holds sc \<Longrightarrow> res_all holds (setState env st sc)"
  by (simp add: setState_def Let_def finishIn finishOut)

lemma count:
  assumes "holds sc" "\<And>v a a'. P a \<Longrightarrow> setOption (grow_toks env) field set_field name v a = Some a' \<Longrightarrow> P a'"
  shows "kept (handleCount name field set_field env rest sc)"
  unfolding handleCount_def
  by (rule res_all_then [where Q = "\<lambda>x. True"])
    (auto simp: res_all_ok assms intro!: keep_rest elim!: try_asm intro: assms(2))

lemma small_of_int: "\<not> (n < 0 \<or> 0xffff < n) \<Longrightarrow> (of_int n :: u32) \<le> 0xffff"
  by (auto simp: word_le_nat_alt unsigned_of_int take_bit_int_eq_self)

lemma handleStackSize: "holds sc \<Longrightarrow> kept (handleStackSize rest sc)"
  unfolding handleStackSize_def
proof (rule res_all_then [where Q = "\<lambda>x. True"], simp, clarify)
  fix n rest'
  assume h: "holds sc"
  show "kept (if n < 0 \<or> n > 0xffff then Some (Inl (StackSizeRange n))
       else
         (case stackSizeOpt (asm sc) of
            None \<Rightarrow> None
          | Some p \<Rightarrow>
              (let (p, sec) = assign_arg (of_int n) p (opts (asm sc))
               in Some (Inr (rest', on_asm (\<lambda>a. a\<lparr>stackSizeOpt := Some p, opts := sec\<rparr>) sc)))))"
    using h by (auto simp: holds_def on_asm_def dest: stack_size [OF _ _ small_of_int] split: option.split prod.split)
qed

lemma keeps_labelD: "keeps_label expL \<Longrightarrow> holds sc \<Longrightarrow> res_all (\<lambda>(name, rest, sc'). holds sc') (expL sc)"
  by (simp add: keeps_label_def)

lemma handleEntry:
  assumes "holds sc" "keeps_label expL"
  shows "kept (handleEntry env expL sc)"
  unfolding handleEntry_def
proof (rule res_all_then [OF setState [OF assms(1)]])
  fix sc'
  assume "holds sc'"
  show "kept (and_then (expL sc') (\<lambda>(name, rest, sc).
      if defined_label ''.entry'' sc then Some (Inl (DuplicateEntry name))
      else Some (Inr (rest, add_ref_opt env ''entry'' name (prog_label ''.entry'' sc)))))"
    by (rule res_all_then [OF keeps_labelD [OF assms(2) \<open>holds sc'\<close>]])
      (auto intro!: add_ref_opt prog_label)
qed

lemma handleInclude: "holds sc \<Longrightarrow> kept (handleInclude env rest sc)"
  unfolding handleInclude_def
  by (rule res_all_then [where Q = "\<lambda>x. True"]) (auto simp: pushState_def split: val.split)

lemma handleQueueSize: "holds sc \<Longrightarrow> kept (handleQueueSize env rest sc)"
  unfolding handleQueueSize_def by (rule count, assumption, rule queue_size)

lemma handleMaxOps: "holds sc \<Longrightarrow> kept (handleMaxOps env rest sc)"
  unfolding handleMaxOps_def by (rule count, assumption, rule max_ops)

lemma handleMaxCopies: "holds sc \<Longrightarrow> kept (handleMaxCopies env rest sc)"
  unfolding handleMaxCopies_def by (rule count, assumption, rule max_copies)

lemma handleDirective: "holds sc \<Longrightarrow> keeps_label expL \<Longrightarrow> kept (handleDirective env expL name rest sc)"
  by (simp add: handleDirective_def handleEntry handleStackSize handleQueueSize handleMaxOps handleMaxCopies
      handleInclude keep_rest setState)

lemma handleSpanOpen: "holds sc \<Longrightarrow> keeps_label expL \<Longrightarrow> kept (handleSpanOpen env expL sc)"
  unfolding handleSpanOpen_def
  by (rule res_all_then [where Q = "\<lambda>(name, rest, sc). holds sc"])
    (auto simp: keeps_label_def res_all_ok intro!: keep_rest intro!: res_all_then [where Q = holds] dest: addSpanOpen)

lemma handleSpanClose: "holds sc \<Longrightarrow> kept (handleSpanClose env rest sc)"
  unfolding handleSpanClose_def by (rule keep_rest) (auto simp: res_all_ok dest: addSpanClose)

lemma handleTextDirective: "holds sc \<Longrightarrow> keeps_label expL \<Longrightarrow> kept (handleTextDirective env expL s rest sc)"
  unfolding handleTextDirective_def by (simp add: handleSpanOpen handleSpanClose handleDirective)

lemma tok_kept: "holds sc \<Longrightarrow> kept (keep_rest rest (ok (addProgTok env tok sc)))"
  by (rule keep_rest) (auto simp: res_all_ok dest: addProgTok)

lemma handleAlloc: "holds sc \<Longrightarrow> kept (handleAlloc env rest sc)"
  unfolding handleAlloc_def by (rule res_all_then [where Q = "\<lambda>x. True"]) (auto intro: tok_kept)

lemma handleInput: "holds sc \<Longrightarrow> keeps_label expL \<Longrightarrow> kept (handleInput expL sc)"
  unfolding handleInput_def
  by (rule res_all_then [where Q = "\<lambda>(name, rest, sc). holds sc"])
    (auto simp: keeps_label_def intro!: on_asm pend_in)

lemma handleOutput: "holds sc \<Longrightarrow> keeps_label expL \<Longrightarrow> kept (handleOutput expL sc)"
  unfolding handleOutput_def
  by (rule res_all_then [where Q = "\<lambda>(name, rest, sc). holds sc"])
    (auto simp: keeps_label_def intro!: on_asm pend_out)

lemma handleDataDirective: "holds sc \<Longrightarrow> keeps_label expL \<Longrightarrow> kept (handleDataDirective env expL s rest sc)"
  unfolding handleDataDirective_def by (simp add: handleAlloc handleInput handleOutput handleDirective)

lemma handleData: "holds sc \<Longrightarrow> keeps_label expL \<Longrightarrow> kept (handleData env expL v rest sc)"
  unfolding handleData_def
  by (cases v) (auto intro: handleDataDirective keep_rest handleLabel tok_kept)

lemma ref_kept:
  "holds sc \<Longrightarrow> kept (and_then r (\<lambda>(tok, rest). keep_rest rest (ok (map_option (refLabel name) (addProgRef env tok name k sc)))))"
  by (rule res_all_then [where Q = "\<lambda>x. True"])
    (auto simp: res_all_ok refLabel_def dest: addProgRef intro!: keep_rest on_asm stub)

lemma op_kept:
  "holds sc \<Longrightarrow> kept (and_then r (\<lambda>op. keep_rest rest (ok (addProgTok env (opToken op) sc))))"
  by (rule res_all_then [where Q = "\<lambda>x. True"]) (auto intro: tok_kept)

lemma handleImm: "holds sc \<Longrightarrow> kept (handleImm env n rest sc)"
  unfolding handleImm_def handleOffRef_def
  by (rule res_all_then [where Q = "\<lambda>x. True"]) (auto intro: ref_kept op_kept)

lemma handleText: "holds sc \<Longrightarrow> keeps_label expL \<Longrightarrow> kept (handleText env expL v rest sc)"
  unfolding handleText_def handleRef_def handleOp_def
  by (cases v) (auto intro: handleTextDirective keep_rest handleLabel ref_kept op_kept handleImm)

lemma handle_kept: "holds sc \<Longrightarrow> keeps_label expL \<Longrightarrow> kept (handle env expL v rest sc)"
  by (cases "asmState (cur sc)") (simp_all add: handle_def handleData handleText)

lemma expectLabel: "keeps_label (expectLabel env rest)"
proof (induction rest)
  case (Cons v rest)
  then have "holds sc \<Longrightarrow> kept (handle env (expectLabel env rest) v rest sc)" for sc by (rule handle_kept [rotated])
  then show ?case
    unfolding keeps_label_def expectLabel.simps by (auto intro!: res_all_then [where Q = "\<lambda>(rest, sc). holds sc"])
qed (simp add: keeps_label_def)

text \<open>What the scanner leaves when it is done.\<close>

lemma scan_keeps: "scan fuel env rest sc = Done (Inr sc') \<Longrightarrow> holds sc \<Longrightarrow> holds sc'"
proof (induction fuel arbitrary: rest sc)
  case (Suc fuel)
  show ?case
  proof (cases rest)
    case Nil
    with Suc.prems show ?thesis
      by (auto split: if_split_asm prod.split_asm option.split_asm intro: Suc.IH simp: popState_def Let_def)
  next
    case (Cons v vs)
    let ?sc = "on_cur (\<lambda>s. s\<lparr>label := ''''\<rparr>) sc"
    have "kept (handle env (expectLabel env vs) v vs ?sc)"
      using Suc.prems(2) by (intro handle_kept expectLabel) simp
    moreover obtain rest' sc1 where "handle env (expectLabel env vs) v vs ?sc = Some (Inr (rest', sc1))"
      and "scan fuel env rest' sc1 = Done (Inr sc')"
      using Suc.prems(1) Cons by (auto split: option.split_asm sum.split_asm)
    ultimately show ?thesis using Suc.IH by auto
  qed
qed simp

end

subsection \<open>The layout of the sections\<close>

definition sites_ok :: "sect \<Rightarrow> bool" where
  "sites_ok sec \<longleftrightarrow>
     sorted_wrt (<) (map (\<lambda>r. site (nref r)) (sec_refs sec)) \<and>
     (\<forall>r \<in> set (sec_refs sec). 0 \<le> site (nref r) \<and> site (nref r) < int (length (sec_toks sec)))"

definition no_labels :: "sect \<Rightarrow> bool" where
  "no_labels sec \<longleftrightarrow> labels sec = Map.empty \<and> (\<forall>t \<in> set (sec_toks sec). \<not> is_end t)"

text \<open>Only the program has labels, and no section has the token that ends the options.\<close>

definition laid_out :: "assembler \<Rightarrow> bool" where
  "laid_out a \<longleftrightarrow>
     sites_ok (adls a) \<and> sites_ok (opts a) \<and> sites_ok (prog a) \<and> no_labels (adls a) \<and> no_labels (opts a) \<and>
     (\<forall>name i. labels (prog a) name = Some i \<longrightarrow> i \<le> int (length (sec_toks (prog a))))"

lemma sites_ok_cong:
  "sites_ok sec \<Longrightarrow> map (\<lambda>r. site (nref r)) (sec_refs sec') = map (\<lambda>r. site (nref r)) (sec_refs sec) \<Longrightarrow>
    length (sec_toks sec) \<le> length (sec_toks sec') \<Longrightarrow> sites_ok sec'"
proof -
  assume a: "sites_ok sec" "map (\<lambda>r. site (nref r)) (sec_refs sec') = map (\<lambda>r. site (nref r)) (sec_refs sec)"
    "length (sec_toks sec) \<le> length (sec_toks sec')"
  have "(\<lambda>r. site (nref r)) ` set (sec_refs sec') = (\<lambda>r. site (nref r)) ` set (sec_refs sec)"
    using a(2) by (metis list.set_map)
  then have "\<exists>q \<in> set (sec_refs sec). site (nref r) = site (nref q)" if "r \<in> set (sec_refs sec')" for r
    using that by (metis (mono_tags, lifting) imageE imageI)
  moreover have "0 \<le> site (nref q) \<and> site (nref q) < int (length (sec_toks sec'))" if "q \<in> set (sec_refs sec)" for q
    using a(1,3) that by (auto simp: sites_ok_def)
  ultimately have "0 \<le> site (nref r) \<and> site (nref r) < int (length (sec_toks sec'))" if "r \<in> set (sec_refs sec')" for r
    using that by metis
  then show "sites_ok sec'" using a(1,2) by (simp add: sites_ok_def)
qed

lemma sites_ok_add: "sites_ok sec \<Longrightarrow> sec_add tok sec = Some sec' \<Longrightarrow> sites_ok sec'"
  by (erule sites_ok_cong) (auto simp: sec_add_def)

lemma sites_ok_addRef: "sites_ok sec \<Longrightarrow> sites_ok (sec_addRef tok name k sec)"
  by (auto simp: sites_ok_def sec_addRef_def sorted_wrt_append)

lemma sites_ok_rename: "sites_ok sec \<Longrightarrow> sites_ok (sec_renameLabel old new sec)"
  by (erule sites_ok_cong) (auto simp: sec_renameLabel_def Let_def split: option.split)

lemma no_labels_add: "no_labels sec \<Longrightarrow> \<not> is_end tok \<Longrightarrow> sec_add tok sec = Some sec' \<Longrightarrow> no_labels sec'"
  by (auto simp: no_labels_def sec_add_def)

lemma no_labels_addRef: "no_labels sec \<Longrightarrow> \<not> is_end tok \<Longrightarrow> no_labels (sec_addRef tok name k sec)"
  by (auto simp: no_labels_def sec_addRef_def)

lemma no_labels_rename: "no_labels sec \<Longrightarrow> no_labels (sec_renameLabel old new sec)"
  by (auto simp: no_labels_def sec_renameLabel_def Let_def)

lemma is_end_with_arg [simp]: "is_end (with_arg v t) = is_end t"
  by (simp add: is_end_def with_arg_def)

lemma optToken_not_end:
  "name \<in> {''stackSize'', ''queueSize'', ''maxOps'', ''maxCopies'', ''addrLabels'', ''entry'', ''input'', ''output'',
      ''name'', ''spanOpen'', ''spanClose''} \<Longrightarrow> \<not> is_end ((optToken name v h)\<lparr>str := s\<rparr>)"
  "name \<in> {''stackSize'', ''queueSize'', ''maxOps'', ''maxCopies'', ''addrLabels'', ''entry'', ''input'', ''output'',
      ''name'', ''spanOpen'', ''spanClose''} \<Longrightarrow> \<not> is_end (optToken name v h)"
  by (auto simp: optToken_def is_end_def ResolveOption_def all_opts_def)

lemma assign_arg_ok:
  assumes "assign_arg v p sec = (p', sec')"
  shows "sites_ok sec \<Longrightarrow> sites_ok sec'" "no_labels sec \<Longrightarrow> no_labels sec'"
proof -
  show "sites_ok sec \<Longrightarrow> sites_ok sec'"
    using assms by (elim sites_ok_cong) (auto simp: assign_arg_def split: tok_ptr.splits)
  have "\<not> is_end t" if "\<forall>t \<in> set ts. \<not> is_end t" "t \<in> set (ts[i := with_arg v (ts ! i)])" for t ts i
  proof (cases "i < length ts")
    case True
    then show ?thesis using that set_update_subset_insert [of ts i "with_arg v (ts ! i)"] by auto
  next
    case False
    then have "ts[i := with_arg v (ts ! i)] = ts" by (intro list_update_beyond) (rule leI)
    then show ?thesis using that by metis
  qed
  then show "no_labels sec \<Longrightarrow> no_labels sec'"
    using assms by (auto simp: no_labels_def assign_arg_def split: tok_ptr.splits)
qed

lemma make_room_sections [simp]:
  "adls (make_room g a) = adls a" "opts (make_room g a) = opts a" "prog (make_room g a) = prog a"
  by (simp_all add: make_room_def)

lemma laid_out_opts:
  "laid_out a \<Longrightarrow> adls a' = adls a \<Longrightarrow> prog a' = prog a \<Longrightarrow> sites_ok (opts a') \<Longrightarrow> no_labels (opts a') \<Longrightarrow> laid_out a'"
  by (simp add: laid_out_def)

lemma laid_out_addOpt:
  assumes "laid_out a" "addOpt g name v h a = Some a'" "name \<in> {''stackSize'', ''queueSize'', ''maxOps'', ''maxCopies''}"
  shows "laid_out a'"
proof -
  have "\<not> is_end (optToken name v h)" using assms(3) by (intro optToken_not_end(2)) auto
  then show ?thesis
    using assms(1,2) unfolding addOpt_def Let_def
    by (auto intro!: laid_out_opts [OF assms(1)] intro: sites_ok_add no_labels_add simp: laid_out_def)
qed

lemma laid_out_setOption:
  assumes "laid_out a" "setOption g field set_field name v a = Some a'"
    "name \<in> {''stackSize'', ''queueSize'', ''maxOps'', ''maxCopies''}"
    "\<And>p b. adls (set_field p b) = adls b \<and> opts (set_field p b) = opts b \<and> prog (set_field p b) = prog b"
  shows "laid_out a'"
proof (cases "field a")
  case None
  then obtain b p where "addOpt g name v True a = Some b" "a' = set_field p b"
    using assms(2) by (auto simp: setOption_def refOpt_def)
  then show ?thesis using laid_out_addOpt [OF assms(1) _ assms(3)] assms(4) by (auto simp: laid_out_def)
next
  case (Some p)
  then obtain p' sec where "assign_arg v p (opts a) = (p', sec)" "a' = set_field (Some p') (a\<lparr>opts := sec\<rparr>)"
    using assms(2) by (auto simp: setOption_def split: prod.splits)
  then show ?thesis using assms(1,4) assign_arg_ok [of v p "opts a" p' sec] by (auto simp: laid_out_def)
qed

lemma laid_out_addrLabel:
  assumes "laid_out a" "addAddrLabel name a = Some a'"
  shows "laid_out a'"
proof -
  obtain sec where sec: "(case sec_toks (adls a) of
          [] \<Rightarrow> sec_add (optToken ''addrLabels'' 1 True) (adls a)
        | t # ts \<Rightarrow> Some ((adls a)\<lparr>sec_toks := with_arg (Arg (tok_op t) + 1) t # ts\<rparr>)) = Some sec"
    and a': "a' = a\<lparr>adls := sec_addRef (addrLabelToken name) name 0 sec\<rparr>"
    using assms(2) by (auto simp: addAddrLabel_def)
  have s: "sites_ok (adls a)" "no_labels (adls a)" using assms(1) by (simp_all add: laid_out_def)
  have "sites_ok sec \<and> no_labels sec"
  proof (cases "sec_toks (adls a)")
    case Nil
    then have "sec_add (optToken ''addrLabels'' 1 True) (adls a) = Some sec" using sec by simp
    then show ?thesis using sites_ok_add [OF s(1)] no_labels_add [OF s(2), of "optToken ''addrLabels'' 1 True"]
        optToken_not_end(2) [of "''addrLabels''"] by simp
  next
    case (Cons t ts)
    then have "sec = (adls a)\<lparr>sec_toks := with_arg (Arg (tok_op t) + 1) t # ts\<rparr>" using sec by simp
    then show ?thesis using s Cons by (auto simp: no_labels_def elim!: sites_ok_cong)
  qed
  moreover have "\<not> is_end (addrLabelToken name)" by (simp add: is_end_def addrLabelToken_def)
  ultimately show ?thesis
    using assms(1) by (simp add: a' laid_out_def sites_ok_addRef no_labels_addRef)
qed

lemma rename_adl_ok:
  "rename_adl old new ts = Some (ts', d) \<Longrightarrow> length ts' = length ts \<and>
    ((\<forall>t \<in> set ts. \<not> is_end t) \<longrightarrow> (\<forall>t \<in> set ts'. \<not> is_end t))"
proof (induction ts arbitrary: ts' d)
  case (Cons t ts)
  then show ?case by (auto simp: is_end_def split: if_splits option.splits)
qed simp

lemma laid_out_rename:
  assumes "laid_out a" "renameLabel old new a = Some (n, a')"
  shows "laid_out a'"
proof -
  let ?r = "sec_renameLabel old n"
  obtain ts d where ts: "rename_adl old n (sec_toks (?r (adls a))) = Some (ts, d)"
    and a': "a' = a\<lparr>adls := (?r (adls a))\<lparr>sec_toks := ts, maxBytes := maxBytes (?r (adls a)) + d\<rparr>,
      opts := ?r (opts a), prog := ?r (prog a)\<rparr>"
    using assms(2) by (auto simp: renameLabel_def Let_def bind_eq_Some_conv)
  have s: "sites_ok (?r (adls a))" "no_labels (?r (adls a))" "sites_ok (?r (opts a))" "no_labels (?r (opts a))" "sites_ok (?r (prog a))"
    using assms(1) by (simp_all add: laid_out_def sites_ok_rename no_labels_rename)
  have "sites_ok ((?r (adls a))\<lparr>sec_toks := ts, maxBytes := k\<rparr>)" for k
    using s(1) rename_adl_ok [OF ts] by (elim sites_ok_cong) auto
  moreover have "no_labels ((?r (adls a))\<lparr>sec_toks := ts, maxBytes := k\<rparr>)" for k
    using s(2) rename_adl_ok [OF ts] by (simp add: no_labels_def)
  moreover have "i \<le> int (length (sec_toks (?r (prog a))))" if "labels (?r (prog a)) name = Some i" for name i
    using that assms(1) by (auto simp: sec_renameLabel_def Let_def laid_out_def split: option.splits if_splits)
  ultimately show ?thesis using s unfolding a' laid_out_def by simp
qed

lemma laid_out_addRefOpt:
  assumes "laid_out a" "name \<in> {''entry'', ''input'', ''output'', ''name'', ''spanOpen'', ''spanClose''}"
  shows "laid_out (addRefOpt g name target k a)"
proof -
  have "\<not> is_end ((optToken name 0 True)\<lparr>str := target\<rparr>)" using assms(2) by (intro optToken_not_end(1)) auto
  then show ?thesis
    using assms(1) by (intro laid_out_opts [OF assms(1)])
      (simp_all add: addRefOpt_def Let_def laid_out_def sites_ok_addRef no_labels_addRef)
qed

interpretation layout: asm_invariant laid_out env for env
proof
  fix a :: assembler and name assume "laid_out a"
  then show "laid_out (a\<lparr>prog := sec_addLabel name (prog a)\<rparr>)"
    by (auto simp: laid_out_def sec_addLabel_def sites_ok_def)
next
  fix a :: assembler and name assume "laid_out a"
  then show "laid_out (a\<lparr>prog := stubLabel name (prog a)\<rparr>)"
    by (auto simp: laid_out_def stubLabel_def sites_ok_def)
next
  fix a :: assembler and tok sec assume "laid_out a" "sec_add tok (prog a) = Some sec"
  then show "laid_out (a\<lparr>prog := sec\<rparr>)"
    using sites_ok_add [of "prog a" tok sec] by (fastforce simp: laid_out_def sec_add_def)
next
  fix a :: assembler and tok name k assume "laid_out a"
  then show "laid_out (a\<lparr>prog := sec_addRef tok name k (prog a)\<rparr>)"
    using sites_ok_addRef [of "prog a" tok name k] by (fastforce simp: laid_out_def sec_addRef_def)
next
  fix a :: assembler and name target
  assume a: "laid_out a" "name \<in> {''entry'', ''spanOpen'', ''spanClose''}"
  then show "laid_out (addRefOpt (grow_toks env) name target 0 a)" by (intro laid_out_addRefOpt) auto
next
  fix a :: assembler and name t1 t2 t3
  assume a: "laid_out a" "name \<in> {''input'', ''output''}"
  then show "laid_out (addRefOpt (grow_toks env) ''name'' t3 0 (addRefOpt (grow_toks env) name t2 0
      (addRefOpt (grow_toks env) name t1 0 a)))"
    by (intro laid_out_addRefOpt) auto
next
  fix a p v p' sec
  assume "laid_out a" "assign_arg v p (opts a) = (p', sec)"
  then show "laid_out (a\<lparr>stackSizeOpt := Some p', opts := sec\<rparr>)"
    using assign_arg_ok [of v p "opts a" p' sec] by (simp add: laid_out_def)
next
  fix a s assume "laid_out a"
  then show "laid_out (a\<lparr>pendIn := s\<rparr>)" "laid_out (a\<lparr>pendOut := s\<rparr>)" by (simp_all add: laid_out_def)
qed (erule (1) laid_out_addrLabel laid_out_rename | erule (1) laid_out_setOption, simp, simp)+

subsection \<open>Finishing\<close>

lemma laid_out_new:
  assumes "refOpt g ''stackSize'' v True empty_assembler = Some (p, a)"
  shows "laid_out (a\<lparr>stackSizeOpt := Some p\<rparr>)"
proof -
  have "laid_out empty_assembler"
    by (simp add: laid_out_def empty_assembler_def sites_ok_def no_labels_def empty_section_def)
  moreover have "addOpt g ''stackSize'' v True empty_assembler = Some a" using assms by (auto simp: refOpt_def)
  ultimately have "laid_out a" by (rule laid_out_addOpt) simp
  then show ?thesis by (simp add: laid_out_def)
qed

definition shifted :: "int \<Rightarrow> sect \<Rightarrow> namedRef list" where
  "shifted k sec = map (\<lambda>r. r\<lparr>nref := (nref r)\<lparr>site := site (nref r) + k\<rparr>\<rparr>) (sec_refs sec)"

lemma shifted_sorted:
  "sites_ok sec \<Longrightarrow> sorted_wrt (\<lambda>r q. site (nref r) < site (nref q)) (shifted k sec)"
  by (simp add: sites_ok_def shifted_def sorted_wrt_map)

lemma shifted_sites:
  "sites_ok sec \<Longrightarrow> r \<in> set (shifted k sec) \<Longrightarrow>
    k \<le> site (nref r) \<and> site (nref r) < k + int (length (sec_toks sec))"
  by (auto simp: sites_ok_def shifted_def)

lemma finish_collect:
  assumes L: "laid_out a" and f: "finish a = Some (Inr (sec, rs, base))"
    and n1: "n1 = 1 + length (sec_toks (adls a))" and n2: "n2 = n1 + length (sec_toks (opts a))"
  shows "sec_toks sec = optToken ''version'' 0 False # sec_toks (adls a) @ sec_toks (opts a) @
      optToken ''end'' 0 False # sec_toks (prog a)"
    and "sec_refs sec = shifted 1 (adls a) @ shifted (int n1) (opts a) @ shifted (int n2 + 1) (prog a)"
    and "labels sec = (\<lambda>name. case labels (prog a) name of
        Some i \<Rightarrow> if 0 \<le> i then Some (int n2 + 1 + i) else None | None \<Rightarrow> None)"
    and "undefined_labels sec = []" and "resolveRefs sec = Some rs"
proof -
  obtain v e p where v: "makeSection [optToken ''version'' 0 False] = Some v"
    and e: "makeSection [optToken ''end'' 0 False] = Some e"
    and sec: "sec = collectSections [v, adls a, opts a, e, prog a]"
    and bad: "undefined_labels sec = []" and rs: "resolveRefs sec = Some rs"
    using f by (auto simp: finish_def Let_def split: option.splits if_splits)
  have toks: "sec_toks v = [optToken ''version'' 0 False]" "sec_toks e = [optToken ''end'' 0 False]"
    and refs: "sec_refs v = []" "sec_refs e = []" and labs: "labels v = Map.empty" "labels e = Map.empty"
    using v e by (auto simp: makeSection_def empty_section_def)
  have none: "labels (adls a) = Map.empty" "labels (opts a) = Map.empty"
    using L by (simp_all add: laid_out_def no_labels_def)
  show "undefined_labels sec = []" "resolveRefs sec = Some rs" by (fact bad, fact rs)
  show "sec_toks sec = optToken ''version'' 0 False # sec_toks (adls a) @ sec_toks (opts a) @
      optToken ''end'' 0 False # sec_toks (prog a)"
    by (simp add: sec collectSections_def collect_def Let_def toks empty_section_def)
  show "sec_refs sec = shifted 1 (adls a) @ shifted (int n1) (opts a) @ shifted (int n2 + 1) (prog a)"
    by (simp add: sec collectSections_def collect_def Let_def toks refs empty_section_def shifted_def n1 n2 add_ac)
  show "labels sec = (\<lambda>name. case labels (prog a) name of
        Some i \<Rightarrow> if 0 \<le> i then Some (int n2 + 1 + i) else None | None \<Rightarrow> None)"
    by (rule ext)
      (simp add: sec collectSections_def collect_def Let_def toks labs none empty_section_def n1 n2 split: option.split)
qed

lemma collected_end:
  assumes "laid_out a"
  shows "end_of (optToken ''version'' 0 False # sec_toks (adls a) @ sec_toks (opts a) @ optToken ''end'' 0 False # ts) =
    length (sec_toks (adls a)) + length (sec_toks (opts a)) + 2"
proof -
  have v: "\<not> is_end (optToken ''version'' 0 False)" and e: "is_end (optToken ''end'' 0 False)"
    by (simp_all add: is_end_def optToken_def ResolveOption_def all_opts_def)
  have "\<forall>t \<in> set (sec_toks (adls a)). \<not> is_end t" "\<forall>t \<in> set (sec_toks (opts a)). \<not> is_end t"
    using assms by (simp_all add: laid_out_def no_labels_def)
  then have "takeWhile (\<lambda>t. \<not> is_end t) (optToken ''version'' 0 False # sec_toks (adls a) @ sec_toks (opts a) @ optToken ''end'' 0 False # ts)
      = optToken ''version'' 0 False # sec_toks (adls a) @ sec_toks (opts a)"
    using v e by (simp add: takeWhile_append2)
  then show ?thesis by (simp add: end_of_def)
qed

lemma resolved_labels:
  assumes "undefined_labels sec = []" "resolveRefs sec = Some rs" "r \<in> set (sec_refs sec)"
  obtains i where "labels sec (targName r) = Some i" "0 \<le> i"
proof -
  have "targName r \<noteq> ''''" using assms(2,3) by (auto simp: resolveRefs_def list_ex_iff split: if_splits)
  with assms(1,3) have "\<not> (case labels sec (targName r) of None \<Rightarrow> True | Some i \<Rightarrow> i < 0)"
    by (auto simp: undefined_labels_def filter_empty_conv)
  then show thesis using that by (auto split: option.splits)
qed

lemma finish_sections:
  assumes L: "laid_out a" and f: "finish a = Some (Inr (sec, rs, base))"
  shows "sorted_refs (sec_toks sec) rs"
    and "\<forall>r \<in> set (sec_refs sec). \<exists>q \<in> set rs.
      site q = site (nref r) \<and> off q = off (nref r) \<and> labels sec (targName r) = Some (targ q)"
proof -
  define n1 where "n1 = 1 + length (sec_toks (adls a))"
  define n2 where "n2 = n1 + length (sec_toks (opts a))"
  note c = finish_collect [OF L f n1_def n2_def]
  note at_label = resolved_labels [OF c(4,5)]
  let ?f = "\<lambda>r. (nref r)\<lparr>targ := (case labels sec (targName r) of None \<Rightarrow> 0 | Some i \<Rightarrow> i)\<rparr>"
  have ok: "sites_ok (adls a)" "sites_ok (opts a)" "sites_ok (prog a)" using L by (simp_all add: laid_out_def)
  have sites: "sorted_wrt (\<lambda>r q. site (nref r) < site (nref q)) (sec_refs sec)"
    unfolding c(2) sorted_wrt_append
    using shifted_sorted [OF ok(1)] shifted_sorted [OF ok(2)] shifted_sorted [OF ok(3)]
      shifted_sites [OF ok(1), of _ 1] shifted_sites [OF ok(2), of _ "int n1"] shifted_sites [OF ok(3), of _ "int n2 + 1"]
    by (fastforce simp: n1_def n2_def)
  then have "sorted (map site (map ?f (sec_refs sec)))"
    by (simp add: comp_def sorted_wrt_map sorted_wrt_mono_rel [OF _ sites])
  moreover have rs: "rs = sort_key site (map ?f (sec_refs sec))"
    using c(5) by (auto simp: resolveRefs_def split: if_splits)
  ultimately have rs: "rs = map ?f (sec_refs sec)" by (simp add: sort_key_id_if_sorted)
  have "0 \<le> site (nref r) \<and> site (nref r) < int (length (sec_toks sec))" if "r \<in> set (sec_refs sec)" for r
    using that shifted_sites [OF ok(1), of r 1] shifted_sites [OF ok(2), of r "int n1"] shifted_sites [OF ok(3), of r "int n2 + 1"]
    unfolding c(1,2) by (auto simp: n1_def n2_def)
  moreover have "int (end_of (sec_toks sec)) \<le> targ (?f r)" if r: "r \<in> set (sec_refs sec)" for r
  proof -
    obtain i where i: "labels sec (targName r) = Some i" "0 \<le> i" by (rule at_label [OF r])
    from i have "int n2 + 1 \<le> i" by (auto simp: c(3) split: option.splits if_splits)
    moreover have "end_of (sec_toks sec) = n2 + 1"
      unfolding c(1) collected_end [OF L] by (simp add: n1_def n2_def)
    ultimately show ?thesis by (simp add: i)
  qed
  ultimately show "sorted_refs (sec_toks sec) rs"
    using sites by (simp add: sorted_refs_def rs sorted_wrt_map)
  show "\<forall>r \<in> set (sec_refs sec). \<exists>q \<in> set rs.
      site q = site (nref r) \<and> off q = off (nref r) \<and> labels sec (targName r) = Some (targ q)"
  proof
    fix r
    assume r: "r \<in> set (sec_refs sec)"
    obtain i where "labels sec (targName r) = Some i" "0 \<le> i" by (rule at_label [OF r])
    moreover have "?f r \<in> set rs" unfolding rs using r by simp
    ultimately show "\<exists>q \<in> set rs. site q = site (nref r) \<and> off q = off (nref r) \<and> labels sec (targName r) = Some (targ q)"
      by (intro bexI [of _ "?f r"]) auto
  qed
qed

subsection \<open>Properties\<close>

lemma scanned_laid_out:
  assumes "scanned fuel env vs = Done (Inr (sec, rs, base))"
  shows "\<exists>a. laid_out a \<and> finish a = Some (Inr (sec, rs, base))"
proof -
  obtain p a sc where a: "refOpt (grow_toks env) ''stackSize'' defaultStackSize True empty_assembler = Some (p, a)"
    and sc: "scan fuel env vs (new_scanner (a\<lparr>stackSizeOpt := Some p\<rparr>)) = Done (Inr sc)"
    and f: "finish (asm sc) = Some (Inr (sec, rs, base))"
    using assms unfolding scanned_def
    by (auto split: option.splits outcome.splits sum.splits)
  have "layout.holds (new_scanner (a\<lparr>stackSizeOpt := Some p\<rparr>))"
    using laid_out_new [OF a] by (simp add: layout.holds_def new_scanner_def)
  then have "laid_out (asm sc)" using layout.scan_keeps [OF sc] by (simp add: layout.holds_def)
  with f show ?thesis by blast
qed

text \<open>
  C3: \<open>Assemble\<close> links every program that it accepts.  Its output is the bytes of the tokens that were
  scanned, options first, and every reference by name, whatever the input was, has the argument that the code's own rule
  (\<open>ResolveRefArg\<close>) gives for its final address and the final address of its label, shifted by its offset.  For an
  operation that takes an offset that rule can miss the label (\<open>ref_offset_misses\<close>).
\<close>
theorem Assemble_links:
  assumes "Assemble fuel env vs = Done (Inr out)" "scanned fuel env vs = Done (Inr (sec, rs, base))"
    "maxBytes sec < 2 ^ 32"
  shows "\<exists>ts. relinked (sec_toks sec) rs ts \<and> out = concat (map token_bytes ts) \<and>
    (\<forall>r \<in> set (sec_refs sec). \<exists>q. site q = site (nref r) \<and> off q = off (nref r) \<and>
       labels sec (targName r) = Some (targ q) \<and> linked base ts q)"
proof -
  obtain a where "laid_out a" "finish a = Some (Inr (sec, rs, base))" using scanned_laid_out [OF assms(2)] by blast
  note f = finish_sections [OF this]
  have e: "encode fuel base (nat (maxBytes sec)) (sec_toks sec) rs = Done (Inr out)"
    using assms(1,2) by (auto simp: Assemble_def split: if_splits outcome.splits sum.splits)
  obtain enc where "encodeOptions (start_encoder base (nat (maxBytes sec)) (sec_toks sec) rs) = Some (Inr enc)"
    "enc_loop fuel enc = Done (Inr out)"
    using e by (auto simp: encode_def split: option.splits sum.splits)
  moreover have "nat (maxBytes sec) < 2 ^ 32" using assms(3) by simp
  ultimately obtain ts where "relinked (sec_toks sec) rs ts" "out = concat (map token_bytes ts)"
    "\<forall>r \<in> set rs. linked base ts r"
    using enc_loop_linking [OF start_linking f(1)] by metis
  then show ?thesis using f(2) by metis
qed

text \<open>A policy of growth that is Go's for small arrays, and a package without a \<open>subProg\<close> to include.\<close>

definition doubling :: env where
  "doubling = \<lparr>grow_toks = (\<lambda>n. if n = 0 then 1 else 2 * n), grow_strs = (\<lambda>n. if n = 0 then 1 else 2 * n), subProg = []\<rparr>"

definition calling :: "val list" where
  "calling = [VStr ''.entry'', VStr ''main:'', VStr '':f'', VStr ''call'', VStr ''halt'', VStr ''f:'', VStr ''ret'']"

theorem Assemble_links_witness:
  "\<exists>sec rs base ts. scanned 20 doubling calling = Done (Inr (sec, rs, base)) \<and> relinked (sec_toks sec) rs ts \<and>
    [0x7f, 0x83, 0x09, 0x40, 0x04] @ bytes_of ''main'' @ [0x43, 0x01] @ bytes_of ''f'' @ [0x43, 0x06] @
      bytes_of ''.ret.f'' @ [0xc0, 0x01, 0xc0, 0x05, 0xc3, 0x0a, 0xc3, 0x0b, 0x00, 0xc3, 0x33, 0x7f, 0x34] =
    concat (map token_bytes ts)"
proof -
  have "(case scanned 20 doubling calling of Done (Inr (sec, rs, base)) \<Rightarrow> maxBytes sec < 2 ^ 32 | _ \<Rightarrow> False)"
    by code_simp
  then obtain sec rs base where s: "scanned 20 doubling calling = Done (Inr (sec, rs, base))" "maxBytes sec < 2 ^ 32"
    by (auto split: outcome.splits sum.splits)
  have "Assemble 20 doubling calling = Done (Inr ([0x7f, 0x83, 0x09, 0x40, 0x04] @ bytes_of ''main'' @ [0x43, 0x01] @
      bytes_of ''f'' @ [0x43, 0x06] @ bytes_of ''.ret.f'' @
      [0xc0, 0x01, 0xc0, 0x05, 0xc3, 0x0a, 0xc3, 0x0b, 0x00, 0xc3, 0x33, 0x7f, 0x34]))"
    by code_simp
  from Assemble_links [OF this s] s(1) show ?thesis by blast
qed

text \<open>
  A stack size that is set late gets lost.  The pointer to the option goes to an array that another
  option has replaced by then, so the header keeps the default 0x40 while all references are linked as if
  the program were loaded at 0x80: the entry lies behind the five bytes of the program at 0x40.  The same
  values in another order give the header and the references for 0x80.
\<close>
theorem late_stackSize:
  "Assemble 30 doubling
     [VStr ''.entry'', VStr ''main:'', VStr ''.stackSize'', VInt 0x80, VStr ''nop'', VStr '':main'', VStr ''call'', VStr ''halt''] =
   Done (Inr ([0x7f, 0x81, 0x09, 0x80, 0x01, 0x04] @ bytes_of ''main'' @ [0xc0, 0x01, 0x81, 0x80, 0x05, 0x81, 0x80, 0x0a, 0x00,
     0x01, 0x81, 0x80, 0x33, 0x7f])) \<and>
   Assemble 30 doubling
     [VStr ''.stackSize'', VInt 0x80, VStr ''.entry'', VStr ''main:'', VStr ''nop'', VStr '':main'', VStr ''call'', VStr ''halt''] =
   Done (Inr ([0x7f, 0x81, 0x09, 0x80, 0x01, 0x04] @ bytes_of ''main'' @ [0x81, 0x80, 0x01, 0x81, 0x80, 0x05, 0x81, 0x80, 0x0a, 0x00,
     0x01, 0x81, 0x80, 0x33, 0x7f]))"
  by code_simp

end
