(* ===== verification/Deploy.thy ===== *)
theory Deploy
  imports Assembling
begin

text \<open>
  From the assembler to the machine: \<open>New\<close> of \<open>api.go\<close> on what \<open>Assemble\<close> of \<open>x/assemble.go\<close> returns.

  The header that the scanner collects is one that the option parser accepts, whatever was assembled:
  \<open>headed\<close> is an invariant of the assembler, the second interpretation of \<open>asm_invariant\<close>.  The parser then
  does what the tokens of the header say (\<open>meaning\<close>), and leaves the bytes of the program.
\<close>

subsection \<open>Headers\<close>

definition arg_opt :: "opt \<Rightarrow> token \<Rightarrow> bool" where
  "arg_opt x t \<longleftrightarrow> kind t = optTK \<and> Code (tok_op t) = opt_code x \<and> Have (tok_op t)"

definition plain_opts :: "opt set" where
  "plain_opts = {OptQueueSize, OptMaxOps, OptMaxCopies, OptEntry, OptSpanOpen, OptSpanClose}"

text \<open>A region is three options: where it starts, where it ends and where its name is.\<close>

inductive opt_groups :: "token list \<Rightarrow> bool" where
  no_opts: "opt_groups []"
| plain_opt: "x \<in> plain_opts \<Longrightarrow> arg_opt x t \<Longrightarrow> opt_groups ts \<Longrightarrow> opt_groups (t # ts)"
| region_opt: "x \<in> {OptInput, OptOutput} \<Longrightarrow> arg_opt x t \<Longrightarrow> arg_opt x u \<Longrightarrow> arg_opt OptName v \<Longrightarrow>
    opt_groups ts \<Longrightarrow> opt_groups (t # u # v # ts)"

lemma opt_groups_append: "opt_groups ts \<Longrightarrow> opt_groups us \<Longrightarrow> opt_groups (ts @ us)"
  by (induction rule: opt_groups.induct) (auto intro: opt_groups.intros)

lemma arg_opt_shape: "same_shape t t' \<Longrightarrow> arg_opt x t \<Longrightarrow> arg_opt x t'"
  by (simp add: same_shape_fields arg_opt_def)

lemma opt_groups_shape: "opt_groups ts \<Longrightarrow> list_all2 same_shape ts ts' \<Longrightarrow> opt_groups ts'"
proof (induction arbitrary: ts' rule: opt_groups.induct)
  case (plain_opt x t ts)
  then show ?case by (auto simp: list_all2_Cons1 intro: opt_groups.plain_opt arg_opt_shape)
next
  case (region_opt x t u v ts)
  then show ?case by (fastforce simp: list_all2_Cons1 intro: opt_groups.region_opt arg_opt_shape)
qed (simp add: no_opts)

lemma arg_opt_optToken: "arg_opt x ((optToken (opt_name x) v True)\<lparr>str := s\<rparr>)" "arg_opt x (optToken (opt_name x) v True)"
  by (simp_all add: arg_opt_def optToken_def ResolveOption_eq)

lemma optToken_opts:
  "arg_opt OptEntry ((optToken ''entry'' v True)\<lparr>str := s\<rparr>)" "arg_opt OptSpanOpen ((optToken ''spanOpen'' v True)\<lparr>str := s\<rparr>)"
  "arg_opt OptSpanClose ((optToken ''spanClose'' v True)\<lparr>str := s\<rparr>)" "arg_opt OptInput ((optToken ''input'' v True)\<lparr>str := s\<rparr>)"
  "arg_opt OptOutput ((optToken ''output'' v True)\<lparr>str := s\<rparr>)" "arg_opt OptName ((optToken ''name'' v True)\<lparr>str := s\<rparr>)"
  "arg_opt OptStackSize (optToken ''stackSize'' v True)" "arg_opt OptQueueSize (optToken ''queueSize'' v True)"
  "arg_opt OptMaxOps (optToken ''maxOps'' v True)" "arg_opt OptMaxCopies (optToken ''maxCopies'' v True)"
  "arg_opt OptAddrLabels (optToken ''addrLabels'' v True)"
  by (simp_all add: arg_opt_def optToken_def ResolveOption_def all_opts_def)

text \<open>The address labels: an option with their number, then as many of them.\<close>

definition adl_ok :: "token list \<Rightarrow> bool" where
  "adl_ok ts \<longleftrightarrow> (case ts of [] \<Rightarrow> True
     | t # us \<Rightarrow> arg_opt OptAddrLabels t \<and> Arg (tok_op t) = of_nat (length us) \<and> (\<forall>u \<in> set us. kind u = addrLabelTK))"

definition opts_ok :: "token list \<Rightarrow> bool" where
  "opts_ok ts \<longleftrightarrow> (case ts of [] \<Rightarrow> False
     | t # us \<Rightarrow> arg_opt OptStackSize t \<and> Arg (tok_op t) \<le> 0xffff \<and> opt_groups us)"

definition later_sites :: "sect \<Rightarrow> bool" where
  "later_sites sec \<longleftrightarrow> list_all (\<lambda>r. 1 \<le> site (nref r)) (sec_refs sec)"

definition later_elem :: "tok_ptr option \<Rightarrow> bool" where
  "later_elem p \<longleftrightarrow> (\<forall>i. p = Some (Elem i) \<longrightarrow> 0 < i)"

text \<open>The assembler's part of the invariant that does not depend on the groups of the options.\<close>

definition steady :: "assembler \<Rightarrow> bool" where
  "steady a \<longleftrightarrow> adl_ok (sec_toks (adls a)) \<and> sec_toks (opts a) \<noteq> [] \<and> later_sites (adls a) \<and> later_sites (opts a) \<and>
     later_elem (queueSizeOpt a) \<and> later_elem (maxOpsOpt a) \<and> later_elem (maxCopiesOpt a)"

definition headed :: "assembler \<Rightarrow> bool" where
  "headed a \<longleftrightarrow> steady a \<and> opts_ok (sec_toks (opts a))"

lemma same_shape_update: "list_all2 same_shape ts (ts[i := with_arg v (ts ! i)])"
proof (rule list_all2_all_nthI)
  fix j assume "j < length ts"
  moreover have "same_shape t (with_arg v t)" for t by (simp add: same_shape_fields with_arg_def)
  ultimately show "same_shape (ts ! j) (ts[i := with_arg v (ts ! i)] ! j)" by (cases "i = j") simp_all
qed simp

lemma opts_ok_assign:
  assumes "opts_ok ts" "v \<le> 0xffff \<or> 0 < i"
  shows "opts_ok (ts[i := with_arg v (ts ! i)])"
proof (cases ts)
  case Nil
  then show ?thesis using assms(1) by (simp add: opts_ok_def)
next
  case (Cons t us)
  then have t: "arg_opt OptStackSize t" "Arg (tok_op t) \<le> 0xffff" "opt_groups us" using assms(1) by (simp_all add: opts_ok_def)
  show ?thesis
  proof (cases i)
    case 0
    then show ?thesis using t assms(2) Cons by (simp add: opts_ok_def arg_opt_def with_arg_def)
  next
    case (Suc k)
    then show ?thesis using t(1,2) opt_groups_shape [OF t(3) same_shape_update] Cons by (simp add: opts_ok_def)
  qed
qed

lemma opts_ok_append: "opts_ok ts \<Longrightarrow> opt_groups us \<Longrightarrow> opts_ok (ts @ us)"
  by (cases ts) (auto simp: opts_ok_def intro: opt_groups_append)

lemma later_sites_simps:
  "later_sites (sec\<lparr>sec_toks := ts\<rparr>) = later_sites sec" "later_sites (sec\<lparr>sec_toks := ts, maxBytes := k\<rparr>) = later_sites sec"
  "later_sites (sec_renameLabel old new sec) = later_sites sec"
  by (auto simp: later_sites_def sec_renameLabel_def Let_def list.pred_map comp_def intro!: list.pred_cong split: option.split)

lemma later_sites_addRef: "later_sites sec \<Longrightarrow> sec_toks sec \<noteq> [] \<Longrightarrow> later_sites (sec_addRef tok name k sec)"
  by (cases "sec_toks sec") (auto simp: later_sites_def sec_addRef_def)

lemma later_elem_moved [simp]: "later_elem (moved sec p)"
  by (cases p) (simp_all add: later_elem_def moved_def)

lemma steady_make_room: "steady (make_room g a) = steady a" if "steady a"
  using that by (simp add: steady_def make_room_def)

lemma addRefOpt_toks:
  "sec_toks (opts (addRefOpt g name target k a)) = sec_toks (opts a) @ [(optToken name 0 True)\<lparr>str := target\<rparr>]"
  by (simp add: addRefOpt_def Let_def sec_addRef_def)

lemma steady_addRefOpt: "steady a \<Longrightarrow> steady (addRefOpt g name target k a)"
  using steady_make_room [of a g] later_sites_addRef [of "opts a"]
  by (auto simp: steady_def addRefOpt_def Let_def) (auto simp: sec_addRef_def)

lemma headed_addRefOpt:
  assumes "headed a" "arg_opt x ((optToken name 0 True)\<lparr>str := target\<rparr>)" "x \<in> plain_opts"
  shows "headed (addRefOpt g name target k a)"
  using assms unfolding headed_def addRefOpt_toks
  by (blast intro: steady_addRefOpt opts_ok_append opt_groups.intros)

lemma headed_region:
  assumes "headed a" "name \<in> {''input'', ''output''}"
  shows "headed (addRefOpt g ''name'' t3 0 (addRefOpt g name t2 0 (addRefOpt g name t1 0 a)))"
proof -
  obtain x where "x \<in> {OptInput, OptOutput}" "\<And>t. arg_opt x ((optToken name 0 True)\<lparr>str := t\<rparr>)"
    using assms(2) optToken_opts(4,5) by blast
  then have "opt_groups [(optToken name 0 True)\<lparr>str := t1\<rparr>, (optToken name 0 True)\<lparr>str := t2\<rparr>, (optToken ''name'' 0 True)\<lparr>str := t3\<rparr>]"
    by (intro opt_groups.region_opt optToken_opts(6) opt_groups.no_opts)
  from opts_ok_append [OF _ this] assms(1) show ?thesis
    unfolding headed_def by (simp add: addRefOpt_toks steady_addRefOpt)
qed

lemma addOpt_toks:
  "addOpt g name v h a = Some a' \<Longrightarrow> sec_toks (opts a') = sec_toks (opts a) @ [optToken name v h]"
  by (auto simp: addOpt_def Let_def sec_add_def)

lemma steady_addOpt: "addOpt g name v h a = Some a' \<Longrightarrow> steady a \<Longrightarrow> steady a'"
  using steady_make_room [of a g]
  by (auto simp: addOpt_def Let_def sec_add_def steady_def later_sites_def)

lemma headed_setOption:
  assumes a: "headed a" "setOption g field set_field name v a = Some a'"
    and x: "arg_opt x (optToken name v True)" "x \<in> plain_opts"
    and f: "\<And>b. steady b \<Longrightarrow> later_elem (field b)" "\<And>p b. opts (set_field p b) = opts b"
      "\<And>p b. steady b \<Longrightarrow> later_elem p \<Longrightarrow> steady (set_field p b)"
  shows "headed a'"
proof -
  have s: "steady a" "opts_ok (sec_toks (opts a))" using a(1) by (simp_all add: headed_def)
  show ?thesis
  proof (cases "field a")
    case None
    then obtain b where b: "addOpt g name v True a = Some b" and a': "a' = set_field (Some (Elem (length (sec_toks (opts a))))) b"
      using a(2) by (auto simp: setOption_def refOpt_def)
    have "later_elem (Some (Elem (length (sec_toks (opts a)))))" using s(1) by (simp add: steady_def later_elem_def)
    then have "steady a'" unfolding a' by (intro f(3) steady_addOpt [OF b s(1)])
    moreover have "opts_ok (sec_toks (opts a'))"
      unfolding a' f(2) addOpt_toks [OF b] using s(2) x by (intro opts_ok_append opt_groups.intros)
    ultimately show ?thesis by (simp add: headed_def)
  next
    case (Some p)
    then obtain p' sec where p: "assign_arg v p (opts a) = (p', sec)" and a': "a' = set_field (Some p') (a\<lparr>opts := sec\<rparr>)"
      using a(2) by (auto simp: setOption_def split: prod.splits)
    have l: "later_elem (Some p)" using f(1) [OF s(1)] Some by simp
    then have l': "later_elem (Some p')" using p by (auto simp: assign_arg_def later_elem_def split: tok_ptr.splits)
    have "opts_ok (sec_toks sec) \<and> later_sites sec"
      using p s l by (cases p) (auto simp: assign_arg_def later_elem_def steady_def later_sites_simps intro: opts_ok_assign)
    moreover from this have "steady (a\<lparr>opts := sec\<rparr>)" using s(1) by (auto simp: steady_def opts_ok_def)
    ultimately show ?thesis unfolding a' by (simp add: headed_def f(2) f(3) l')
  qed
qed

lemma headed_addrLabel:
  assumes "headed a" "addAddrLabel name a = Some a'"
  shows "headed a'"
proof -
  obtain sec where sec: "(case sec_toks (adls a) of
          [] \<Rightarrow> sec_add (optToken ''addrLabels'' 1 True) (adls a)
        | t # ts \<Rightarrow> Some ((adls a)\<lparr>sec_toks := with_arg (Arg (tok_op t) + 1) t # ts\<rparr>)) = Some sec"
    and a': "a' = a\<lparr>adls := sec_addRef (addrLabelToken name) name 0 sec\<rparr>"
    using assms(2) by (auto simp: addAddrLabel_def)
  have s: "adl_ok (sec_toks (adls a))" "later_sites (adls a)" using assms(1) by (simp_all add: headed_def steady_def)
  have "sec_toks sec \<noteq> [] \<and> later_sites sec \<and> adl_ok (sec_toks sec @ [addrLabelToken name])"
  proof (cases "sec_toks (adls a)")
    case Nil
    then show ?thesis using sec s(2) optToken_opts(11) [of 1]
      by (auto simp: sec_add_def later_sites_def adl_ok_def addrLabelToken_def) (simp add: optToken_def ResolveOption_def all_opts_def)
  next
    case (Cons t ts)
    then have "sec = (adls a)\<lparr>sec_toks := with_arg (Arg (tok_op t) + 1) t # ts\<rparr>" using sec by simp
    then show ?thesis using s Cons by (auto simp: later_sites_simps adl_ok_def addrLabelToken_def with_arg_def arg_opt_def)
  qed
  then show ?thesis using assms(1) later_sites_addRef [of sec]
    by (auto simp: a' headed_def steady_def) (auto simp: sec_addRef_def)
qed

lemma rename_adl_kinds:
  "rename_adl old new ts = Some (ts', d) \<Longrightarrow>
    list_all2 (\<lambda>t t'. kind t' = kind t \<and> tok_op t' = tok_op t) ts ts'"
  by (induction ts arbitrary: ts' d) (auto split: if_splits option.splits simp: list.rel_refl)

lemma adl_ok_kinds:
  assumes "adl_ok ts" "list_all2 (\<lambda>t t'. kind t' = kind t \<and> tok_op t' = tok_op t) ts ts'"
  shows "adl_ok ts'"
proof (cases ts)
  case (Cons t us)
  then obtain t' us' where t: "ts' = t' # us'" "kind t' = kind t" "tok_op t' = tok_op t"
    and us: "list_all2 (\<lambda>t t'. kind t' = kind t \<and> tok_op t' = tok_op t) us us'"
    using assms(2) by (auto simp: list_all2_Cons1)
  have "kind u = addrLabelTK" if u: "u \<in> set us'" for u
  proof -
    obtain i where i: "i < length us'" "u = us' ! i" using u by (auto simp: in_set_conv_nth)
    moreover have "i < length us" using i(1) list_all2_lengthD [OF us] by simp
    moreover from this have "kind (us ! i) = addrLabelTK" using assms(1) Cons by (simp add: adl_ok_def)
    ultimately show ?thesis using list_all2_nthD [OF us] by metis
  qed
  then show ?thesis using assms(1) Cons t list_all2_lengthD [OF us] by (simp add: adl_ok_def arg_opt_def)
qed (use assms in simp)

lemma headed_rename:
  assumes "headed a" "renameLabel old new a = Some (n, a')"
  shows "headed a'"
proof -
  let ?r = "sec_renameLabel old n"
  obtain ts d where ts: "rename_adl old n (sec_toks (?r (adls a))) = Some (ts, d)"
    and a': "a' = a\<lparr>adls := (?r (adls a))\<lparr>sec_toks := ts, maxBytes := maxBytes (?r (adls a)) + d\<rparr>,
      opts := ?r (opts a), prog := ?r (prog a)\<rparr>"
    using assms(2) by (auto simp: renameLabel_def Let_def bind_eq_Some_conv)
  have t: "sec_toks (?r sec) = sec_toks sec" for sec by (simp add: sec_renameLabel_def Let_def split: option.split)
  have "adl_ok ts"
    using adl_ok_kinds [OF _ rename_adl_kinds [OF ts]] assms(1) by (simp add: t headed_def steady_def)
  then show ?thesis using assms(1) by (simp add: a' headed_def steady_def t later_sites_simps)
qed

interpretation header: asm_invariant headed env for env
proof
  fix a :: assembler and name target
  assume "headed a" "name \<in> {''entry'', ''spanOpen'', ''spanClose''}"
  then show "headed (addRefOpt (grow_toks env) name target 0 a)"
    by (auto intro: headed_addRefOpt optToken_opts(1-3) simp: plain_opts_def)
next
  fix a :: assembler and name t1 t2 t3
  assume "headed a" "name \<in> {''input'', ''output''}"
  then show "headed (addRefOpt (grow_toks env) ''name'' t3 0 (addRefOpt (grow_toks env) name t2 0
      (addRefOpt (grow_toks env) name t1 0 a)))"
    by (rule headed_region)
next
  fix a v a'
  assume "headed a" "setOption (grow_toks env) queueSizeOpt (\<lambda>p a. a\<lparr>queueSizeOpt := p\<rparr>) ''queueSize'' v a = Some a'"
  then show "headed a'"
    by (rule headed_setOption [OF _ _ optToken_opts(8)]) (simp_all add: plain_opts_def steady_def)
next
  fix a v a'
  assume "headed a" "setOption (grow_toks env) maxOpsOpt (\<lambda>p a. a\<lparr>maxOpsOpt := p\<rparr>) ''maxOps'' v a = Some a'"
  then show "headed a'"
    by (rule headed_setOption [OF _ _ optToken_opts(9)]) (simp_all add: plain_opts_def steady_def)
next
  fix a v a'
  assume "headed a" "setOption (grow_toks env) maxCopiesOpt (\<lambda>p a. a\<lparr>maxCopiesOpt := p\<rparr>) ''maxCopies'' v a = Some a'"
  then show "headed a'"
    by (rule headed_setOption [OF _ _ optToken_opts(10)]) (simp_all add: plain_opts_def steady_def)
next
  fix a p v p' sec
  assume h: "headed a" "(v :: u32) \<le> 0xffff" "assign_arg v p (opts a) = (p', sec)"
  then have "opts_ok (sec_toks sec) \<and> later_sites sec"
    by (cases p) (auto simp: assign_arg_def headed_def steady_def later_sites_simps intro: opts_ok_assign)
  then show "headed (a\<lparr>stackSizeOpt := Some p', opts := sec\<rparr>)"
    using h(1) by (auto simp: headed_def steady_def opts_ok_def)
qed (erule (1) headed_addrLabel headed_rename | simp add: headed_def steady_def)+

subsection \<open>Parsing options\<close>

lemma arg_opt_bytes:
  assumes "arg_opt x t"
  shows "token_bytes t = op_bytes (opt_arg x (Arg (tok_op t)))"
proof -
  have "tok_op t = opt_arg x (Arg (tok_op t))"
    using assms by (simp add: arg_opt_def opt_arg_def ResolveOption_eq)
  moreover have "token_bytes t = op_bytes (tok_op t)" using assms by (simp add: arg_opt_def token_bytes_def)
  ultimately show ?thesis by simp
qed

definition opt_meaning :: "opt \<Rightarrow> u32 \<Rightarrow> machBuilder \<Rightarrow> machBuilder" where
  "opt_meaning x a mb = (case x of
     OptQueueSize \<Rightarrow> mb\<lparr>queueSize := unat a\<rparr>
   | OptMaxOps \<Rightarrow> set_mach (\<lambda>s. s\<lparr>limit := ucast a\<rparr>) mb
   | OptMaxCopies \<Rightarrow> mb\<lparr>maxCopies := unat a\<rparr>
   | OptEntry \<Rightarrow> set_mach (\<lambda>s. s\<lparr>ip := a\<rparr>) mb
   | OptSpanOpen \<Rightarrow> mb\<lparr>dbg := annotate a annoSpanOpen (dbg mb)\<rparr>
   | OptSpanClose \<Rightarrow> mb\<lparr>dbg := annotate a annoSpanClose (dbg mb)\<rparr>
   | _ \<Rightarrow> mb)"

lemma handleOpt_plain:
  assumes "x \<in> plain_opts"
  shows "handleOpt (opt_code x OR 0x80) a mb = (Inr False, opt_meaning x a mb)"
  using assms handleOpt_sel(2) [of x] unfolding handleOpt_def handleOpt_sel(1) plain_opts_def
  by (elim insertE) (simp_all add: opt_meaning_def)

lemma plain_step:
  assumes "x \<in> plain_opts" "arg_opt x t" "drop (pos mb) (buf mb) = token_bytes t @ rest"
  obtains mb1 where "handleOpts mb = handleOpts (opt_meaning x (Arg (tok_op t)) mb1)"
    "mb1 = mb\<lparr>pos := pos mb + length (token_bytes t)\<rparr>" "drop (pos mb1) (buf mb1) = rest"
proof -
  let ?mb = "mb\<lparr>pos := pos mb + length (op_bytes (opt_arg x (Arg (tok_op t))))\<rparr>"
  have d: "drop (pos mb) (buf mb) = op_bytes (opt_arg x (Arg (tok_op t))) @ rest"
    using assms(3) arg_opt_bytes [OF assms(2)] by simp
  note h = handleOpts_arg [OF d refl handleOpt_plain [OF assms(1)]]
  show thesis
  proof (rule that [of ?mb])
    show "handleOpts mb = handleOpts (opt_meaning x (Arg (tok_op t)) ?mb)" using h(1) by simp
    show "?mb = mb\<lparr>pos := pos mb + length (token_bytes t)\<rparr>" by (simp only: arg_opt_bytes [OF assms(2)])
    show "drop (pos ?mb) (buf ?mb) = rest" by (rule h(2))
  qed
qed

definition region_of :: "token \<Rightarrow> token \<Rightarrow> token \<Rightarrow> region" where
  "region_of t u v = \<lparr>rg_name = Arg (tok_op v), rg_from = Arg (tok_op t), rg_to = Arg (tok_op u)\<rparr>"

lemma read_arg_opt:
  assumes "arg_opt x t" "drop (pos mb) (buf mb) = token_bytes t @ rest"
  shows "readOptCode mb = (Inr (0x80 OR opt_code x, Arg (tok_op t)), mb\<lparr>pos := pos mb + length (token_bytes t)\<rparr>)"
    and "mayReadOptCode (0x80 OR opt_code x) mb = (Inr (Some (Arg (tok_op t))), mb\<lparr>pos := pos mb + length (token_bytes t)\<rparr>)"
proof -
  let ?op = "opt_arg x (Arg (tok_op t))"
  have d: "drop (pos mb) (buf mb) = op_bytes ?op @ rest" using assms arg_opt_bytes [OF assms(1)] by simp
  have c: "op_byte ?op = 0x80 OR opt_code x" "hasImm (0x80 OR opt_code x)" "Arg ?op = Arg (tok_op t)"
    using opt_bytes(1,2) [of x "Arg (tok_op t)"] opt_bytes(4) [of x] by (simp_all only: or.commute)
  show "readOptCode mb = (Inr (0x80 OR opt_code x, Arg (tok_op t)), mb\<lparr>pos := pos mb + length (token_bytes t)\<rparr>)"
    using readOptCode_op [OF d] by (simp only: c if_True arg_opt_bytes [OF assms(1)])
  show "mayReadOptCode (0x80 OR opt_code x) mb = (Inr (Some (Arg (tok_op t))), mb\<lparr>pos := pos mb + length (token_bytes t)\<rparr>)"
    using read_op_bytes [of ?op rest] by (simp add: mayReadOptCode_def d c arg_opt_bytes [OF assms(1)] Let_def)
qed

lemma read_region:
  assumes "arg_opt x u" "arg_opt OptName v" "drop (pos mb) (buf mb) = token_bytes u @ token_bytes v @ rest"
  shows "readRegion (0x80 OR opt_code x) unpaired (Arg (tok_op t)) mb =
      (Inr (region_of t u v), mb\<lparr>pos := pos mb + length (token_bytes u) + length (token_bytes v)\<rparr>)"
    and "drop (pos mb + length (token_bytes u) + length (token_bytes v)) (buf mb) = rest"
proof -
  let ?m = "mb\<lparr>pos := pos mb + length (token_bytes u)\<rparr>"
  have d: "drop (pos ?m) (buf ?m) = token_bytes v @ rest" using drop_past [OF assms(3)] by simp
  note n = read_arg_opt(2) [OF assms(2) d]
  show "readRegion (0x80 OR opt_code x) unpaired (Arg (tok_op t)) mb =
      (Inr (region_of t u v), mb\<lparr>pos := pos mb + length (token_bytes u) + length (token_bytes v)\<rparr>)"
    by (simp add: readRegion_def read_arg_opt(1) [OF assms(1,3)] n region_of_def del: opt_code.simps)
  show "drop (pos mb + length (token_bytes u) + length (token_bytes v)) (buf mb) = rest"
    using drop_past [OF d] by simp
qed

definition add_region :: "opt \<Rightarrow> region \<Rightarrow> machBuilder \<Rightarrow> machBuilder" where
  "add_region x rg mb =
     (if x = OptInput then mb\<lparr>inputs := inputs mb @ [rg]\<rparr> else set_mach (\<lambda>s. s\<lparr>outs := outs s @ [rg]\<rparr>) mb)"

lemma handleOpt_regions:
  "handleOpt (opt_code OptInput OR 0x80) a mb =
     (case readRegion (0x80 OR opt_code OptInput) UnpairedInput a mb of
        (Inl e, mb) \<Rightarrow> (Inl e, mb) | (Inr rg, mb) \<Rightarrow> (Inr False, mb\<lparr>inputs := inputs mb @ [rg]\<rparr>))"
  "handleOpt (opt_code OptOutput OR 0x80) a mb =
     (case readRegion (0x80 OR opt_code OptOutput) UnpairedOutput a mb of
        (Inl e, mb) \<Rightarrow> (Inl e, mb) | (Inr rg, mb) \<Rightarrow> (Inr False, set_mach (\<lambda>s. s\<lparr>outs := outs s @ [rg]\<rparr>) mb))"
  using handleOpt_sel(2) [of OptInput] handleOpt_sel(2) [of OptOutput]
  unfolding handleOpt_def handleOpt_sel(1) by (simp_all del: opt_code.simps)

lemma region_step:
  assumes x: "x \<in> {OptInput, OptOutput}" and t: "arg_opt x t" "arg_opt x u" "arg_opt OptName v"
    and d: "drop (pos mb) (buf mb) = token_bytes t @ token_bytes u @ token_bytes v @ rest"
  obtains mb1 where "handleOpts mb = handleOpts (add_region x (region_of t u v) mb1)"
    "mb1 = mb\<lparr>pos := pos mb + length (token_bytes t @ token_bytes u @ token_bytes v)\<rparr>" "drop (pos mb1) (buf mb1) = rest"
proof -
  let ?op = "opt_arg x (Arg (tok_op t))"
  let ?m = "mb\<lparr>pos := pos mb + length (op_bytes ?op)\<rparr>"
  let ?mb = "mb\<lparr>pos := pos mb + length (token_bytes t @ token_bytes u @ token_bytes v)\<rparr>"
  have d1: "drop (pos mb) (buf mb) = op_bytes ?op @ token_bytes u @ token_bytes v @ rest"
    using d arg_opt_bytes [OF t(1)] by simp
  have dm: "drop (pos ?m) (buf ?m) = token_bytes u @ token_bytes v @ rest" using drop_past [OF d1] by simp
  have pos: "?m\<lparr>pos := pos ?m + length (token_bytes u) + length (token_bytes v)\<rparr> = ?mb"
    by (simp add: arg_opt_bytes [OF t(1)])
  have r: "readRegion (0x80 OR opt_code x) un (Arg (tok_op t)) ?m = (Inr (region_of t u v), ?mb)" for un
    unfolding read_region(1) [OF t(2,3) dm] pos ..
  have "handleOpt (opt_code x OR 0x80) (Arg (tok_op t)) ?m = (Inr False, add_region x (region_of t u v) ?mb)"
    using x
  proof (elim insertE)
    assume "x = OptInput"
    then show ?thesis using r [of UnpairedInput] by (simp only: handleOpt_regions add_region_def prod.case sum.case if_True simp_thms)
  next
    assume "x = OptOutput"
    then show ?thesis using r [of UnpairedOutput]
      by (simp only: handleOpt_regions add_region_def prod.case sum.case if_False opt.distinct)
  qed simp
  from handleOpts_arg(1) [OF d1 refl this] have "handleOpts mb = handleOpts (add_region x (region_of t u v) ?mb)" by simp
  moreover have "drop (pos ?mb) (buf ?mb) = rest" using read_region(2) [OF t(2,3) dm] arg_opt_bytes [OF t(1)] by (simp add: add.assoc)
  ultimately show thesis using that by blast
qed

text \<open>What the options of a header come to: the last argument of each, and the regions in their order.\<close>

definition option_args :: "opt \<Rightarrow> token list \<Rightarrow> u32 list" where
  "option_args x ts = map (\<lambda>t. Arg (tok_op t)) (filter (arg_opt x) ts)"

fun regions :: "opt \<Rightarrow> token list \<Rightarrow> region list" where
  "regions x (t # u # v # ts) = (if arg_opt x t then region_of t u v # regions x ts else regions x (u # v # ts))"
| "regions x ts = []"

definition applied :: "token list \<Rightarrow> machBuilder \<Rightarrow> machBuilder \<Rightarrow> bool" where
  "applied ts mb mb' \<longleftrightarrow>
     mb_base mb' = mb_base mb \<and> cbp (mb_mach mb') = cbp (mb_mach mb) \<and> nextIn mb' = nextIn mb \<and>
     ip (mb_mach mb') = last (ip (mb_mach mb) # option_args OptEntry ts) \<and>
     limit (mb_mach mb') = last (limit (mb_mach mb) # map ucast (option_args OptMaxOps ts)) \<and>
     queueSize mb' = last (queueSize mb # map unat (option_args OptQueueSize ts)) \<and>
     maxCopies mb' = last (maxCopies mb # map unat (option_args OptMaxCopies ts)) \<and>
     inputs mb' = inputs mb @ regions OptInput ts \<and>
     outs (mb_mach mb') = outs (mb_mach mb) @ regions OptOutput ts \<and>
     Build.labels (dbg mb') = Build.labels (dbg mb)"

lemma arg_opt_unique: "arg_opt x t \<Longrightarrow> arg_opt y t \<longleftrightarrow> y = x"
  unfolding arg_opt_def by (metis opt_of_code option.inject)

lemma option_args_simps [simp]:
  "option_args x [] = []" "arg_opt x t \<Longrightarrow> option_args x (t # ts) = Arg (tok_op t) # option_args x ts"
  "\<not> arg_opt x t \<Longrightarrow> option_args x (t # ts) = option_args x ts"
  "option_args x (ts @ us) = option_args x ts @ option_args x us"
  by (simp_all add: option_args_def)

lemma regions_skip: "\<not> arg_opt x t \<Longrightarrow> regions x (t # ts) = regions x ts"
  by (cases ts; cases "tl ts") auto

lemma applied_plain:
  assumes "x \<in> plain_opts" "arg_opt x t" "applied ts (opt_meaning x (Arg (tok_op t)) mb1) mb'" "mb1 = mb\<lparr>pos := p\<rparr>"
  shows "applied (t # ts) mb mb'"
proof -
  have "\<not> arg_opt OptInput t" "\<not> arg_opt OptOutput t"
    using assms(1) arg_opt_unique [OF assms(2)] by (auto simp: plain_opts_def)
  then have r: "regions OptInput (t # ts) = regions OptInput ts" "regions OptOutput (t # ts) = regions OptOutput ts"
    by (simp_all add: regions_skip)
  have o: "option_args y (t # ts) = (if y = x then [Arg (tok_op t)] else []) @ option_args y ts" for y
    using arg_opt_unique [OF assms(2)] assms(2) by (cases "y = x") simp_all
  show ?thesis
    using assms(1,3) unfolding applied_def r o assms(4) plain_opts_def
    by (elim insertE) (simp_all add: opt_meaning_def set_mach_def annotate_def)
qed

lemma applied_region:
  assumes "x \<in> {OptInput, OptOutput}" "arg_opt x t" "arg_opt x u" "arg_opt OptName v"
    "applied ts (add_region x (region_of t u v) mb1) mb'" "mb1 = mb\<lparr>pos := p\<rparr>"
  shows "applied (t # u # v # ts) mb mb'"
proof -
  have n: "\<not> arg_opt y t \<and> \<not> arg_opt y u \<and> \<not> arg_opt y v" if "y \<notin> {x, OptName}" for y
    using that arg_opt_unique [OF assms(2)] arg_opt_unique [OF assms(3)] arg_opt_unique [OF assms(4)] by simp
  have o: "option_args y (t # u # v # ts) = option_args y ts" if "y \<notin> {OptInput, OptOutput, OptName}" for y
    using n [of y] that assms(1) by auto
  have s: "regions y (t # u # v # ts) = regions y ts" if "y \<notin> {x, OptName}" for y
    using n [OF that] by (simp add: regions_skip)
  have r: "regions x (t # u # v # ts) = region_of t u v # regions x ts" using assms(2) by simp
  have "regions OptInput (t # u # v # ts) = (if x = OptInput then [region_of t u v] else []) @ regions OptInput ts"
    "regions OptOutput (t # u # v # ts) = (if x = OptInput then [] else [region_of t u v]) @ regions OptOutput ts"
    using assms(1) r s [of OptInput] s [of OptOutput] by (auto simp del: regions.simps(1))
  then show ?thesis
    using assms(5) unfolding applied_def assms(6) by (simp add: o add_region_def set_mach_def)
qed

lemma opt_meaning_pos [simp]: "pos (opt_meaning x a mb) = pos mb" "buf (opt_meaning x a mb) = buf mb"
  "pos (add_region x rg mb) = pos mb" "buf (add_region x rg mb) = buf mb"
  by (simp_all add: opt_meaning_def add_region_def set_mach_def split: opt.split)

lemma parse_groups:
  assumes "opt_groups ts" "drop (pos mb) (buf mb) = concat (map token_bytes ts) @ op_bytes (opt_bare OptEnd) @ rest"
  shows "\<exists>mb'. handleOpts mb = (None, mb') \<and> applied ts mb mb' \<and> drop (pos mb') (buf mb') = rest"
  using assms
proof (induction arbitrary: mb rule: opt_groups.induct)
  case no_opts
  let ?mb = "mb\<lparr>pos := pos mb + length (op_bytes (opt_bare OptEnd))\<rparr>"
  have "drop (pos mb) (buf mb) = op_bytes (opt_bare OptEnd) @ rest" using no_opts by simp
  note h = handleOpts_end [OF this]
  have "applied [] mb ?mb" by (simp add: applied_def)
  with h show ?case by (intro exI [of _ ?mb]) simp
next
  case (plain_opt x t ts)
  have "drop (pos mb) (buf mb) = token_bytes t @ concat (map token_bytes ts) @ op_bytes (opt_bare OptEnd) @ rest"
    using plain_opt.prems by simp
  from plain_step [OF plain_opt.hyps(1,2) this] obtain mb1
    where 1: "handleOpts mb = handleOpts (opt_meaning x (Arg (tok_op t)) mb1)"
      "mb1 = mb\<lparr>pos := pos mb + length (token_bytes t)\<rparr>"
      "drop (pos mb1) (buf mb1) = concat (map token_bytes ts) @ op_bytes (opt_bare OptEnd) @ rest" .
  then obtain mb' where "handleOpts (opt_meaning x (Arg (tok_op t)) mb1) = (None, mb')"
    "applied ts (opt_meaning x (Arg (tok_op t)) mb1) mb'" "drop (pos mb') (buf mb') = rest"
    using plain_opt.IH [of "opt_meaning x (Arg (tok_op t)) mb1"] by auto
  then show ?case using applied_plain [OF plain_opt.hyps(1,2) _ 1(2)] 1(1) by auto
next
  case (region_opt x t u v ts)
  have "drop (pos mb) (buf mb) = token_bytes t @ token_bytes u @ token_bytes v @
      concat (map token_bytes ts) @ op_bytes (opt_bare OptEnd) @ rest"
    using region_opt.prems by simp
  from region_step [OF region_opt.hyps(1-4) this] obtain mb1
    where 1: "handleOpts mb = handleOpts (add_region x (region_of t u v) mb1)"
      "mb1 = mb\<lparr>pos := pos mb + length (token_bytes t @ token_bytes u @ token_bytes v)\<rparr>"
      "drop (pos mb1) (buf mb1) = concat (map token_bytes ts) @ op_bytes (opt_bare OptEnd) @ rest" .
  then obtain mb' where "handleOpts (add_region x (region_of t u v) mb1) = (None, mb')"
    "applied ts (add_region x (region_of t u v) mb1) mb'" "drop (pos mb') (buf mb') = rest"
    using region_opt.IH [of "add_region x (region_of t u v) mb1"] by auto
  then show ?case using applied_region [OF region_opt.hyps(1-4) _ 1(2)] 1(1) by auto
qed

text \<open>The address labels become debug information.\<close>

definition label_all :: "token list \<Rightarrow> debugInfo \<Rightarrow> debugInfo" where
  "label_all = fold (\<lambda>t. addLabel (Arg (tok_op t)) (bytes_of (str t)))"

lemma readString_bytes:
  assumes "drop (pos mb) (buf mb) = uvarint_bytes (of_nat (length s)) @ bytes_of s @ rest" "length s < 2 ^ 32" "rest \<noteq> []"
  shows "readString mb = (Inr (bytes_of s),
      mb\<lparr>pos := pos mb + length (uvarint_bytes (of_nat (length s))) + length s\<rparr>)"
    and "drop (pos mb + length (uvarint_bytes (of_nat (length s))) + length s) (buf mb) = rest"
proof -
  let ?n = "of_nat (length s) :: u32" and ?k = "pos mb + length (uvarint_bytes (of_nat (length s)))"
  have n: "unat ?n = length s" using assms(2) by (rule unat_of_nat_less)
  then have u: "ucast ?n = (of_nat (length s) :: u64)"
    by (simp only: word_unat_eq_iff unsigned_ucast_eq) (simp add: unsigned_of_nat)
  have d: "drop (pos mb) (buf mb) = uvarint_bytes (ucast ?n) @ bytes_of s @ rest" using assms(1) by (simp only: u)
  note r = uvarint_roundtrip [OF d, unfolded u]
  have k: "drop ?k (buf mb) = bytes_of s @ rest" by (rule drop_past [OF assms(1)])
  show "drop (?k + length s) (buf mb) = rest" using drop_past [OF k] by simp
  have "length (buf mb) - ?k = length s + length rest" using k by (metis length_append length_bytes_of length_drop)
  then have "\<not> length (buf mb) \<le> length s + ?k" using assms(3) by (cases rest) simp_all
  then show "readString mb = (Inr (bytes_of s), mb\<lparr>pos := ?k + length s\<rparr>)"
    using k by (simp add: readString_def r n Let_def add.commute)
qed

lemma addrLabel_bytes:
  "kind t = addrLabelTK \<Longrightarrow>
    token_bytes t = uvarint_bytes (ucast (Arg (tok_op t))) @ uvarint_bytes (of_nat (length (str t))) @ bytes_of (str t)"
  by (simp add: token_bytes_def)

lemma read_labels:
  assumes "\<forall>u \<in> set us. kind u = addrLabelTK \<and> length (str u) < 2 ^ 32" "rest \<noteq> []"
    "drop (pos mb) (buf mb) = concat (map token_bytes us) @ rest"
  shows "\<exists>p. readAddrLabels (length us) mb = (None, mb\<lparr>pos := p, dbg := label_all us (dbg mb)\<rparr>) \<and> drop p (buf mb) = rest"
  using assms
proof (induction us arbitrary: mb)
  case Nil
  then show ?case by (intro exI [of _ "pos mb"]) (simp add: label_all_def)
next
  case (Cons u us)
  let ?a = "Arg (tok_op u)"
  let ?tl = "concat (map token_bytes us) @ rest"
  have k: "kind u = addrLabelTK" "length (str u) < 2 ^ 32" using Cons.prems(1) by simp_all
  define m where "m = mb\<lparr>pos := pos mb + length (uvarint_bytes (ucast ?a))\<rparr>"
  have d: "drop (pos mb) (buf mb) = uvarint_bytes (ucast ?a) @ uvarint_bytes (of_nat (length (str u))) @ bytes_of (str u) @ ?tl"
    using Cons.prems(3) by (simp add: addrLabel_bytes [OF k(1)])
  note a = uvarint_roundtrip [OF d, folded m_def]
  have dm: "drop (pos m) (buf m) = uvarint_bytes (of_nat (length (str u))) @ bytes_of (str u) @ ?tl"
    using drop_past [OF d] by (simp add: m_def)
  have "?tl \<noteq> []" using Cons.prems(2) by simp
  note s = readString_bytes [OF dm k(2) this]
  define q where "q = pos m + length (uvarint_bytes (of_nat (length (str u)))) + length (str u)"
  define n where "n = m\<lparr>pos := q, dbg := addLabel ?a (bytes_of (str u)) (dbg m)\<rparr>"
  have "drop (pos n) (buf n) = ?tl" using s(2) by (simp add: n_def q_def)
  with Cons.IH [of n] Cons.prems(1,2) obtain p
    where p: "readAddrLabels (length us) n = (None, n\<lparr>pos := p, dbg := label_all us (dbg n)\<rparr>)" "drop p (buf n) = rest" by auto
  have "readAddrLabels (length (u # us)) mb = readAddrLabels (length us) n"
    using s(1) by (simp add: a n_def q_def)
  moreover have "n\<lparr>pos := p, dbg := label_all us (dbg n)\<rparr> = mb\<lparr>pos := p, dbg := label_all (u # us) (dbg mb)\<rparr>"
    "buf n = buf mb" by (simp_all add: n_def m_def label_all_def)
  ultimately show ?case using p by (intro exI [of _ p]) simp
qed

lemma dbg_Labels_add:
  "dbg_Labels (addLabel a l d) b = dbg_Labels d b @ (if a = b then [l] else [])"
  by (auto simp: dbg_Labels_def addLabel_def lookup_default_update')

lemma dbg_Labels_all:
  "dbg_Labels (label_all us d) a = dbg_Labels d a @ map (\<lambda>t. bytes_of (str t)) (filter (\<lambda>t. Arg (tok_op t) = a) us)"
  by (induction us arbitrary: d) (auto simp: label_all_def dbg_Labels_add)

lemma handleOpt_labels:
  "handleOpt (opt_code OptAddrLabels OR 0x80) a mb =
     (case readAddrLabels (unat a) mb of (Some e, mb) \<Rightarrow> (Inl e, mb) | (None, mb) \<Rightarrow> (Inr False, mb))"
  using handleOpt_sel(2) [of OptAddrLabels] unfolding handleOpt_def handleOpt_sel(1) by (simp del: opt_code.simps)

lemma labels_step:
  assumes "adl_ok ts" "ts \<noteq> []" "\<forall>u \<in> set (tl ts). length (str u) < 2 ^ 32" "length ts \<le> 2 ^ 32" "rest \<noteq> []"
    "drop (pos mb) (buf mb) = concat (map token_bytes ts) @ rest"
  shows "\<exists>p. handleOpts mb = handleOpts (mb\<lparr>pos := p, dbg := label_all (tl ts) (dbg mb)\<rparr>) \<and> drop p (buf mb) = rest"
proof -
  obtain t us where ts: "ts = t # us" using assms(2) by (cases ts) auto
  then have t: "arg_opt OptAddrLabels t" "Arg (tok_op t) = of_nat (length us)" "\<forall>u \<in> set us. kind u = addrLabelTK"
    using assms(1) by (simp_all add: adl_ok_def)
  have n: "unat (Arg (tok_op t)) = length us" using assms(4) ts t(2) unat_of_nat_less [of "length us"] by simp
  define mb1 where "mb1 = mb\<lparr>pos := pos mb + length (op_bytes (opt_arg OptAddrLabels (Arg (tok_op t))))\<rparr>"
  have d: "drop (pos mb) (buf mb) = op_bytes (opt_arg OptAddrLabels (Arg (tok_op t))) @ concat (map token_bytes us) @ rest"
    using assms(6) by (simp add: ts arg_opt_bytes [OF t(1)])
  have "drop (pos mb1) (buf mb1) = concat (map token_bytes us) @ rest" using drop_past [OF d] by (simp add: mb1_def)
  with read_labels [of us rest mb1] assms(3,5) t(3) ts obtain p
    where p: "readAddrLabels (length us) mb1 = (None, mb1\<lparr>pos := p, dbg := label_all us (dbg mb1)\<rparr>)" "drop p (buf mb1) = rest"
    by auto
  have "handleOpt (opt_code OptAddrLabels OR 0x80) (Arg (tok_op t)) mb1 = (Inr False, mb1\<lparr>pos := p, dbg := label_all us (dbg mb1)\<rparr>)"
    unfolding handleOpt_labels n p(1) by simp
  from handleOpts_arg(1) [OF d mb1_def this] p(2) show ?thesis by (intro exI [of _ p]) (simp add: ts mb1_def)
qed

subsection \<open>Whole headers\<close>

text \<open>The tokens as \<open>finish\<close> puts them: version, address labels, options, end, program.\<close>

definition version_token :: token where
  "version_token = optToken ''version'' 0 False"

definition end_token :: token where
  "end_token = optToken ''end'' 0 False"

lemma version_step:
  assumes "drop (pos mb) (buf mb) = token_bytes version_token @ rest"
  shows "\<exists>p. handleOpts mb = handleOpts (mb\<lparr>pos := p\<rparr>) \<and> drop p (buf mb) = rest"
proof -
  have t: "token_bytes version_token = op_bytes (opt_bare OptVersion)"
    by (simp add: version_token_def optToken_def token_bytes_def opt_bare_def)
  let ?p = "pos mb + length (op_bytes (opt_bare OptVersion))"
  have d: "drop (pos mb) (buf mb) = op_bytes (opt_bare OptVersion) @ rest" using assms t by simp
  have "readOptCode mb = (Inr (opt_code OptVersion, 0), mb\<lparr>pos := ?p\<rparr>)"
    using readOptCode_op [OF d] by (simp only: opt_bytes if_False)
  moreover have "handleOpt (opt_code OptVersion) 0 m = (Inr False, m)" for m
    using handleOpt_sel(3,4) [of OptVersion] by (simp add: handleOpt_def)
  ultimately have "handleOpts mb = handleOpts (mb\<lparr>pos := ?p\<rparr>)" by (subst handleOpts.simps) simp
  then show ?thesis using drop_past [OF d] by blast
qed

lemma end_bytes: "token_bytes end_token = op_bytes (opt_bare OptEnd)"
  by (simp add: end_token_def optToken_def token_bytes_def opt_bare_def)

text \<open>The machine that the stack size leaves, when no other option has been read.\<close>

definition stacked :: "u32 \<Rightarrow> machBuilder \<Rightarrow> machBuilder" where
  "stacked a mb = (mb\<lparr>mb_base := a\<rparr>)\<lparr>mb_mach := if 0 < a then raw_mach\<lparr>ip := a, cbp := a - 4, csp := a - 4\<rparr> else raw_mach\<rparr>"

lemma stack_step:
  assumes "arg_opt OptStackSize t" "Arg (tok_op t) \<le> 0xffff" "Arg (tok_op t) mod 4 = 0" "mb_mach mb = raw_mach"
    "drop (pos mb) (buf mb) = token_bytes t @ rest"
  shows "\<exists>p. handleOpts mb = handleOpts (stacked (Arg (tok_op t)) (mb\<lparr>pos := p\<rparr>)) \<and> drop p (buf mb) = rest"
proof -
  let ?a = "Arg (tok_op t)" and ?p = "pos mb + length (op_bytes (opt_arg OptStackSize (Arg (tok_op t))))"
  have d: "drop (pos mb) (buf mb) = op_bytes (opt_arg OptStackSize ?a) @ rest"
    using assms(5) arg_opt_bytes [OF assms(1)] by simp
  have "opt_stack_size ?a (mb\<lparr>pos := ?p\<rparr>) = (Inr False, stacked ?a (mb\<lparr>pos := ?p\<rparr>))"
    using assms(2,3,4) by (simp add: opt_stack_size_def stacked_def set_mach_def Let_def not_less raw_mach_def)
  from handleOpts_arg [OF d refl handleOpt_stack_size [THEN trans, OF this]] show ?thesis by auto
qed

lemma op_bytes_nonempty: "op_bytes op \<noteq> []"
  by (simp flip: length_0_conv add: length_op_bytes varCodeLength_def)

lemma parse_prefix:
  assumes adl: "adl_ok ls" "\<forall>u \<in> set (tl ls). length (str u) < 2 ^ 32" "length ls \<le> 2 ^ 32"
    and out: "out = token_bytes version_token @ concat (map token_bytes ls) @ op_bytes op @ rest"
  obtains m where "handleOpts (raw_builder out) = handleOpts m" "drop (pos m) (buf m) = op_bytes op @ rest"
    "m = (raw_builder out)\<lparr>pos := pos m, dbg := label_all (tl ls) no_debug\<rparr>"
proof -
  let ?r = "raw_builder out"
  have "drop (pos ?r) (buf ?r) = token_bytes version_token @ concat (map token_bytes ls) @ op_bytes op @ rest"
    by (simp add: raw_builder_def out)
  from version_step [OF this] obtain p1 where p1: "handleOpts ?r = handleOpts (?r\<lparr>pos := p1\<rparr>)"
    "drop p1 (buf ?r) = concat (map token_bytes ls) @ op_bytes op @ rest" by blast
  show thesis
  proof (cases "ls = []")
    case True
    moreover have "?r\<lparr>pos := p1\<rparr> = ?r\<lparr>pos := p1, dbg := no_debug\<rparr>" by (simp add: raw_builder_def)
    ultimately show ?thesis using p1 by (intro that [of "?r\<lparr>pos := p1\<rparr>"]) (simp_all add: label_all_def)
  next
    case False
    have "drop (pos (?r\<lparr>pos := p1\<rparr>)) (buf (?r\<lparr>pos := p1\<rparr>)) = concat (map token_bytes ls) @ op_bytes op @ rest"
      using p1(2) by simp
    from labels_step [OF adl(1) False adl(2,3) _ this] op_bytes_nonempty obtain p2
      where p2: "handleOpts (?r\<lparr>pos := p1\<rparr>) = handleOpts (?r\<lparr>pos := p2, dbg := label_all (tl ls) no_debug\<rparr>)"
      "drop p2 (buf ?r) = op_bytes op @ rest" by (auto simp: raw_builder_def)
    with p1(1) show ?thesis by (intro that [of "?r\<lparr>pos := p2, dbg := label_all (tl ls) no_debug\<rparr>"]) simp_all
  qed
qed

lemma parse_tokens:
  assumes adl: "adl_ok ls" "\<forall>u \<in> set (tl ls). length (str u) < 2 ^ 32" "length ls \<le> 2 ^ 32"
    and opts: "opts_ok os"
    and out: "out = concat (map token_bytes (version_token # ls @ os @ end_token # ps))"
  shows "if Arg (tok_op (hd os)) mod 4 = 0
    then \<exists>m mb. handleOpts (raw_builder out) = (None, mb) \<and> applied (tl os) (stacked (Arg (tok_op (hd os))) m) mb \<and>
      drop (pos mb) (buf mb) = concat (map token_bytes ps) \<and>
      m = (raw_builder out)\<lparr>pos := pos m, dbg := label_all (tl ls) no_debug\<rparr>
    else \<exists>mb. handleOpts (raw_builder out) = (Some (StackSizeNotWords (Arg (tok_op (hd os)))), mb)"
proof -
  obtain t us where os: "os = t # us" using opts(1) by (cases os) (auto simp: opts_ok_def)
  then have t: "arg_opt OptStackSize t" "Arg (tok_op t) \<le> 0xffff" "opt_groups us" using opts by (simp_all add: opts_ok_def)
  let ?a = "Arg (tok_op t)"
  let ?r2 = "concat (map token_bytes us) @ op_bytes (opt_bare OptEnd) @ concat (map token_bytes ps)"
  have "out = token_bytes version_token @ concat (map token_bytes ls) @ op_bytes (opt_arg OptStackSize ?a) @ ?r2"
    by (simp add: out os end_bytes arg_opt_bytes [OF t(1)])
  from parse_prefix [OF adl this] obtain m where m: "handleOpts (raw_builder out) = handleOpts m"
    "drop (pos m) (buf m) = op_bytes (opt_arg OptStackSize ?a) @ ?r2"
    "m = (raw_builder out)\<lparr>pos := pos m, dbg := label_all (tl ls) no_debug\<rparr>" .
  show ?thesis
  proof (cases "?a mod 4 = 0")
    case True
    have "mb_mach m = raw_mach" by (subst m(3)) (simp add: raw_builder_def)
    moreover have "drop (pos m) (buf m) = token_bytes t @ ?r2" using m(2) by (simp add: arg_opt_bytes [OF t(1)])
    ultimately obtain p where p: "handleOpts m = handleOpts (stacked ?a (m\<lparr>pos := p\<rparr>))" "drop p (buf m) = ?r2"
      using stack_step [OF t(1,2) True] by blast
    have "drop (pos (stacked ?a (m\<lparr>pos := p\<rparr>))) (buf (stacked ?a (m\<lparr>pos := p\<rparr>))) = ?r2" using p(2) by (simp add: stacked_def)
    from parse_groups [OF t(3) this] obtain mb where "handleOpts (stacked ?a (m\<lparr>pos := p\<rparr>)) = (None, mb)"
      "applied us (stacked ?a (m\<lparr>pos := p\<rparr>)) mb" "drop (pos mb) (buf mb) = concat (map token_bytes ps)" by blast
    moreover have "m\<lparr>pos := p\<rparr> = (raw_builder out)\<lparr>pos := pos (m\<lparr>pos := p\<rparr>), dbg := label_all (tl ls) no_debug\<rparr>"
      by (subst m(3)) simp
    ultimately have "\<exists>m mb. handleOpts (raw_builder out) = (None, mb) \<and> applied us (stacked ?a m) mb \<and>
      drop (pos mb) (buf mb) = concat (map token_bytes ps) \<and>
      m = (raw_builder out)\<lparr>pos := pos m, dbg := label_all (tl ls) no_debug\<rparr>"
      using m(1) p(1) by metis
    then show ?thesis using True by (simp add: os)
  next
    case False
    have "opt_stack_size ?a n = (Inl (StackSizeNotWords ?a), n)" for n
      using False t(2) by (simp add: opt_stack_size_def not_less)
    from handleOpts_arg(1) [OF m(2) refl handleOpt_stack_size [THEN trans, OF this]] m(1) False
    show ?thesis by (simp add: os)
  qed
qed

subsection \<open>What the header of an assembled program says\<close>

definition header_of :: "token list \<Rightarrow> token list" where
  "header_of ts = take (end_of ts) ts"

definition code_of :: "token list \<Rightarrow> u8 list" where
  "code_of ts = concat (map token_bytes (drop (end_of ts) ts))"

definition stack_size :: "token list \<Rightarrow> u32" where
  "stack_size ts = last (0 # option_args OptStackSize (header_of ts))"

definition framed :: "token list \<Rightarrow> token list \<Rightarrow> token list \<Rightarrow> token list \<Rightarrow> bool" where
  "framed ls os ps ts \<longleftrightarrow> ts = version_token # ls @ os @ end_token # ps \<and> adl_ok ls \<and> opts_ok os"

lemma opt_groups_args:
  "opt_groups ts \<Longrightarrow> t \<in> set ts \<Longrightarrow> \<exists>x. arg_opt x t \<and> x \<notin> {OptEnd, OptStackSize, OptAddrLabels, OptVersion}"
  by (induction rule: opt_groups.induct) (auto simp: plain_opts_def)

lemma arg_opt_end: "arg_opt x t \<Longrightarrow> is_end t \<longleftrightarrow> x = OptEnd"
  unfolding arg_opt_def is_end_def by (metis opt_of_code option.inject)

lemma bare_tokens:
  "\<not> arg_opt x version_token" "\<not> arg_opt x end_token" "is_end end_token" "\<not> is_end version_token"
  "kind version_token = optTK" "kind end_token = optTK"
  by (simp_all add: arg_opt_def version_token_def end_token_def optToken_def is_end_def ResolveOption_def all_opts_def)

lemma adl_ok_args: "adl_ok ls \<Longrightarrow> t \<in> set ls \<Longrightarrow> kind t = addrLabelTK \<or> arg_opt OptAddrLabels t"
  by (cases ls) (auto simp: adl_ok_def)

lemma opts_ok_args: "opts_ok os \<Longrightarrow> t \<in> set os \<Longrightarrow> \<exists>x. arg_opt x t \<and> x \<notin> {OptEnd, OptAddrLabels, OptVersion}"
  using opt_groups_args by (cases os) (auto simp: opts_ok_def)

lemma framed_end:
  assumes "framed ls os ps ts"
  shows "end_of ts = length ls + length os + 2" "header_of ts = version_token # ls @ os @ [end_token]"
    "code_of ts = concat (map token_bytes ps)"
proof -
  have ts: "ts = version_token # ls @ os @ end_token # ps" and ok: "adl_ok ls" "opts_ok os"
    using assms by (simp_all add: framed_def)
  have "\<forall>t \<in> set ls. \<not> is_end t"
  proof
    fix t assume "t \<in> set ls"
    from adl_ok_args [OF ok(1) this] show "\<not> is_end t"
    proof
      assume "kind t = addrLabelTK"
      then show ?thesis by (simp add: is_end_def)
    next
      assume "arg_opt OptAddrLabels t"
      then show ?thesis by (simp add: arg_opt_end)
    qed
  qed
  moreover have "\<forall>t \<in> set os. \<not> is_end t" using opts_ok_args [OF ok(2)] arg_opt_end by fastforce
  ultimately have "takeWhile (\<lambda>t. \<not> is_end t) ts = version_token # ls @ os"
    unfolding ts using bare_tokens(3,4) by (simp add: takeWhile_append2)
  then show e: "end_of ts = length ls + length os + 2" by (simp add: end_of_def ts)
  then show "header_of ts = version_token # ls @ os @ [end_token]" by (simp add: header_of_def ts)
  show "code_of ts = concat (map token_bytes ps)" using e by (simp add: code_of_def ts)
qed

lemma regions_end:
  assumes "opt_groups us" "x \<in> {OptInput, OptOutput}"
  shows "regions x (us @ [end_token]) = regions x us"
  using assms(1)
proof (induction rule: opt_groups.induct)
  case (plain_opt y t ts)
  then have "\<not> arg_opt x t" using assms(2) arg_opt_unique [OF plain_opt.hyps(2)] by (auto simp: plain_opts_def)
  then show ?case using plain_opt.IH by (simp add: regions_skip)
next
  case (region_opt y t u v ts)
  show ?case
  proof (cases "x = y")
    case True
    then show ?thesis using region_opt by simp
  next
    case False
    then have "\<not> arg_opt x t" "\<not> arg_opt x u" "\<not> arg_opt x v"
      using assms(2) arg_opt_unique [OF region_opt.hyps(2)] arg_opt_unique [OF region_opt.hyps(3)]
        arg_opt_unique [OF region_opt.hyps(4)] by auto
    then show ?thesis using region_opt.IH by (simp add: regions_skip)
  qed
qed simp

lemma option_args_none: "\<forall>t \<in> set ts. \<not> arg_opt x t \<Longrightarrow> option_args x ts = []"
  by (simp add: option_args_def)

lemma framed_options:
  assumes f: "framed ls os ps ts"
  shows "stack_size ts = Arg (tok_op (hd os))"
    and "x \<notin> {OptStackSize, OptAddrLabels} \<Longrightarrow> option_args x (header_of ts) = option_args x (tl os)"
    and "x \<in> {OptInput, OptOutput} \<Longrightarrow> regions x (header_of ts) = regions x (tl os)"
    and "filter (\<lambda>t. kind t = addrLabelTK \<and> P t) (header_of ts) = filter P (tl ls)"
proof -
  have ok: "adl_ok ls" "opts_ok os" using f by (simp_all add: framed_def)
  obtain t us where os: "os = t # us" "arg_opt OptStackSize t" "opt_groups us"
    using ok(2) by (cases os) (auto simp: opts_ok_def)
  have l: "\<not> arg_opt x u" if "u \<in> set ls" "x \<noteq> OptAddrLabels" for u x
    using adl_ok_args [OF ok(1) that(1)] that(2) arg_opt_unique [of OptAddrLabels u x] by (auto simp: arg_opt_def)
  have s: "arg_opt x t \<longleftrightarrow> x = OptStackSize" for x using arg_opt_unique [OF os(2)] .
  have "\<forall>u \<in> set us. \<not> arg_opt OptStackSize u" using opt_groups_args [OF os(3)] arg_opt_unique by blast
  then have "option_args OptStackSize us = []" by (rule option_args_none)
  then show "stack_size ts = Arg (tok_op (hd os))"
    using l os(1,2) bare_tokens by (simp add: stack_size_def framed_end(2) [OF f] option_args_none)
  show "option_args x (header_of ts) = option_args x (tl os)" if "x \<notin> {OptStackSize, OptAddrLabels}"
    using that l os(1) s bare_tokens by (simp add: framed_end(2) [OF f] option_args_none)
  have skip: "regions x (ls @ ts) = regions x ts" if "x \<noteq> OptAddrLabels" "\<forall>u \<in> set ls. \<not> arg_opt x u" for x ls ts
    using that(2) by (induction ls) (simp_all add: regions_skip)
  show "regions x (header_of ts) = regions x (tl os)" if "x \<in> {OptInput, OptOutput}"
  proof -
    have "x \<noteq> OptAddrLabels" "x \<noteq> OptStackSize" using that by auto
    then show ?thesis
      using skip [of x ls] l [of _ x] s [of x] regions_end [OF os(3) that]
      by (simp add: framed_end(2) [OF f] regions_skip bare_tokens os(1))
  qed
  have "filter (\<lambda>t. kind t = addrLabelTK \<and> P t) ls = filter P (tl ls)"
    using ok(1) by (cases ls) (auto simp: adl_ok_def arg_opt_def intro!: filter_cong)
  moreover have "kind u \<noteq> addrLabelTK" if "u \<in> set os" for u
    using opts_ok_args [OF ok(2) that] by (auto simp: arg_opt_def)
  then have "filter (\<lambda>t. kind t = addrLabelTK \<and> P t) os = []" by (simp add: filter_empty_conv)
  ultimately show "filter (\<lambda>t. kind t = addrLabelTK \<and> P t) (header_of ts) = filter P (tl ls)"
    by (simp add: framed_end(2) [OF f] bare_tokens)
qed

subsection \<open>Assembled programs\<close>

lemma enc_loop_length: "enc_loop fuel enc = Done (Inr out) \<Longrightarrow> length out < 2 ^ 32"
proof (induction fuel arbitrary: enc)
  case (Suc fuel)
  have c: "unat (enc_c enc) < 2 ^ 32" using unsigned_less [of "enc_c enc", where ?'a = nat] by simp
  show ?case
    using Suc.prems Suc.IH c
    by (auto split: if_splits option.splits sum.splits)
qed simp

lemma labels_short:
  assumes "adl_ok ls" "out = token_bytes v @ concat (map token_bytes ls) @ rest" "length out < 2 ^ 32"
  shows "\<forall>u \<in> set (tl ls). length (str u) < 2 ^ 32" "length ls \<le> 2 ^ 32"
proof -
  have k: "kind u = addrLabelTK" if "u \<in> set (tl ls)" for u using assms(1) that by (cases ls) (auto simp: adl_ok_def)
  have le: "length (concat (map token_bytes (tl ls))) \<le> length out" using assms(2) by (cases ls) simp_all
  have one: "length (concat (map token_bytes us)) \<ge> length (token_bytes u)" if "u \<in> set us" for u us
    using that by (induction us) auto
  show "\<forall>u \<in> set (tl ls). length (str u) < 2 ^ 32"
  proof
    fix u assume u: "u \<in> set (tl ls)"
    have "length (str u) \<le> length (token_bytes u)" by (simp add: addrLabel_bytes [OF k [OF u]])
    with one [OF u] le assms(3) show "length (str u) < 2 ^ 32" by linarith
  qed
  have "length us \<le> length (concat (map token_bytes us))" if "\<forall>u \<in> set us. kind u = addrLabelTK" for us
    using that
  proof (induction us)
    case (Cons u us)
    have "uvarint_bytes x \<noteq> []" for x by (subst uvarint_bytes.simps) simp
    then have "1 \<le> length (token_bytes u)" using Cons.prems by (simp add: addrLabel_bytes Suc_le_eq)
    then show ?case using Cons by simp
  qed simp
  from this [of "tl ls"] k le assms(3) show "length ls \<le> 2 ^ 32" by simp
qed

lemma list_all2_framed:
  assumes "framed ls os ps ts" "list_all2 same_shape ts ts'"
    "\<And>j. j \<in> {0, 1 + length ls, 1 + length ls + length os} \<or> (j = 1 \<and> ls \<noteq> []) \<Longrightarrow> ts' ! j = ts ! j"
  obtains ls' os' ps' where "framed ls' os' ps' ts'" "hd os' = hd os"
proof -
  have ts: "ts = version_token # ls @ os @ end_token # ps" and ok: "adl_ok ls" "opts_ok os" using assms(1) by (simp_all add: framed_def)
  obtain v' ls' os' e' ps' where ts': "ts' = v' # ls' @ os' @ e' # ps'" and
    s: "list_all2 same_shape ls ls'" "list_all2 same_shape os os'" "same_shape end_token e'"
    using assms(2) unfolding ts by (auto simp: list_all2_Cons1 list_all2_append1)
  have l: "length ls' = length ls" "length os' = length os" using s(1,2) by (auto dest: list_all2_lengthD)
  have "os \<noteq> []" using ok(2) by (auto simp: opts_ok_def)
  then obtain t us t' us' where os: "os = t # us" "os' = t' # us'" using l(2) by (cases os; cases os') auto
  have "v' = version_token" using assms(3) [of 0] by (simp add: ts ts')
  moreover have "e' = end_token" using assms(3) [of "1 + length ls + length os"] by (simp add: ts ts' nth_append l)
  moreover have t: "t' = t" using assms(3) [of "1 + length ls"] by (simp add: ts ts' nth_append l os)
  moreover have "opts_ok os'" using ok(2) s(2) t opt_groups_shape by (auto simp: os opts_ok_def)
  moreover have "adl_ok ls'"
  proof (cases ls)
    case (Cons a as)
    then obtain a' as' where ls': "ls' = a' # as'" "list_all2 same_shape as as'" using s(1) by (auto simp: list_all2_Cons1)
    have "a' = a" using assms(3) [of 1] Cons ls'(1) by (simp add: ts ts')
    moreover have "kind u = addrLabelTK" if u: "u \<in> set as'" for u
    proof -
      obtain i where i: "i < length as'" "u = as' ! i" using u by (auto simp: in_set_conv_nth)
      then have "i < length as" using list_all2_lengthD [OF ls'(2)] by simp
      then have "kind (as ! i) = addrLabelTK" using ok(1) Cons by (simp add: adl_ok_def)
      moreover have "same_shape (as ! i) u" using list_all2_nthD [OF ls'(2) \<open>i < length as\<close>] i by simp
      ultimately show ?thesis by (simp add: same_shape_fields)
    qed
    ultimately show ?thesis using ok(1) Cons ls' list_all2_lengthD [OF ls'(2)] by (simp add: adl_ok_def)
  qed (use s(1) in \<open>simp add: adl_ok_def\<close>)
  ultimately have "framed ls' os' ps' ts'" by (simp add: framed_def ts')
  then show thesis using that t os by simp
qed

lemma headed_new:
  assumes "refOpt g ''stackSize'' defaultStackSize True empty_assembler = Some (p, a)"
  shows "headed (a\<lparr>stackSizeOpt := Some p\<rparr>)"
proof -
  have o: "addOpt g ''stackSize'' defaultStackSize True empty_assembler = Some a" using assms by (auto simp: refOpt_def)
  have t: "sec_toks (opts a) = [optToken ''stackSize'' defaultStackSize True]"
    using addOpt_toks [OF o] by (simp add: empty_assembler_def empty_section_def)
  have "Arg (tok_op (optToken ''stackSize'' defaultStackSize True)) \<le> 0xffff"
    by (simp add: optToken_def ResolveOption_def all_opts_def defaultStackSize_def)
  then have "opts_ok (sec_toks (opts a))" by (simp add: t opts_ok_def optToken_opts no_opts)
  moreover have "steady a"
    using o t by (auto simp: addOpt_def Let_def make_room_def sec_add_def empty_assembler_def empty_section_def steady_def
        adl_ok_def later_sites_def later_elem_def moved_def)
  ultimately show ?thesis by (simp add: headed_def steady_def)
qed

lemma scanned_headed:
  assumes "scanned fuel env vs = Done (Inr (sec, rs, base))"
  shows "\<exists>a. laid_out a \<and> headed a \<and> finish a = Some (Inr (sec, rs, base))"
proof -
  obtain p a sc where a: "refOpt (grow_toks env) ''stackSize'' defaultStackSize True empty_assembler = Some (p, a)"
    and sc: "scan fuel env vs (new_scanner (a\<lparr>stackSizeOpt := Some p\<rparr>)) = Done (Inr sc)"
    and f: "finish (asm sc) = Some (Inr (sec, rs, base))"
    using assms unfolding scanned_def by (auto split: option.splits outcome.splits sum.splits)
  have "layout.holds (new_scanner (a\<lparr>stackSizeOpt := Some p\<rparr>))" "header.holds (new_scanner (a\<lparr>stackSizeOpt := Some p\<rparr>))"
    using laid_out_new [OF a] headed_new [OF a] by (simp_all add: layout.holds_def header.holds_def new_scanner_def)
  then have "laid_out (asm sc)" "headed (asm sc)"
    using layout.scan_keeps [OF sc] header.scan_keeps [OF sc] by (simp_all add: layout.holds_def header.holds_def)
  with f show ?thesis by blast
qed

lemma finish_framed:
  assumes L: "laid_out a" and H: "headed a" and f: "finish a = Some (Inr (sec, rs, base))"
  shows "framed (sec_toks (adls a)) (sec_toks (opts a)) (sec_toks (prog a)) (sec_toks sec)"
    and "j \<in> {0, 1 + length (sec_toks (adls a)), 1 + length (sec_toks (adls a)) + length (sec_toks (opts a))} \<or>
      (j = 1 \<and> sec_toks (adls a) \<noteq> []) \<Longrightarrow> int j \<notin> site ` set rs"
proof -
  define n1 where "n1 = 1 + length (sec_toks (adls a))"
  define n2 where "n2 = n1 + length (sec_toks (opts a))"
  note c = finish_collect [OF L f n1_def n2_def]
  show "framed (sec_toks (adls a)) (sec_toks (opts a)) (sec_toks (prog a)) (sec_toks sec)"
    using c(1) H by (simp add: framed_def version_token_def end_token_def headed_def steady_def)
  assume j: "j \<in> {0, 1 + length (sec_toks (adls a)), 1 + length (sec_toks (adls a)) + length (sec_toks (opts a))} \<or>
      (j = 1 \<and> sec_toks (adls a) \<noteq> [])"
  have o: "0 < length (sec_toks (opts a))" using H by (simp add: headed_def steady_def)
  have ok: "sites_ok (adls a)" "sites_ok (opts a)" "sites_ok (prog a)" using L by (simp_all add: laid_out_def)
  have "later_sites (adls a)" "later_sites (opts a)" using H by (simp_all add: headed_def steady_def)
  then have l: "r \<in> set (shifted k (adls a)) \<Longrightarrow> k + 1 \<le> site (nref r)" "r \<in> set (shifted k (opts a)) \<Longrightarrow> k + 1 \<le> site (nref r)"
    for r k by (auto simp: later_sites_def shifted_def list_all_iff)
  have "set rs = (\<lambda>r. (nref r)\<lparr>targ := (case labels sec (targName r) of None \<Rightarrow> 0 | Some i \<Rightarrow> i)\<rparr>) ` set (sec_refs sec)"
    using c(5) by (auto simp: resolveRefs_def split: if_splits)
  then have "site ` set rs = (\<lambda>r. site (nref r)) ` set (sec_refs sec)" by (simp add: image_image)
  moreover have "int j \<noteq> site (nref r)" if "r \<in> set (sec_refs sec)" for r
    using that j o shifted_sites [OF ok(1), of r 1] shifted_sites [OF ok(2), of r "int n1"] shifted_sites [OF ok(3), of r "int n2 + 1"]
      l(1) [of r 1] l(2) [of r "int n1"] unfolding c(2) by (auto simp: n1_def n2_def)
  ultimately show "int j \<notin> site ` set rs" by auto
qed

text \<open>The builder that the header of \<open>ts\<close> describes.\<close>

definition configured :: "token list \<Rightarrow> machBuilder \<Rightarrow> bool" where
  "configured ts mb \<longleftrightarrow>
     mb_base mb = stack_size ts \<and>
     cbp (mb_mach mb) = (if 0 < stack_size ts then stack_size ts - 4 else 0) \<and>
     ip (mb_mach mb) = last (stack_size ts # option_args OptEntry (header_of ts)) \<and>
     limit (mb_mach mb) = last (0 # map ucast (option_args OptMaxOps (header_of ts))) \<and>
     queueSize mb = last (defaultQueueSize # map unat (option_args OptQueueSize (header_of ts))) \<and>
     maxCopies mb = last (0 # map unat (option_args OptMaxCopies (header_of ts))) \<and>
     inputs mb = regions OptInput (header_of ts) \<and> nextIn mb = 0 \<and>
     outs (mb_mach mb) = regions OptOutput (header_of ts) \<and>
     (\<forall>a. dbg_Labels (dbg mb) a =
        map (\<lambda>t. bytes_of (str t)) (filter (\<lambda>t. kind t = addrLabelTK \<and> Arg (tok_op t) = a) (header_of ts)))"

lemma framed_configured:
  assumes f: "framed ls os ps ts" and a: "applied (tl os) (stacked (Arg (tok_op (hd os))) m) mb"
    and m: "m = (raw_builder out)\<lparr>pos := p, dbg := label_all (tl ls) no_debug\<rparr>"
  shows "configured ts mb"
proof -
  have d: "dbg_Labels (dbg mb) a = dbg_Labels (dbg m) a" for a
    using a by (simp add: applied_def stacked_def dbg_Labels_def)
  have "dbg_Labels no_debug a = []" for a by (simp add: dbg_Labels_def no_debug_def lookup_default_empty)
  then have "dbg_Labels (dbg mb) a = map (\<lambda>t. bytes_of (str t)) (filter (\<lambda>t. Arg (tok_op t) = a) (tl ls))" for a
    unfolding d by (simp add: m dbg_Labels_all)
  moreover have "Arg (tok_op (hd os)) = 0 \<or> 0 < Arg (tok_op (hd os))" by (simp add: word_gt_0)
  ultimately show ?thesis
    using a unfolding configured_def framed_options(1) [OF f] framed_options(4) [OF f]
    by (elim disjE) (simp_all add: framed_options(2,3) [OF f] applied_def stacked_def m raw_builder_def raw_mach_def)
qed

subsection \<open>Properties\<close>

text \<open>What the parser makes of an assembled program.\<close>

lemma assembled_header:
  assumes A: "Assemble fuel env vs = Done (Inr out)" and S: "scanned fuel env vs = Done (Inr (sec, rs, base))"
    and B: "maxBytes sec < 2 ^ 32"
  obtains ts where "relinked (sec_toks sec) rs ts" "\<forall>r \<in> set rs. linked base ts r" "out = concat (map token_bytes ts)"
    "stack_size ts = stack_size (sec_toks sec)" "stack_size ts \<le> 0xffff"
    "if stack_size ts mod 4 = 0 then \<exists>mb. handleOpts (raw_builder out) = (None, mb) \<and> configured ts mb \<and> drop (pos mb) (buf mb) = code_of ts
     else \<exists>mb. handleOpts (raw_builder out) = (Some (StackSizeNotWords (stack_size ts)), mb)"
proof -
  obtain a where L: "laid_out a" and H: "headed a" and f: "finish a = Some (Inr (sec, rs, base))"
    using scanned_headed [OF S] by blast
  have "encode fuel base (nat (maxBytes sec)) (sec_toks sec) rs = Done (Inr out)"
    using A S by (auto simp: Assemble_def split: if_splits outcome.splits sum.splits)
  then obtain enc where "encodeOptions (start_encoder base (nat (maxBytes sec)) (sec_toks sec) rs) = Some (Inr enc)"
    and loop: "enc_loop fuel enc = Done (Inr out)"
    by (auto simp: encode_def split: option.splits sum.splits)
  moreover have "nat (maxBytes sec) < 2 ^ 32" using B by simp
  ultimately obtain ts where r: "relinked (sec_toks sec) rs ts" and out: "out = concat (map token_bytes ts)"
    and l: "\<forall>r \<in> set rs. linked base ts r"
    using enc_loop_linking [OF start_linking finish_sections(1) [OF L f]] by metis
  note F = finish_framed [OF L H f]
  have same: "ts ! j = sec_toks sec ! j"
    if "j \<in> {0, 1 + length (sec_toks (adls a)), 1 + length (sec_toks (adls a)) + length (sec_toks (opts a))} \<or>
      (j = 1 \<and> sec_toks (adls a) \<noteq> [])" for j
  proof -
    have "j < length (sec_toks sec)" using that F(1) by (auto simp: framed_def)
    then show ?thesis using r F(2) [OF that] by (simp add: relinked_def)
  qed
  obtain ls os ps where T: "framed ls os ps ts" and hd: "hd os = hd (sec_toks (opts a))"
    using list_all2_framed [OF F(1) _ same] r by (metis relinked_def)
  have s: "stack_size ts = stack_size (sec_toks sec)" by (simp add: framed_options(1) [OF T] framed_options(1) [OF F(1)] hd)
  have ok: "adl_ok ls" "opts_ok os" and ts: "ts = version_token # ls @ os @ end_token # ps" using T by (simp_all add: framed_def)
  have o: "out = token_bytes version_token @ concat (map token_bytes ls) @ concat (map token_bytes (os @ end_token # ps))"
    by (simp add: out ts)
  note sh = labels_short [OF ok(1) o enc_loop_length [OF loop]]
  note p = parse_tokens [OF ok(1) sh ok(2) out [unfolded ts], folded framed_options(1) [OF T]]
  have "if stack_size ts mod 4 = 0
    then \<exists>mb. handleOpts (raw_builder out) = (None, mb) \<and> configured ts mb \<and> drop (pos mb) (buf mb) = code_of ts
    else \<exists>mb. handleOpts (raw_builder out) = (Some (StackSizeNotWords (stack_size ts)), mb)"
  proof (cases "stack_size ts mod 4 = 0")
    case True
    then obtain m mb where "handleOpts (raw_builder out) = (None, mb)" and ap: "applied (tl os) (stacked (stack_size ts) m) mb"
      and "drop (pos mb) (buf mb) = concat (map token_bytes ps)"
      and m: "m = (raw_builder out)\<lparr>pos := pos m, dbg := label_all (tl ls) no_debug\<rparr>" using p by auto
    moreover have "configured ts mb" by (rule framed_configured [OF T ap [unfolded framed_options(1) [OF T]] m])
    ultimately show ?thesis using True by (auto simp: framed_end(3) [OF T])
  next
    case False
    with p show ?thesis by simp
  qed
  moreover have "stack_size ts \<le> 0xffff"
    using ok(2) unfolding framed_options(1) [OF T] by (cases os) (simp_all add: opts_ok_def)
  ultimately show thesis using that [OF r l out s] by blast
qed

lemma New_parsed:
  assumes h: "handleOpts (raw_builder out) = (None, mb)" and c: "configured ts mb" and d: "drop (pos mb) (buf mb) = code_of ts"
  obtains s m where "New out [] = Some (Inr s)" "s = storeBytes (stack_size ts) (code_of ts) m" "heap_inv 1 m"
    "cbp s = (if 0 < stack_size ts then stack_size ts - 4 else 0)"
    "ip s = last (stack_size ts # option_args OptEntry (header_of ts))"
    "limit s = last (0 # map ucast (option_args OptMaxOps (header_of ts)))"
    "outs s = regions OptOutput (header_of ts)"
proof -
  define m where "m = makeOpCache (length (code_of ts)) (mb_mach mb)"
  define s where "s = storeBytes (stack_size ts) (code_of ts) m"
  have "pristine (mb_mach mb)" by (rule handleOpts_pristine [OF h]) (simp add: raw_builder_def pristine_raw)
  then have inv: "heap_inv 1 m" using pristine_built share_invD(1) by (auto simp: built_def m_def)
  have "length (buf mb) - pos mb = length (code_of ts)" using d by (metis length_drop)
  then have N: "New out [] = Some (Inr s)"
    using c by (simp add: New_def build_def h d set_mach_def s_def m_def configured_def)
  obtain g al ps sp where s: "s = m\<lparr>heap := g, palloc := al, pages := ps, spare := sp\<rparr>"
    using storeBytes_ok(4) [OF inv order.refl] unfolding s_def by blast
  have "cbp s = cbp (mb_mach mb)" "ip s = ip (mb_mach mb)" "limit s = limit (mb_mach mb)" "outs s = outs (mb_mach mb)"
    by (simp_all add: s m_def makeOpCache_def)
  with c show thesis by (intro that [OF N s_def inv]) (simp_all add: configured_def)
qed

lemma read_inside:
  assumes "heap_inv 1 m" "unat a + length (pre @ op_bytes op @ rest) \<le> 2 ^ 32"
  shows "read (a + of_nat (length pre)) (storeBytes a (pre @ op_bytes op @ rest) m) =
    (a + of_nat (length pre + length (op_bytes op)), op_byte op, if hasImm (op_byte op) then Arg op else 0,
     validate (op_byte op) (if hasImm (op_byte op) then Arg op else 0))"
proof -
  let ?bs = "pre @ op_bytes op @ rest"
  let ?s = "storeBytes a ?bs m"
  have "0 < length (op_bytes op)" using op_bytes_nonempty by simp
  then have "unat a + length pre < 2 ^ 32" using assms(2) unfolding length_append by linarith
  then have u: "unat (a + of_nat (length pre)) = unat a + length pre"
    using unat_of_nat_less [of "unat a + length pre"] by simp
  have "page_of ?s ((unat a + k) div pageSize) \<noteq> None" if "k < length ?bs" for k
    by (rule storeBytes_maps [OF assms(1) order.refl that])
  then have p: "\<forall>k < length (op_bytes op @ rest). page_of ?s ((unat (a + of_nat (length pre)) + k) div pageSize) \<noteq> None"
    by (auto simp: u add.assoc)
  have "byte_at ?s (unat (a + of_nat (length pre)) + k) = (op_bytes op @ rest) ! k" if "k < length (op_bytes op @ rest)" for k
  proof -
    have "map (\<lambda>k. byte_at ?s (unat a + k)) [0..<length ?bs] ! (length pre + k) = ?bs ! (length pre + k)"
      unfolding bytes_stored [OF assms(1) order.refl] ..
    then show ?thesis using that by (simp add: u add.assoc)
  qed
  then have "map (\<lambda>k. byte_at ?s (unat (a + of_nat (length pre)) + k)) [0..<length (op_bytes op @ rest)] = op_bytes op @ rest"
    by (intro nth_equalityI) simp_all
  from read_loaded [OF p this] show ?thesis by (simp add: add.assoc)
qed

lemma code_at:
  assumes "end_of ts \<le> j" "j < length ts"
  obtains pre rest where "code_of ts = pre @ token_bytes (ts ! j) @ rest" "address a ts j = a + of_nat (length pre)"
    "address a ts (Suc j) = a + of_nat (length pre + length (token_bytes (ts ! j)))"
proof -
  let ?e = "end_of ts" and ?f = "\<lambda>ts. concat (map token_bytes ts)"
  define pre where "pre = ?f (take (j - ?e) (drop ?e ts))"
  have "drop ?e ts = take (j - ?e) (drop ?e ts) @ drop (j - ?e) (drop ?e ts)" by (rule append_take_drop_id [symmetric])
  also have "drop (j - ?e) (drop ?e ts) = ts ! j # drop (Suc j) ts" using assms by (simp add: Cons_nth_drop_Suc)
  finally have "?f (drop ?e ts) = ?f (take (j - ?e) (drop ?e ts) @ ts ! j # drop (Suc j) ts)" by (rule arg_cong)
  then have c: "code_of ts = pre @ token_bytes (ts ! j) @ ?f (drop (Suc j) ts)" by (simp add: code_of_def pre_def)
  have "take j ts = take ?e ts @ take (j - ?e) (drop ?e ts)" using assms(1) by (metis take_add le_add_diff_inverse)
  then have "off_at ts j = off_at ts ?e + length pre" by (simp add: off_at_def pre_def)
  then show thesis using that [OF c] off_at_Suc [OF assms(2)] by (simp add: address_def)
qed


text \<open>
  C5: \<open>New\<close> makes a machine of every program that \<open>Assemble\<close> makes, if only the stack size consists of whole
  words, which the assembler does not look at.  The machine has the entry and the limit of the
  program's header, and its memory has the program's code right above the stacks.
\<close>
theorem Assemble_New:
  assumes "Assemble fuel env vs = Done (Inr out)" "scanned fuel env vs = Done (Inr (sec, rs, base))"
    "maxBytes sec < 2 ^ 32"
  shows "\<exists>ts. relinked (sec_toks sec) rs ts \<and> (\<forall>r \<in> set rs. linked base ts r) \<and>
    stack_size ts = stack_size (sec_toks sec) \<and>
    (if stack_size ts mod 4 = 0
     then \<exists>s. New out [] = Some (Inr s) \<and> 
       ip s = last (stack_size ts # option_args OptEntry (header_of ts)) \<and>
       limit s = last (0 # map ucast (option_args OptMaxOps (header_of ts))) \<and>
       outs s = regions OptOutput (header_of ts) \<and>
       map (\<lambda>k. byte_at s (unat (stack_size ts) + k)) [0..<length (code_of ts)] = code_of ts
     else New out [] = Some (Inl (StackSizeNotWords (stack_size ts))))"
proof -
  obtain ts where T: "relinked (sec_toks sec) rs ts" "\<forall>r \<in> set rs. linked base ts r" "stack_size ts = stack_size (sec_toks sec)"
    and h: "if stack_size ts mod 4 = 0 then \<exists>mb. handleOpts (raw_builder out) = (None, mb) \<and> configured ts mb \<and> drop (pos mb) (buf mb) = code_of ts
     else \<exists>mb. handleOpts (raw_builder out) = (Some (StackSizeNotWords (stack_size ts)), mb)"
    by (rule assembled_header [OF assms])
  show ?thesis
  proof (cases "stack_size ts mod 4 = 0")
    case True
    then obtain mb where "handleOpts (raw_builder out) = (None, mb)" "configured ts mb" "drop (pos mb) (buf mb) = code_of ts"
      using h by auto
    then obtain s m where s: "New out [] = Some (Inr s)" "s = storeBytes (stack_size ts) (code_of ts) m" "heap_inv 1 m"
      "ip s = last (stack_size ts # option_args OptEntry (header_of ts))"
      "limit s = last (0 # map ucast (option_args OptMaxOps (header_of ts)))" "outs s = regions OptOutput (header_of ts)"
      by (rule New_parsed)
    have "map (\<lambda>k. byte_at s (unat (stack_size ts) + k)) [0..<length (code_of ts)] = code_of ts"
      unfolding s(2) by (rule bytes_stored [OF s(3) order.refl])
    then show ?thesis using T s(1,4-6) True by (intro exI [of _ ts]) simp
  next
    case False
    then have "New out [] = Some (Inl (StackSizeNotWords (stack_size ts)))" using h by (auto simp: New_def build_def)
    then show ?thesis using T False by (intro exI [of _ ts]) simp
  qed
qed

text \<open>
  C6: assembling, building and decoding are one: in the memory of the machine that \<open>New\<close> makes of an
  assembled program, the operation at the final address of every token of the program is that token, and
  the address after it is that of the next token.
\<close>
theorem Assemble_decodes:
  assumes "Assemble fuel env vs = Done (Inr out)" "scanned fuel env vs = Done (Inr (sec, rs, base))"
    "maxBytes sec < 2 ^ 32" "stack_size (sec_toks sec) mod 4 = 0" "length out \<le> 2 ^ 32 - 2 ^ 16"
  shows "\<exists>ts s. relinked (sec_toks sec) rs ts \<and> (\<forall>r \<in> set rs. linked base ts r) \<and> New out [] = Some (Inr s) \<and>
    (\<forall>j. end_of ts \<le> j \<and> j < length ts \<and> kind (ts ! j) = opTK \<longrightarrow>
       (let op = tok_op (ts ! j); arg = if hasImm (op_byte op) then Arg op else 0
        in read (address (stack_size ts) ts j) s =
             (address (stack_size ts) ts (Suc j), op_byte op, arg, validate (op_byte op) arg)))"
proof -
  obtain ts where T: "relinked (sec_toks sec) rs ts" "\<forall>r \<in> set rs. linked base ts r" "out = concat (map token_bytes ts)"
      "stack_size ts = stack_size (sec_toks sec)" "stack_size ts \<le> 0xffff"
    and h: "if stack_size ts mod 4 = 0 then \<exists>mb. handleOpts (raw_builder out) = (None, mb) \<and> configured ts mb \<and> drop (pos mb) (buf mb) = code_of ts
     else \<exists>mb. handleOpts (raw_builder out) = (Some (StackSizeNotWords (stack_size ts)), mb)"
    by (rule assembled_header [OF assms(1-3)])
  then obtain mb where "handleOpts (raw_builder out) = (None, mb)" "configured ts mb" "drop (pos mb) (buf mb) = code_of ts"
    using h assms(4) by auto
  then obtain s m where N: "New out [] = Some (Inr s)" "s = storeBytes (stack_size ts) (code_of ts) m" "heap_inv 1 m"
    by (rule New_parsed)
  have "out = concat (map token_bytes (take (end_of ts) ts @ drop (end_of ts) ts))" by (simp add: T(3))
  then have "out = concat (map token_bytes (take (end_of ts) ts)) @ code_of ts" unfolding map_append concat_append code_of_def .
  then have "length (code_of ts) \<le> 2 ^ 32 - 2 ^ 16" using assms(5) by simp
  moreover have "unat (stack_size ts) \<le> 2 ^ 16" using T(5) by (simp add: word_le_nat_alt)
  ultimately have le: "unat (stack_size ts) + length (code_of ts) \<le> 2 ^ 32" by simp
  have "read (address (stack_size ts) ts j) s = (address (stack_size ts) ts (Suc j), op_byte op, if hasImm (op_byte op) then Arg op else 0,
      validate (op_byte op) (if hasImm (op_byte op) then Arg op else 0))"
    if j: "end_of ts \<le> j" "j < length ts" "kind (ts ! j) = opTK" and op: "op = tok_op (ts ! j)" for j op
  proof -
    obtain pre rest where c: "code_of ts = pre @ token_bytes (ts ! j) @ rest"
      "address (stack_size ts) ts j = stack_size ts + of_nat (length pre)"
      "address (stack_size ts) ts (Suc j) = stack_size ts + of_nat (length pre + length (token_bytes (ts ! j)))"
      by (rule code_at [OF j(1,2)])
    have "token_bytes (ts ! j) = op_bytes op" using j(3) op by (simp add: token_bytes_def)
    then show ?thesis using read_inside [OF N(3), of "stack_size ts" pre op rest] le c N(2) by simp
  qed
  then show ?thesis using T(1,2) N(1) unfolding Let_def by blast
qed

subsection \<open>Witnesses\<close>

definition calling_out :: "u8 list" where
  "calling_out = [0x7f, 0x83, 0x09, 0x40, 0x04] @ bytes_of ''main'' @ [0x43, 0x01] @ bytes_of ''f'' @ [0x43, 0x06] @
     bytes_of ''.ret.f'' @ [0xc0, 0x01, 0xc0, 0x05, 0xc3, 0x0a, 0xc3, 0x0b, 0x00, 0xc3, 0x33, 0x7f, 0x34]"

lemma calling_assembles: "Assemble 20 doubling calling = Done (Inr calling_out)"
  by code_simp

lemma calling_scanned:
  obtains sec rs base where "scanned 20 doubling calling = Done (Inr (sec, rs, base))" "maxBytes sec < 2 ^ 32"
    "stack_size (sec_toks sec) = 64" "base = 64"
proof -
  have "(case scanned 20 doubling calling of
      Done (Inr (sec, rs, base)) \<Rightarrow> maxBytes sec < 2 ^ 32 \<and> stack_size (sec_toks sec) = 64 \<and> base = 64 | _ \<Rightarrow> False)"
    by code_simp
  with that show thesis by (auto split: outcome.splits sum.splits)
qed

text \<open>A program with a stack of six bytes.\<close>

definition six :: "val list" where
  "six = [VStr ''.stackSize'', VInt 6, VStr ''halt'']"

lemma six_assembles: "Assemble 20 doubling six = Done (Inr [0x7f, 0x86, 0x01, 0x00, 0x7f])"
  by code_simp

lemma six_scanned:
  obtains sec rs base where "scanned 20 doubling six = Done (Inr (sec, rs, base))" "maxBytes sec < 2 ^ 32"
    "stack_size (sec_toks sec) = 6"
proof -
  have "(case scanned 20 doubling six of
      Done (Inr (sec, rs, base)) \<Rightarrow> maxBytes sec < 2 ^ 32 \<and> stack_size (sec_toks sec) = 6 | _ \<Rightarrow> False)"
    by code_simp
  with that show thesis by (auto split: outcome.splits sum.splits)
qed


theorem Assemble_New_witness:
  "(\<exists>s. New calling_out [] = Some (Inr s)) \<and> New [0x7f, 0x86, 0x01, 0x00, 0x7f] [] = Some (Inl (StackSizeNotWords 6))"
proof (rule calling_scanned, rule six_scanned)
  fix sec rs base sec' rs' base'
  assume "scanned 20 doubling calling = Done (Inr (sec, rs, base))" "maxBytes sec < 2 ^ 32" "stack_size (sec_toks sec) = 64"
    and s: "scanned 20 doubling six = Done (Inr (sec', rs', base'))" "maxBytes sec' < 2 ^ 32" "stack_size (sec_toks sec') = 6"
  then have "\<exists>s. New calling_out [] = Some (Inr s)" using Assemble_New [OF calling_assembles] by fastforce
  moreover have "New [0x7f, 0x86, 0x01, 0x00, 0x7f] [] = Some (Inl (StackSizeNotWords 6))"
    using Assemble_New [OF six_assembles s(1,2)] s(3) by auto
  ultimately show ?thesis ..
qed

theorem Assemble_decodes_witness:
  "\<exists>ts s. New calling_out [] = Some (Inr s) \<and>
    (\<forall>j. end_of ts \<le> j \<and> j < length ts \<and> kind (ts ! j) = opTK \<longrightarrow>
       fst (snd (read (address (stack_size ts) ts j) s)) = op_byte (tok_op (ts ! j)))"
proof (rule calling_scanned)
  fix sec rs base
  assume s: "scanned 20 doubling calling = Done (Inr (sec, rs, base))" "maxBytes sec < 2 ^ 32" "stack_size (sec_toks sec) = 64"
  then have "stack_size (sec_toks sec) mod 4 = 0" by simp
  moreover have "length calling_out \<le> 2 ^ 32 - 2 ^ 16" by (simp add: calling_out_def)
  ultimately have "\<exists>ts s. relinked (sec_toks sec) rs ts \<and> (\<forall>r \<in> set rs. linked base ts r) \<and> New calling_out [] = Some (Inr s) \<and>
    (\<forall>j. end_of ts \<le> j \<and> j < length ts \<and> kind (ts ! j) = opTK \<longrightarrow>
       (let op = tok_op (ts ! j); arg = if hasImm (op_byte op) then Arg op else 0
        in read (address (stack_size ts) ts j) s =
             (address (stack_size ts) ts (Suc j), op_byte op, arg, validate (op_byte op) arg)))"
    by (rule Assemble_decodes [OF calling_assembles s(1,2)])
  then show ?thesis by (fastforce simp: Let_def)
qed

end
