(* ===== verification/Spec2Isabelle.thy ===== *)
theory Spec2Isabelle
  imports Console CopyLines Texts Wrapping Dumper Semantics Values Deploy
begin

text \<open>
  A model of stackvm, a virtual machine with two stacks, paged copy-on-write memory and cheap forks,
  and of what is around it: the machine builder, tracing, the assembler, the memory dumper and the tool that
  reads traces.  All paths are under \<open>src/\<close>.

  \<^bold>\<open>The program.\<close>  A program is a header of options followed by code (\<open>api.go\<close>, \<open>New\<close>), both in a
  variable-length code (\<open>encoding.go\<close>).  \<open>step\<close> of \<open>vm.go\<close> decodes one operation at a time and
  executes it on the parameter stack, the control stack and the pages.  A fork copies the machine and
  shares its pages (\<open>vm.go\<close>, \<open>alloc.go\<close>) and puts the copy into the run queue (\<open>queue.go\<close>).  \<open>run\<close>
  steps a machine until it ends, hands it to the handler and takes the next from the queue; \<open>Trace\<close>
  does so with a tracer.  The assembler (\<open>x/assemble.go\<close>) makes programs from Go values.  The log
  tracer (\<open>x/tracer/log.go\<close>) writes a line for each call; \<open>tools/tracelog\<close> reads such lines, puts them
  together to sessions of machines with their parents, and prints those, or writes them as
  JSON or into a page.

  \<^bold>\<open>The theories.\<close>
  \<^item> \<open>Prelude\<close>: words, byte order, Go's remainder, and \<open>keeps\<close>, a predicate on results that may panic.
  \<^item> \<open>Varcode\<close>: \<open>encoding.go\<close>.  \<open>Ops\<close>: \<open>ops.go\<close>, \<open>op_codes.go\<close>, \<open>Op\<close> and the options of \<open>api.go\<close>.
  \<^item> \<open>Machine\<close>: the state.  A \<open>vm\<close> is the running machine with all that machines share: the
    pages as a store of data and reference counts, the free lists of the allocators, the run queue and the
    caches of decoded operations.  An address of a Go object is an index into such a store.
  \<^item> \<open>Memory\<close>, \<open>Stack\<close>, \<open>Machines\<close>, \<open>Control\<close>, \<open>Exec\<close>: the functions of \<open>vm.go\<close>, \<open>alloc.go\<close> and
    \<open>queue.go\<close> under their Go names, each case of the \<open>switch\<close> of \<open>step\<close>, cut into one definition a group.
  \<^item> \<open>Run\<close>: \<open>run\<close>, \<open>Run\<close>, \<open>Step\<close>, \<open>Err\<close>.  \<open>Build\<close>: \<open>New\<close> with its options.  \<open>Values\<close>: what \<open>api.go\<close> shows of
    a machine.  \<open>Queueing\<close>: the calls of \<open>Queue\<close> that a traced machine makes in the middle of a step.  \<open>Trace\<close>,
    \<open>Tracers\<close>, \<open>Actions\<close>: \<open>Trace\<close>, \<open>x/tracer\<close> and \<open>x/action\<close>.  \<open>Wrapping\<close>: \<open>machTracer\<close> and \<open>fixTracer\<close> of
    \<open>api.go\<close>, by which a machine and the machines that it forks come to be traced.
  \<^item> \<open>Tokens\<close>, \<open>Sections\<close>, \<open>Scanner\<close>, \<open>Encoder\<close>: \<open>x/assemble.go\<close>, its tokens, what it collects, how it
    reads values and how it encodes and patches.
  \<^item> \<open>Formats\<close>, \<open>Texts\<close>: the texts of numbers, operations, errors, machines and tokens (\<open>ops.go\<close>, \<open>vm.go\<close>,
    \<open>api.go\<close>, \<open>x/assemble.go\<close>, \<open>internal/errors\<close>).  \<open>LogTracer\<close>: \<open>x/tracer/log.go\<close>.  \<open>Dumper\<close>: \<open>x/dumper\<close>.
  \<^item> \<open>KeyVals\<close>, \<open>Patterns\<close>, \<open>Tracelog\<close>, \<open>Console\<close>: \<open>tools/tracelog\<close>, its scanner of key-value pairs, what it
    uses of Go's regular expressions, sessions and their JSON, what it prints and the HTML page.

  \<^bold>\<open>Results.\<close>  A Go error is a value: \<open>merr option\<close> beside the new state, or the left of a sum.  A panic is
  \<^const>\<open>None\<close>, or \<open>Panic\<close> for a loop.  Machine integers are words of their width; Go's \<open>int\<close> is \<open>int\<close>, or
  \<open>nat\<close> where it counts.

  \<^bold>\<open>What is shown.\<close>
  \<^item> \<open>Sharing\<close>, \<open>Isolation\<close>, \<open>Frames\<close>: reference counts, free lists and recycled arrays stay consistent, and
    no step changes the record of another machine or its memory, in any machine that can be reached.  \<open>Caches\<close>: the
    arrays of decoded operations are shared in place.  A step may fill an empty entry of a queued machine's array (and
    does nothing else to it), and that machine then executes what was decoded there, whatever its own memory holds.
  \<^item> \<open>Memory_Spec\<close>, \<open>Stack_Spec\<close>: pages refine a function from addresses to bytes, the two stacks refine two
    lists that share a bounded space.
  \<^item> \<open>Invariant\<close>, \<open>Registers\<close>: what the registers keep.  \<open>Semantics\<close>: operations against a reference table,
    and the operations that do not do what they mean to.
  \<^item> \<open>Termination\<close>: with an operation limit every run ends.  \<open>Build\<close>: what \<open>New\<close> makes of a header, and that
    the result runs to an end.  \<open>Loading\<close>: encoded and loaded operations decode again.
  \<^item> \<open>Values\<close>: round trip of inputs, dumps.  \<open>Trace\<close>: tracers observe only, and a trace does what a run does.
    \<open>Queueing\<close>: the tracer is told of a machine before the run queue is asked to take it, so also when that refuses.
    \<open>Tracing\<close>: when the run queue is empty at the start, every tracer is a fold over one and the same sequence of calls,
    and that sequence follows a protocol.  \<open>Wrapping\<close>: when the run queue is empty at
    the start, the wrappers of the contexts make exactly the calls of \<open>Queue\<close> that \<open>Trace\<close> has.
  \<^item> \<open>Linking\<close>, \<open>Assembling\<close>: the encoder's patching ends in a program in which every reference is linked,
    by the code's rule for offsets, to the final address of its label; the layout that this needs is kept by every operation of the assembler
    (\<open>asm_invariant\<close>), so by the scanner, for every input.  \<open>Deploy\<close>: the assembler and the builder together:
    what \<open>New\<close> makes of an assembled program, and that the machine decodes the program's operations.
  \<^item> \<open>KeyVals\<close>: the pairs survive joining and scanning again.  \<open>Tracelog\<close>: the path of a session and when it
    is found, the JSON text, also when the encoder fails.  \<open>Console\<close>: the printed text of a log under the flags of
    \<open>main\<close>, the page of the HTML dumper.  \<open>LogLines\<close>, \<open>CopyLines\<close>: the log tracer and the log tool together: lines with
    a mark that the tool knows are read back, those of two kinds of errors are not, and copies are linked, with the named
    values and labels of the machine.  \<open>Dumper\<close>: no machine that executes operations
    makes the dumper panic.

  \<^bold>\<open>Interfaces.\<close>  \<open>word_memory\<close> (\<open>Stack_Spec\<close>) is what the stacks need of the memory, interpreted on the pages.
  \<open>quiet_invariant\<close>, which \<open>exec_invariant\<close> extends by the forks, \<open>step_invariant\<close> and \<open>mem_invariant\<close>
  (\<open>Invariant\<close>) carry a property of the state that the memory operations keep through every case of \<open>step\<close>; they
  are interpreted on the run queue (\<open>Queueing\<close>), on the arrays of decoded operations (\<open>Caches\<close>), on sharing, isolation,
  the registers and the machines that may still be spawned.  \<open>asm_invariant\<close> (\<open>Assembling\<close>) is what the operations
  of the assembler promise the scanner, interpreted on the layout of the sections and, in \<open>Deploy\<close>, on the
  form of the header.

  \<^bold>\<open>Fuel.\<close>  \<open>run\<close>, \<open>trace\<close>, \<open>scan\<close> and the loop of \<open>encode\<close> take fuel, for they need not end: a program may
  loop, an include may include itself, a patch may make a token shorter and another longer in turn.
  \<open>run_terminates\<close> and \<open>New_run_ends\<close> give fuel that is enough under an operation limit (a limit of n allows
  less than 2 to the n machines, each of n steps), \<open>encode_plain\<close> one that is enough without references.
  \<open>ancestors\<close> of \<open>Tracelog\<close> follows parents in a log, which may go round; \<open>idPath_ends\<close> gives enough fuel
  for the ids that the id tracer makes.  The walks over the stacks take a fuel that bounds their length.  The
  theorems about results hold for every fuel with which there is one.

  \<^bold>\<open>Parameters.\<close>  The handler of a run and the tracer are functions with a state of their own.  How far
  \<open>append\<close> grows an array, and the identifier \<open>subProg\<close> that \<open>pushState\<close> uses and the package does not
  declare, are the fields of \<open>env\<close>; no theorem assumes anything of them.  Nor does one of \<open>strconv.ParseFloat\<close>, the
  JSON encoder (which may fail), the template of the page, the text and the order of a map, the order in which \<open>main\<close> sorts ids, the texts of a handler's errors (but that
  one has no at sign, where it says so), and the addresses that \<open>DumpPointers\<close> shows, which are arguments.

  \<^bold>\<open>Not modelled.\<close>  Of \<open>tools/tracelog\<close> the parsing of flags, files, the web output, which starts a browser, a
  web server or another program, and the generated \<open>bindata.go\<close>.  The option \<open>Logf\<close> of the assembler, with which it
  logs what it does.  \<open>x/test.go\<close>, a test harness.  A trace of a machine whose run queue holds machines already: those
  keep the tracer that they had, if any (\<open>leftover_tracer\<close> in \<open>Wrapping\<close>), where \<open>Trace\<close> takes them to have the
  tracer of the trace.
\<close>

end
